(* ===== verification/Prelude.thy ===== *)
theory Prelude
  imports Complex_Main "HOL-Library.List_Lexorder" "HOL-Library.Char_ord"
begin

text \<open>
  Shared vocabulary of the development: results of code that may throw, the fold of a
  throwing step over an event list, the few array operations of the JavaScript standard library
  the sources use, and the contract that every event-sourced component of the program
  (projection, validator, replay fold) satisfies.

  A function of the source that throws returns a value of a sum type: \<open>Inl\<close> carries the
  error, \<open>Inr\<close> the result. A throw leaves through every caller, so the callers chain
  results with \<open>bind_res\<close>.
\<close>

named_theorems res_simps \<open>unfolding and splitting of throwing computations\<close>
named_theorems array_simps \<open>facts on spliced arrays\<close>

section \<open>Throwing computations\<close>

definition bind_res :: "'e + 'a \<Rightarrow> ('a \<Rightarrow> 'e + 'b) \<Rightarrow> 'e + 'b" where
  "bind_res r f = (case r of Inl e \<Rightarrow> Inl e | Inr a \<Rightarrow> f a)"

definition returns :: "'e + 'a \<Rightarrow> bool" where
  "returns r = (case r of Inl e \<Rightarrow> False | Inr a \<Rightarrow> True)"

lemma bind_res_Inl [simp]: "bind_res (Inl e) f = Inl e"
  by (simp add: bind_res_def)

lemma bind_res_Inr [simp]: "bind_res (Inr a) f = f a"
  by (simp add: bind_res_def)

lemma bind_res_eq_Inr [res_simps]:
  "bind_res r f = Inr b \<longleftrightarrow> (\<exists>a. r = Inr a \<and> f a = Inr b)"
  by (cases r) simp_all

lemma bind_res_assoc: "bind_res (bind_res r f) g = bind_res r (\<lambda>a. bind_res (f a) g)"
  by (cases r) simp_all

lemma returns_simps [simp]: "returns (Inr a)" "\<not> returns (Inl e)"
  by (simp_all add: returns_def)

lemma returns_iff: "returns r \<longleftrightarrow> (\<exists>a. r = Inr a)"
  by (cases r) simp_all

text \<open>A loop whose body may throw: the first error ends it.\<close>

fun fold_res :: "('s \<Rightarrow> 'a \<Rightarrow> 'e + 's) \<Rightarrow> 's \<Rightarrow> 'a list \<Rightarrow> 'e + 's" where
  "fold_res f s [] = Inr s"
| "fold_res f s (x # xs) = bind_res (f s x) (\<lambda>s'. fold_res f s' xs)"

lemma fold_res_append:
  "fold_res f s (xs @ ys) = bind_res (fold_res f s xs) (\<lambda>s'. fold_res f s' ys)"
  by (induction xs arbitrary: s) (simp_all add: bind_res_assoc)

lemma fold_res_snoc:
  "fold_res f s (xs @ [x]) = bind_res (fold_res f s xs) (\<lambda>s'. f s' x)"
proof -
  have "(\<lambda>s'. bind_res (f s' x) Inr) = (\<lambda>s'. f s' x)"
    by (rule ext) (simp add: bind_res_def split: sum.split)
  then show ?thesis by (simp add: fold_res_append)
qed

lemma fold_res_invariant:
  assumes step: "\<And>s x s'. P s \<Longrightarrow> f s x = Inr s' \<Longrightarrow> P s'"
  shows "P s \<Longrightarrow> fold_res f s xs = Inr s' \<Longrightarrow> P s'"
  by (induction xs arbitrary: s) (auto simp: res_simps intro: step)

text \<open>A method of an object returns the object's new state with its result, so that a throw after a
  change keeps the change. \<open>then_run\<close> runs one method after another; \<open>checked\<close> runs one after a
  computation that reads only.\<close>

definition then_run :: "'s \<times> ('e + 'a) \<Rightarrow> ('a \<Rightarrow> 's \<Rightarrow> 's \<times> ('e + 'b)) \<Rightarrow> 's \<times> ('e + 'b)" where
  "then_run r f = (case r of (s, Inl err) \<Rightarrow> (s, Inl err) | (s, Inr a) \<Rightarrow> f a s)"

definition checked :: "'e + 'a \<Rightarrow> ('a \<Rightarrow> 's \<Rightarrow> 's \<times> ('e + 'b)) \<Rightarrow> 's \<Rightarrow> 's \<times> ('e + 'b)" where
  "checked r f s = (case r of Inl err \<Rightarrow> (s, Inl err) | Inr a \<Rightarrow> f a s)"

lemma checked_simps [simp]: "checked (Inl err) f s = (s, Inl err)" "checked (Inr a) f s = f a s"
  by (simp_all add: checked_def)

lemma then_run_simps [simp]: "then_run (s, Inl err) f = (s, Inl err)" "then_run (s, Inr a) f = f a s"
  by (simp_all add: then_run_def)

lemma then_run_assoc: "then_run (then_run r f) g = then_run r (\<lambda>x st. then_run (f x st) g)"
  by (simp add: then_run_def split: prod.split sum.split)

section \<open>Arrays\<close>

text \<open>\<open>toSpliced xs start del ins\<close> is \<open>xs.toSpliced(start, del, ...ins)\<close> for indices that are
  in range: \<open>start \<le> length xs\<close> and \<open>start + del \<le> length xs\<close>.\<close>

definition toSpliced :: "'a list \<Rightarrow> nat \<Rightarrow> nat \<Rightarrow> 'a list \<Rightarrow> 'a list" where
  "toSpliced xs start del ins = take start xs @ ins @ drop (start + del) xs"

text \<open>\<open>slice xs i j\<close> is \<open>xs.slice(i, j)\<close> for \<open>i \<le> j\<close>.\<close>

definition slice :: "'a list \<Rightarrow> nat \<Rightarrow> nat \<Rightarrow> 'a list" where
  "slice xs i j = take (j - i) (drop i xs)"

text \<open>\<open>findIndex p xs\<close> is \<open>xs.findIndex(p)\<close>, with \<open>None\<close> for \<open>-1\<close>;
  \<open>indexOf\<close> compares with strict equality.\<close>

fun findIndex :: "('a \<Rightarrow> bool) \<Rightarrow> 'a list \<Rightarrow> nat option" where
  "findIndex p [] = None"
| "findIndex p (x # xs) = (if p x then Some 0 else map_option Suc (findIndex p xs))"

definition indexOf :: "'a list \<Rightarrow> 'a \<Rightarrow> nat option" where
  "indexOf xs a = findIndex (\<lambda>x. x = a) xs"

lemma findIndex_Some:
  "findIndex p xs = Some i \<Longrightarrow> i < length xs \<and> p (xs ! i) \<and> (\<forall>j < i. \<not> p (xs ! j))"
proof (induction xs arbitrary: i)
  case (Cons x xs)
  show ?case
  proof (cases "p x")
    case False
    with Cons.prems obtain k where k: "findIndex p xs = Some k" and i: "i = Suc k" by auto
    have "\<not> p ((x # xs) ! j)" if "j < i" for j
      using that False i Cons.IH [OF k] by (cases j) auto
    with Cons.IH [OF k] i show ?thesis by auto
  qed (use Cons.prems in auto)
qed simp

lemma findIndex_None: "findIndex p xs = None \<longleftrightarrow> (\<forall>x \<in> set xs. \<not> p x)"
  by (induction xs) auto

lemma findIndex_eq_Some:
  assumes "i < length xs" and "p (xs ! i)" and "\<And>j. j < i \<Longrightarrow> \<not> p (xs ! j)"
  shows "findIndex p xs = Some i"
proof (cases "findIndex p xs")
  case None
  with assms(1,2) show ?thesis by (auto simp: findIndex_None)
next
  case (Some k)
  from findIndex_Some [OF Some] assms show ?thesis
    by (metis Some linorder_neqE_nat)
qed

text \<open>\<open>xs.find(p)\<close> is the library's \<open>find\<close>.\<close>

lemma find_append: "find p (xs @ ys) = (case find p xs of None \<Rightarrow> find p ys | Some x \<Rightarrow> Some x)"
  by (induction xs) simp_all

lemma find_in_set: "find p xs = Some x \<Longrightarrow> x \<in> set xs \<and> p x"
  by (induction xs) (auto split: if_splits)

lemma find_None_iff_all: "find p xs = None \<longleftrightarrow> (\<forall>x \<in> set xs. \<not> p x)"
  by (induction xs) auto

lemma find_cong_on: "(\<And>x. x \<in> set xs \<Longrightarrow> p x = q x) \<Longrightarrow> find p xs = find q xs"
  by (induction xs) auto

lemma toSpliced_append_end [array_simps]: "toSpliced xs (length xs) 0 ins = xs @ ins"
  by (simp add: toSpliced_def)

lemma toSpliced_prepend [array_simps]: "toSpliced xs 0 0 ins = ins @ xs"
  by (simp add: toSpliced_def)

lemma toSpliced_all [array_simps]: "toSpliced xs 0 (length xs) ins = ins"
  by (simp add: toSpliced_def)

lemma set_toSpliced_subset: "set (toSpliced xs start del ins) \<subseteq> set xs \<union> set ins"
  by (auto simp: toSpliced_def dest: in_set_takeD in_set_dropD)

lemma length_toSpliced:
  "start + del \<le> length xs \<Longrightarrow> length (toSpliced xs start del ins) = length xs - del + length ins"
  by (simp add: toSpliced_def)

lemma slice_parts:
  "start + del \<le> length xs \<Longrightarrow>
     xs = take start xs @ slice xs start (start + del) @ drop (start + del) xs"
  by (simp add: slice_def) (metis append_take_drop_id drop_drop add.commute)

lemma upto_join: "a \<le> b \<Longrightarrow> b \<le> c \<Longrightarrow> [a + 1..b] @ [b + 1..c] = [a + 1..c :: int]"
  by (cases "a = b") (simp_all add: upto_split2 [symmetric])

section \<open>Event folds\<close>

text \<open>
  The contract shared by every component that is driven by the session log: it starts in
  \<open>init\<close>, advances by \<open>step\<close> (which may reject the event), keeps the invariant \<open>inv\<close>
  in every state it accepts, and ignores the events that are not \<open>relevant\<close> to it. The
  registry relies on exactly this when it resumes a fold from a checkpoint or hands a
  component only the events it owns.
\<close>

locale event_fold =
  fixes init :: "'s"
    and step :: "'s \<Rightarrow> 'ev \<Rightarrow> 'e + 's"
    and relevant :: "'ev \<Rightarrow> bool"
    and inv :: "'s \<Rightarrow> bool"
  assumes inv_init: "inv init"
    and inv_step: "inv s \<Longrightarrow> step s e = Inr s' \<Longrightarrow> inv s'"
    and step_irrelevant: "inv s \<Longrightarrow> \<not> relevant e \<Longrightarrow> step s e = Inr s"
begin

lemma replay_inv: "inv s \<Longrightarrow> fold_res step s es = Inr s' \<Longrightarrow> inv s'"
  by (rule fold_res_invariant [where P = inv]) (auto intro: inv_step)

lemma replay_from_init: "fold_res step init es = Inr s' \<Longrightarrow> inv s'"
  by (rule replay_inv [OF inv_init])

text \<open>Handing over only the relevant events gives the same result, errors included.\<close>

lemma replay_relevant: "inv s \<Longrightarrow> fold_res step s es = fold_res step s (filter relevant es)"
proof (induction es arbitrary: s)
  case (Cons e es)
  show ?case
  proof (cases "relevant e")
    case True
    have "fold_res step s' es = fold_res step s' (filter relevant es)" if "step s e = Inr s'" for s'
      using Cons.IH [OF inv_step [OF Cons.prems that]] .
    with True show ?thesis by (cases "step s e") simp_all
  next
    case False
    with Cons show ?thesis by (simp add: step_irrelevant)
  qed
qed simp

text \<open>Resuming from a checkpoint taken after any prefix is the same as replaying the whole log.\<close>

lemma replay_resume:
  "fold_res step init xs = Inr s \<Longrightarrow> fold_res step init (xs @ ys) = fold_res step s ys"
  by (simp add: fold_res_append)

end

end
