(* ===== verification/Deque.thy ===== *)
theory Deque
  imports Prelude
begin

text \<open>
  The circular deque of \<^verbatim>\<open>packages/util/deque/src/index.ts\<close>, which backs the queues that hold
  entries across asynchronous work. The state is the backing array, the head index and the live
  count; a slot is \<open>None\<close> where the array holds \<open>undefined\<close>. The operations are refined to
  list operations through \<open>items\<close>, the laws are collected in the locale \<open>double_queue\<close>, and the
  representation invariant also carries the two storage promises of the class comment: removed
  entries are cleared, and the array is never more than four times the live count once it has grown.
\<close>

section \<open>Representation\<close>

definition MIN_CAPACITY :: nat where
  "MIN_CAPACITY = 16"

record 'a deque =
  buffer :: "'a option list"
  head :: nat
  count :: nat

definition empty_deque :: "'a deque" where
  "empty_deque = \<lparr>buffer = replicate MIN_CAPACITY None, head = 0, count = 0\<rparr>"

definition deque_size :: "'a deque \<Rightarrow> nat" where
  "deque_size d = count d"

text \<open>The copy loop of \<open>resize\<close>: \<open>n\<close> entries remain, \<open>source\<close> wraps at the end of the old array.\<close>

fun copy_loop :: "'a option list \<Rightarrow> nat \<Rightarrow> nat \<Rightarrow> nat \<Rightarrow> 'a option list \<Rightarrow> 'a option list" where
  "copy_loop buf source index 0 next = next"
| "copy_loop buf source index (Suc n) next =
     copy_loop buf (if source + 1 = length buf then 0 else source + 1) (index + 1) n
       (next[index := buf ! source])"

definition resize :: "nat \<Rightarrow> 'a deque \<Rightarrow> 'a deque" where
  "resize capacity d =
     d\<lparr>buffer := copy_loop (buffer d) (head d) 0 (count d) (replicate capacity None), head := 0\<rparr>"

definition ensureCapacity :: "'a deque \<Rightarrow> 'a deque" where
  "ensureCapacity d =
     (if count d < length (buffer d) then d else resize (length (buffer d) * 2) d)"

definition compact_deque :: "'a deque \<Rightarrow> 'a deque" where
  "compact_deque d =
     (if count d = 0 then d\<lparr>head := 0\<rparr>
      else if length (buffer d) > MIN_CAPACITY \<and> 4 * count d \<le> length (buffer d)
      then resize (max MIN_CAPACITY (length (buffer d) div 2)) d
      else d)"

definition pushBack :: "'a \<Rightarrow> 'a deque \<Rightarrow> 'a deque" where
  "pushBack value d0 =
     (let d = ensureCapacity d0;
          tail = head d + count d;
          slot = (if tail < length (buffer d) then tail else tail - length (buffer d))
      in d\<lparr>buffer := (buffer d)[slot := Some value], count := count d + 1\<rparr>)"

definition pushFront :: "'a \<Rightarrow> 'a deque \<Rightarrow> 'a deque" where
  "pushFront value d0 =
     (let d = ensureCapacity d0;
          h = (if head d = 0 then length (buffer d) - 1 else head d - 1)
      in d\<lparr>buffer := (buffer d)[h := Some value], head := h, count := count d + 1\<rparr>)"

definition popFront :: "'a deque \<Rightarrow> 'a option \<times> 'a deque" where
  "popFront d =
     (if count d = 0 then (None, d)
      else let value = buffer d ! head d;
               h = (if head d + 1 = length (buffer d) then 0 else head d + 1)
           in (value, compact_deque (d\<lparr>buffer := (buffer d)[head d := None], head := h,
                                        count := count d - 1\<rparr>)))"

definition clear_deque :: "'a deque \<Rightarrow> 'a deque" where
  "clear_deque d = d\<lparr>buffer := replicate MIN_CAPACITY None, head := 0, count := 0\<rparr>"

section \<open>Abstraction and representation invariant\<close>

text \<open>The array read from the head round to the slot before it.\<close>

definition ring :: "'a deque \<Rightarrow> 'a option list" where
  "ring d = drop (head d) (buffer d) @ take (head d) (buffer d)"

definition items :: "'a deque \<Rightarrow> 'a list" where
  "items d = map the (take (count d) (ring d))"

text \<open>The live entries come first and every other slot is cleared.\<close>

definition ring_inv :: "'a deque \<Rightarrow> bool" where
  "ring_inv d \<longleftrightarrow> head d < length (buffer d) \<and> count d \<le> length (buffer d) \<and>
     ring d = map Some (items d) @ replicate (length (buffer d) - count d) None"

definition storage_inv :: "'a deque \<Rightarrow> bool" where
  "storage_inv d \<longleftrightarrow> (\<exists>k. length (buffer d) = MIN_CAPACITY * 2 ^ k) \<and>
     (length (buffer d) = MIN_CAPACITY \<or> length (buffer d) < 4 * count d)"

definition deque_inv :: "'a deque \<Rightarrow> bool" where
  "deque_inv d \<longleftrightarrow> ring_inv d \<and> storage_inv d"

lemma deque_inv_ring: "deque_inv d \<Longrightarrow> ring_inv d"
  by (simp add: deque_inv_def)

lemma length_ring [simp]: "length (ring d) = length (buffer d)"
  by (simp add: ring_def)

lemma length_items: "ring_inv d \<Longrightarrow> length (items d) = count d"
  by (simp add: ring_inv_def items_def)

text \<open>The invariant is determined by what the ring holds.\<close>

lemma ring_invI:
  assumes "head d < length (buffer d)" and "ring d = map Some xs @ replicate m None"
    and "count d = length xs"
  shows "ring_inv d \<and> items d = xs"
proof -
  have it: "items d = xs" using assms(2,3) by (simp add: items_def)
  have "length (buffer d) = length xs + m"
    using assms(2) by (metis length_append length_map length_replicate length_ring)
  with assms it show ?thesis by (simp add: ring_inv_def)
qed

lemma ring_invD:
  assumes "ring_inv d"
  shows "head d < length (buffer d)" "count d = length (items d)"
    "ring d = map Some (items d) @ replicate (length (buffer d) - length (items d)) None"
    "length (items d) \<le> length (buffer d)"
  using assms length_items [OF assms] by (auto simp: ring_inv_def)

section \<open>The copy loop\<close>

lemma ring_nth:
  "head d < length (buffer d) \<Longrightarrow> i < length (buffer d) \<Longrightarrow>
     ring d ! i = buffer d ! (if head d + i < length (buffer d) then head d + i
                              else head d + i - length (buffer d))"
  by (auto simp: ring_def nth_append add.commute)

lemma length_copy_loop [simp]: "length (copy_loop buf s i n next) = length next"
  by (induction n arbitrary: s i "next") simp_all

lemma copy_loop_nth:
  assumes "s < length buf" "n \<le> length buf" "i + n \<le> length next" "j < length next"
  shows "copy_loop buf s i n next ! j =
    (if i \<le> j \<and> j < i + n
     then buf ! (if s + (j - i) < length buf then s + (j - i) else s + (j - i) - length buf)
     else next ! j)"
  using assms
proof (induction n arbitrary: s i "next")
  case (Suc n)
  let ?s = "if s + 1 = length buf then 0 else s + 1"
  have "copy_loop buf s i (Suc n) next ! j = copy_loop buf ?s (i + 1) n (next[i := buf ! s]) ! j"
    by simp
  also have "\<dots> = (if i + 1 \<le> j \<and> j < i + 1 + n
     then buf ! (if ?s + (j - (i + 1)) < length buf then ?s + (j - (i + 1))
                 else ?s + (j - (i + 1)) - length buf)
     else next[i := buf ! s] ! j)"
    by (rule Suc.IH) (use Suc.prems in auto)
  finally have eq: "copy_loop buf s i (Suc n) next ! j = \<dots>" .
  consider "j = i" | "i < j" "j < i + Suc n" | "j < i \<or> i + Suc n \<le> j" by linarith
  then show ?case
  proof cases
    case 1
    with eq Suc.prems show ?thesis by simp
  next
    case 2
    then obtain m where m: "j = i + Suc m" by (metis less_iff_Suc_add add_Suc_right)
    have "Suc (s + m) - length buf = m" if "Suc s = length buf" using that by linarith
    with eq 2 Suc.prems show ?thesis unfolding m by auto
  next
    case 3
    with eq show ?thesis by auto
  qed
qed auto

lemma ring_resize:
  assumes "ring_inv d" "count d \<le> capacity" "0 < capacity"
  shows "ring (resize capacity d) = map Some (items d) @ replicate (capacity - count d) None"
proof -
  note inv = ring_invD [OF assms(1)]
  have "copy_loop (buffer d) (head d) 0 (count d) (replicate capacity None) =
      map Some (items d) @ replicate (capacity - count d) None" (is "?l = ?r")
  proof (rule nth_equalityI)
    show "length ?l = length ?r" using assms inv by simp
    fix j assume "j < length ?l"
    then have j: "j < capacity" by simp
    show "?l ! j = ?r ! j"
    proof (cases "j < count d")
      case True
      have "?l ! j = ring d ! j"
        using True assms inv(1,2,4) j by (subst copy_loop_nth) (auto simp: ring_nth)
      also have "\<dots> = ?r ! j" using True inv by (simp add: nth_append)
      finally show ?thesis .
    next
      case False
      then show ?thesis using assms inv j by (subst copy_loop_nth) (auto simp: nth_append)
    qed
  qed
  then show ?thesis by (simp add: ring_def resize_def)
qed

lemma resize_simps [simp]:
  "count (resize c d) = count d" "length (buffer (resize c d)) = c" "head (resize c d) = 0"
  by (simp_all add: resize_def)

lemma resize_inv:
  assumes "ring_inv d" "count d \<le> capacity" "0 < capacity"
  shows "ring_inv (resize capacity d)" "items (resize capacity d) = items d"
proof -
  have "ring_inv (resize capacity d) \<and> items (resize capacity d) = items d"
    by (rule ring_invI [where m = "capacity - count d"])
      (use assms in \<open>simp_all add: ring_resize length_items\<close>)
  then show "ring_inv (resize capacity d)" "items (resize capacity d) = items d" by simp_all
qed

section \<open>The operations on the abstraction\<close>

lemma ensureCapacity_inv:
  assumes "ring_inv d"
  shows "ring_inv (ensureCapacity d)" "items (ensureCapacity d) = items d"
    "count (ensureCapacity d) = count d" "count d < length (buffer (ensureCapacity d))"
proof -
  note inv = ring_invD [OF assms]
  have "count d \<le> length (buffer d) * 2" "0 < length (buffer d) * 2" using inv by linarith+
  note r = resize_inv [OF assms this]
  show "ring_inv (ensureCapacity d)" "items (ensureCapacity d) = items d"
    "count (ensureCapacity d) = count d" "count d < length (buffer (ensureCapacity d))"
    using assms r inv by (auto simp: ensureCapacity_def)
qed

lemma ring_write:
  assumes "head d < length (buffer d)" "i < length (buffer d)"
    and "slot = (if head d + i < length (buffer d) then head d + i
                 else head d + i - length (buffer d))"
  shows "ring (d\<lparr>buffer := (buffer d)[slot := v], count := c\<rparr>) = (ring d)[i := v]"
  (is "ring ?d = _")
proof (rule nth_equalityI)
  fix j assume "j < length (ring ?d)"
  then have j: "j < length (buffer d)" by simp
  have "ring ?d ! j = buffer ?d ! (if head ?d + j < length (buffer ?d) then head ?d + j
                              else head ?d + j - length (buffer ?d))"
    by (rule ring_nth) (use assms j in simp_all)
  also have "\<dots> = (ring d)[i := v] ! j"
    using assms j by (auto simp: ring_nth nth_list_update)
  finally show "ring ?d ! j = (ring d)[i := v] ! j" .
qed simp

lemma pushBack_ring:
  assumes "ring_inv d"
  shows "ring_inv (pushBack v d) \<and> items (pushBack v d) = items d @ [v]"
proof -
  define e where "e = ensureCapacity d"
  note e = ensureCapacity_inv [OF assms, folded e_def]
  note inv = ring_invD [OF e(1)]
  let ?n = "length (buffer e) - length (items e)"
  have n: "?n = Suc (?n - 1)" using e inv by simp
  have "ring (pushBack v d) = (ring e)[count e := Some v]"
    unfolding pushBack_def e_def [symmetric] Let_def
    by (rule ring_write) (use e inv in auto)
  also have "\<dots> = map Some (items d @ [v]) @ replicate (?n - 1) None"
    by (subst inv(3), subst n) (use e(2) inv(2) in \<open>simp add: list_update_append\<close>)
  finally have r: "ring (pushBack v d) = \<dots>" .
  show ?thesis
    by (rule ring_invI [OF _ r]) (use e inv in \<open>simp_all add: pushBack_def e_def Let_def\<close>)
qed

lemma pushFront_ring:
  assumes "ring_inv d"
  shows "ring_inv (pushFront v d) \<and> items (pushFront v d) = v # items d"
proof -
  define e where "e = ensureCapacity d"
  note e = ensureCapacity_inv [OF assms, folded e_def]
  note inv = ring_invD [OF e(1)]
  let ?n = "length (buffer e) - length (items e)"
  let ?N = "length (buffer e)"
  let ?h = "if head e = 0 then ?N - 1 else head e - 1"
  let ?p = "pushFront v d"
  have p: "buffer ?p = (buffer e)[?h := Some v]" "head ?p = ?h" "count ?p = count e + 1"
    by (simp_all add: pushFront_def e_def Let_def)
  have N: "0 < ?N" using inv by linarith
  have "ring ?p = Some v # butlast (ring e)"
  proof (rule nth_equalityI)
    fix j assume "j < length (ring ?p)"
    then have j: "j < ?N" by (simp add: p)
    have "ring ?p ! j = buffer ?p ! (if head ?p + j < length (buffer ?p) then head ?p + j
                              else head ?p + j - length (buffer ?p))"
      by (rule ring_nth) (use inv N j in \<open>auto simp: p\<close>)
    also have "\<dots> = (Some v # butlast (ring e)) ! j"
    proof (cases j)
      case 0
      then show ?thesis using inv N by (auto simp: p)
    next
      case (Suc i)
      with j have "butlast (ring e) ! i = ring e ! i" by (simp add: nth_butlast)
      with Suc j inv(1) show ?thesis by (auto simp: p ring_nth)
    qed
    finally show "ring ?p ! j = (Some v # butlast (ring e)) ! j" .
  qed (use N in \<open>simp add: p\<close>)
  also have "butlast (ring e) = map Some (items d) @ replicate (?n - 1) None"
  proof -
    have n: "?n = Suc (?n - 1)" using e inv by simp
    have "butlast (replicate ?n (None :: 'a option)) = replicate (?n - 1) None"
      by (subst n) (simp only: replicate_Suc replicate_append_same [symmetric] butlast_snoc)
    moreover have "replicate ?n (None :: 'a option) \<noteq> []" using e inv by simp
    ultimately show ?thesis using inv(3) e(2) by (simp add: butlast_append)
  qed
  finally have r: "ring ?p = map Some (v # items d) @ replicate (?n - 1) None" by simp
  show ?thesis
    by (rule ring_invI [OF _ r]) (use e inv N in \<open>auto simp: p\<close>)
qed

lemma popFront_ring:
  assumes "ring_inv d"
  shows "ring_inv (snd (popFront d)) \<and> items (snd (popFront d)) = tl (items d) \<and>
    fst (popFront d) = (case items d of [] \<Rightarrow> None | x # _ \<Rightarrow> Some x)"
proof (cases "items d")
  case Nil
  with ring_invD(2) [OF assms] assms show ?thesis by (simp add: popFront_def)
next
  case (Cons x xs)
  note inv = ring_invD [OF assms]
  let ?N = "length (buffer d)"
  let ?h = "if head d + 1 = ?N then 0 else head d + 1"
  define e where
    "e = d\<lparr>buffer := (buffer d)[head d := None], head := ?h, count := count d - 1\<rparr>"
  have pop: "popFront d = (buffer d ! head d, compact_deque e)"
    using inv(2) Cons by (simp add: popFront_def e_def)
  have "ring d ! 0 = buffer d ! head d" using inv by (subst ring_nth) auto
  then have first: "buffer d ! head d = Some x" using inv(3) Cons by (simp add: nth_append)
  have "ring e = tl (ring d) @ [None]"
  proof (rule nth_equalityI)
    fix j assume "j < length (ring e)"
    then have j: "j < ?N" by (simp add: e_def)
    have "ring e ! j = buffer e ! (if head e + j < length (buffer e) then head e + j
                              else head e + j - length (buffer e))"
      by (rule ring_nth) (use inv(1) j in \<open>auto simp: e_def\<close>)
    also have "\<dots> = (tl (ring d) @ [None]) ! j"
    proof (cases "Suc j < ?N")
      case True
      then have "j < length (ring d) - 1" by simp
      with True have "(tl (ring d) @ [None]) ! j = ring d ! Suc j" by (simp add: nth_append nth_tl)
      moreover have "Suc (head d + j) - ?N = j" if "Suc (head d) = ?N" using that by linarith
      ultimately show ?thesis using True inv(1) j by (auto simp: e_def ring_nth)
    next
      case False
      with j have "Suc j = ?N" by simp
      moreover from this have "j = length (tl (ring d))" by simp
      then have "(tl (ring d) @ [None]) ! j = None" by (simp only: nth_append_length)
      moreover from \<open>Suc j = ?N\<close> have "Suc (head d + j) - ?N = head d" by linarith
      moreover have "j = head d" if "Suc (head d) = ?N" using that \<open>Suc j = ?N\<close> by linarith
      ultimately show ?thesis using inv(1) by (cases "Suc (head d) = ?N") (auto simp: e_def)
    qed
    finally show "ring e ! j = (tl (ring d) @ [None]) ! j" .
  qed (use inv(1) in \<open>auto simp: e_def\<close>)
  also have "\<dots> = map Some xs @ replicate (Suc (?N - length (items d))) None"
    by (subst inv(3)) (simp add: Cons replicate_append_same)
  finally have r: "ring e = \<dots>" .
  have e: "ring_inv e \<and> items e = xs"
    by (rule ring_invI [OF _ r]) (use inv(1,2) Cons in \<open>auto simp: e_def\<close>)
  have c: "ring_inv (compact_deque e) \<and> items (compact_deque e) = xs"
  proof (cases "count e = 0")
    case True
    then have xs: "xs = []" using e length_items by fastforce
    have "set (ring e) \<subseteq> {None}" unfolding r xs by auto
    moreover have "set (buffer e) = set (ring e)"
      unfolding ring_def by (metis append_take_drop_id set_append Un_commute)
    ultimately have "set (buffer e) \<subseteq> {None}" by simp
    moreover have "length (buffer e) = ?N" by (simp add: e_def)
    ultimately have "buffer e = replicate ?N None" by (metis replicate_eqI singletonD subsetD)
    then have "ring (e\<lparr>head := 0\<rparr>) = map Some [] @ replicate ?N None" by (simp add: ring_def)
    then have "ring_inv (e\<lparr>head := 0\<rparr>) \<and> items (e\<lparr>head := 0\<rparr>) = []"
      by (rule ring_invI [rotated]) (use True inv(1) \<open>length (buffer e) = ?N\<close> in auto)
    then show ?thesis using True xs by (simp add: compact_deque_def)
  next
    case False
    show ?thesis
    proof (cases "length (buffer e) > MIN_CAPACITY \<and> 4 * count e \<le> length (buffer e)")
      case True
      then have "count e \<le> max MIN_CAPACITY (length (buffer e) div 2)" by linarith
      moreover have "0 < max MIN_CAPACITY (length (buffer e) div 2)" by (simp add: MIN_CAPACITY_def)
      ultimately show ?thesis
        using True False e resize_inv [of e] by (auto simp: compact_deque_def)
    qed (use False e in \<open>auto simp: compact_deque_def\<close>)
  qed
  show ?thesis using pop first c Cons by simp
qed

section \<open>Storage\<close>

lemma MIN_CAPACITY_pos: "0 < MIN_CAPACITY"
  by (simp add: MIN_CAPACITY_def)

lemma ensureCapacity_storage:
  assumes "deque_inv d"
  shows "\<exists>k. length (buffer (ensureCapacity d)) = MIN_CAPACITY * 2 ^ k"
    "length (buffer (ensureCapacity d)) = MIN_CAPACITY \<or>
     length (buffer (ensureCapacity d)) < 4 * (count d + 1)"
proof -
  obtain k where k: "length (buffer d) = MIN_CAPACITY * 2 ^ k"
    using assms by (auto simp: deque_inv_def storage_inv_def)
  then have "length (buffer d) * 2 = MIN_CAPACITY * 2 ^ Suc k" by simp
  with k show "\<exists>k. length (buffer (ensureCapacity d)) = MIN_CAPACITY * 2 ^ k"
    unfolding ensureCapacity_def by (metis resize_simps(2))
  show "length (buffer (ensureCapacity d)) = MIN_CAPACITY \<or>
     length (buffer (ensureCapacity d)) < 4 * (count d + 1)"
    using assms by (auto simp: ensureCapacity_def deque_inv_def storage_inv_def ring_inv_def)
qed

lemma pushBack_inv: "deque_inv d \<Longrightarrow> deque_inv (pushBack v d)"
  using pushBack_ring [of d v] ensureCapacity_storage [of d] ensureCapacity_inv(3) [of d]
  by (auto simp: deque_inv_def storage_inv_def pushBack_def Let_def)

lemma pushFront_inv: "deque_inv d \<Longrightarrow> deque_inv (pushFront v d)"
  using pushFront_ring [of d v] ensureCapacity_storage [of d] ensureCapacity_inv(3) [of d]
  by (auto simp: deque_inv_def storage_inv_def pushFront_def Let_def)

text \<open>After one removal the array is at most one entry over the quarter bound, so halving it once
  restores the bound.\<close>

lemma compact_storage:
  assumes len: "length (buffer e) = MIN_CAPACITY * 2 ^ k"
    and bound: "length (buffer e) = MIN_CAPACITY \<or> length (buffer e) < 4 * (count e + 1)"
  shows "storage_inv (compact_deque e)"
proof (cases "length (buffer e) = MIN_CAPACITY")
  case True
  then have "length (buffer (compact_deque e)) = MIN_CAPACITY" by (simp add: compact_deque_def)
  then show ?thesis unfolding storage_inv_def by (metis mult.right_neutral power_0)
next
  case False
  with len obtain m where k: "k = Suc m" by (cases k) auto
  have pos: "1 \<le> (2::nat) ^ m" by simp
  have half: "length (buffer e) div 2 = MIN_CAPACITY * 2 ^ m"
    "MIN_CAPACITY \<le> length (buffer e) div 2" "length (buffer e) = 2 * (MIN_CAPACITY * 2 ^ m)"
    using len k pos by (simp_all add: MIN_CAPACITY_def)
  have gt: "MIN_CAPACITY < length (buffer e)" using half MIN_CAPACITY_pos by linarith
  have nz: "count e \<noteq> 0" using bound False gt by (auto simp: MIN_CAPACITY_def)
  show ?thesis
  proof (cases "4 * count e \<le> length (buffer e)")
    case True
    have mult: "length (buffer e) = 4 * (8 * 2 ^ m)" using half(3) by (simp add: MIN_CAPACITY_def)
    have "4 * (8 * 2 ^ m) < 4 * (count e + 1)"
      using bound \<open>length (buffer e) \<noteq> MIN_CAPACITY\<close> mult by simp
    then have c: "8 * 2 ^ m \<le> count e" by simp
    have "length (buffer e) div 2 = 2 * (8 * 2 ^ m)" using mult by simp
    also have "\<dots> < 4 * count e" using c pos by linarith
    finally have "length (buffer e) div 2 < 4 * count e" .
    moreover have "compact_deque e = resize (length (buffer e) div 2) e"
      using True nz gt half(2) by (simp add: compact_deque_def max_def)
    ultimately show ?thesis using half(1) by (auto simp: storage_inv_def)
  next
    case False
    then have "compact_deque e = e" using nz by (simp add: compact_deque_def)
    with False len show ?thesis by (auto simp: storage_inv_def)
  qed
qed

lemma popFront_inv:
  assumes "deque_inv d" shows "deque_inv (snd (popFront d))"
proof (cases "count d = 0")
  case True
  with assms show ?thesis by (simp add: popFront_def)
next
  case False
  let ?e = "d\<lparr>buffer := (buffer d)[head d := None],
    head := (if head d + 1 = length (buffer d) then 0 else head d + 1), count := count d - 1\<rparr>"
  obtain k where "length (buffer d) = MIN_CAPACITY * 2 ^ k"
    using assms by (auto simp: deque_inv_def storage_inv_def)
  then have "storage_inv (compact_deque ?e)"
    by (intro compact_storage [of ?e k])
      (use assms False in \<open>auto simp: deque_inv_def storage_inv_def\<close>)
  moreover have "snd (popFront d) = compact_deque ?e" using False by (simp add: popFront_def)
  moreover have "ring_inv (snd (popFront d))"
    using popFront_ring [of d] assms by (simp add: deque_inv_def)
  ultimately show ?thesis by (simp add: deque_inv_def)
qed

lemma empty_deque_ring: "ring_inv (empty_deque :: 'a deque) \<and> items (empty_deque :: 'a deque) = []"
  by (rule ring_invI [where m = MIN_CAPACITY])
    (simp_all add: empty_deque_def ring_def MIN_CAPACITY_def)

lemma empty_deque_inv: "deque_inv empty_deque" "items empty_deque = []"
proof -
  have "length (buffer empty_deque) = MIN_CAPACITY * 2 ^ 0" by (simp add: empty_deque_def)
  then have "storage_inv empty_deque" unfolding storage_inv_def by (metis mult.right_neutral power_0)
  then show "deque_inv empty_deque" by (simp add: deque_inv_def empty_deque_ring)
  show "items empty_deque = []" by (simp add: empty_deque_ring)
qed

lemma clear_deque_eq: "clear_deque d = empty_deque"
  by (simp add: clear_deque_def empty_deque_def)

section \<open>The queue contract\<close>

locale double_queue =
  fixes empty :: "'q"
    and push_back :: "'a \<Rightarrow> 'q \<Rightarrow> 'q"
    and push_front :: "'a \<Rightarrow> 'q \<Rightarrow> 'q"
    and pop_front :: "'q \<Rightarrow> 'a option \<times> 'q"
    and clear :: "'q \<Rightarrow> 'q"
    and size_of :: "'q \<Rightarrow> nat"
    and abs :: "'q \<Rightarrow> 'a list"
    and inv :: "'q \<Rightarrow> bool"
  assumes abs_empty: "abs empty = []" and inv_empty: "inv empty"
    and abs_push_back: "inv q \<Longrightarrow> abs (push_back x q) = abs q @ [x]"
    and inv_push_back: "inv q \<Longrightarrow> inv (push_back x q)"
    and abs_push_front: "inv q \<Longrightarrow> abs (push_front x q) = x # abs q"
    and inv_push_front: "inv q \<Longrightarrow> inv (push_front x q)"
    and abs_pop_front: "inv q \<Longrightarrow> abs (snd (pop_front q)) = tl (abs q)"
    and fst_pop_front: "inv q \<Longrightarrow>
      fst (pop_front q) = (case abs q of [] \<Rightarrow> None | x # _ \<Rightarrow> Some x)"
    and inv_pop_front: "inv q \<Longrightarrow> inv (snd (pop_front q))"
    and abs_clear: "abs (clear q) = []" and inv_clear: "inv (clear q)"
    and size_abs: "inv q \<Longrightarrow> size_of q = length (abs q)"

datatype 'a deque_op = PushBack 'a | PushFront 'a | PopFront | Clear

text \<open>A client's sequence of calls: the entries it removed, and the final queue. \<open>list_op\<close> is what
  each call does to the list of live entries.\<close>

fun list_op :: "'a deque_op \<Rightarrow> 'a list \<Rightarrow> 'a option list \<times> 'a list" where
  "list_op (PushBack x) xs = ([], xs @ [x])"
| "list_op (PushFront x) xs = ([], x # xs)"
| "list_op PopFront xs = ([case xs of [] \<Rightarrow> None | x # _ \<Rightarrow> Some x], tl xs)"
| "list_op Clear xs = ([], [])"

fun apply_deque_op :: "'a deque_op \<Rightarrow> 'a deque \<Rightarrow> 'a option list \<times> 'a deque" where
  "apply_deque_op (PushBack x) d = ([], pushBack x d)"
| "apply_deque_op (PushFront x) d = ([], pushFront x d)"
| "apply_deque_op PopFront d = (let (r, d') = popFront d in ([r], d'))"
| "apply_deque_op Clear d = ([], clear_deque d)"

fun run_ops :: "('op \<Rightarrow> 'q \<Rightarrow> 'r list \<times> 'q) \<Rightarrow> 'op list \<Rightarrow> 'q \<Rightarrow> 'r list \<times> 'q" where
  "run_ops f [] q = ([], q)"
| "run_ops f (c # cs) q =
     (let (r, q') = f c q; (rs, q'') = run_ops f cs q' in (r @ rs, q''))"

context double_queue begin

definition op_of :: "'a deque_op \<Rightarrow> 'q \<Rightarrow> 'a option list \<times> 'q" where
  "op_of c q = (case c of
     PushBack x \<Rightarrow> ([], push_back x q)
   | PushFront x \<Rightarrow> ([], push_front x q)
   | PopFront \<Rightarrow> ([fst (pop_front q)], snd (pop_front q))
   | Clear \<Rightarrow> ([], clear q))"

lemma op_of_simulates:
  "inv q \<Longrightarrow> inv (snd (op_of c q)) \<and> list_op c (abs q) = (fst (op_of c q), abs (snd (op_of c q)))"
  by (cases c) (simp_all add: op_of_def abs_push_back inv_push_back abs_push_front inv_push_front
      abs_pop_front fst_pop_front inv_pop_front abs_clear inv_clear)

lemma run_simulates:
  "inv q \<Longrightarrow> inv (snd (run_ops op_of cs q)) \<and>
     run_ops list_op cs (abs q) = (fst (run_ops op_of cs q), abs (snd (run_ops op_of cs q)))"
proof (induction cs arbitrary: q)
  case (Cons c cs)
  obtain r q' where c: "op_of c q = (r, q')" by fastforce
  have s: "inv q'" "list_op c (abs q) = (r, abs q')" using op_of_simulates [OF Cons.prems, of c] c by auto
  show ?case using Cons.IH [OF s(1)] s(2) c by (auto simp: case_prod_beta Let_def)
qed simp

text \<open>Entries leave in the order in which they were appended, behind those already queued.\<close>

lemma fifo:
  "inv q \<Longrightarrow> abs q = [] \<Longrightarrow>
     fst (run_ops op_of (map PushBack xs @ replicate (length xs) PopFront) q) = map Some xs"
proof -
  have push: "run_ops list_op (map PushBack xs @ cs) ys = run_ops list_op cs (ys @ xs)" for cs ys
    by (induction xs arbitrary: ys) (simp_all add: case_prod_beta Let_def)
  have pop: "run_ops list_op (replicate (length zs) PopFront) (zs :: 'a list) = (map Some zs, [])" for zs
    by (induction zs) simp_all
  assume "inv q" "abs q = []"
  with run_simulates [of q "map PushBack xs @ replicate (length xs) PopFront"] push [of _ "[]"] pop
  show ?thesis by simp
qed

end

interpretation dq: double_queue empty_deque pushBack pushFront popFront clear_deque deque_size items
  deque_inv
  by unfold_locales
    (auto simp: empty_deque_inv pushBack_inv pushFront_inv popFront_inv clear_deque_eq deque_size_def
      length_items pushBack_ring pushFront_ring popFront_ring dest: deque_inv_ring)

lemma apply_deque_op_eq: "apply_deque_op = dq.op_of"
  by (intro ext, rename_tac c q, case_tac c) (simp_all add: dq.op_of_def case_prod_beta Let_def)

text \<open>C40: Every sequence of calls on a fresh deque behaves as the same calls on a plain list do:
  the removed entries are the same, in the same order, and the live entries at the end are the
  same; the array then holds no removed entry and, beyond its initial 16 slots, is smaller than
  four times the number of live entries.\<close>

theorem deque_refines_list:
  "run_ops list_op ops [] =
     (fst (run_ops apply_deque_op ops empty_deque), items (snd (run_ops apply_deque_op ops empty_deque)))
   \<and> ring_inv (snd (run_ops apply_deque_op ops empty_deque))
   \<and> length (buffer (snd (run_ops apply_deque_op ops empty_deque)))
       \<le> max 16 (4 * deque_size (snd (run_ops apply_deque_op ops empty_deque)))"
  using dq.run_simulates [OF empty_deque_inv(1), of ops]
  by (auto simp: apply_deque_op_eq empty_deque_inv deque_inv_def storage_inv_def deque_size_def
      MIN_CAPACITY_def)

end
