(* ===== verification/Js_Value.thy ===== *)
theory Js_Value
  imports Prelude
begin

text \<open>
  The JavaScript values that cross the program's untyped boundaries: durable payloads arrive as
  \<open>unknown\<close> and are decoded by hand. A value is \<open>undefined\<close>, or a JSON value; numbers are
  the finite values (exact rationals), the negative zero, the infinities and NaN. An object is
  the list of its own enumerable properties in insertion order; its keys are distinct.

  Strings are lists of characters with codes below 256, that is UTF-16 code units of Latin-1
  text; \<open>trim\<close> strips the white space and line terminators of that range.
\<close>

section \<open>Numbers\<close>

datatype js_number = Num rat | NegZero | NaN | PosInf | NegInf

definition max_safe_integer :: int where
  "max_safe_integer = 9007199254740991"

text \<open>\<open>Number.isSafeInteger\<close>.\<close>

definition is_safe_integer :: "js_number \<Rightarrow> bool" where
  "is_safe_integer n = (case n of
     Num r \<Rightarrow> of_int \<lfloor>r\<rfloor> = r \<and> \<bar>\<lfloor>r\<rfloor>\<bar> \<le> max_safe_integer
   | NegZero \<Rightarrow> True
   | _ \<Rightarrow> False)"

text \<open>The integer a safe-integer number denotes.\<close>

definition int_of_number :: "js_number \<Rightarrow> int" where
  "int_of_number n = (case n of Num r \<Rightarrow> \<lfloor>r\<rfloor> | _ \<Rightarrow> 0)"

definition js_int :: "int \<Rightarrow> js_number" where
  "js_int i = Num (of_int i)"

definition is_finite :: "js_number \<Rightarrow> bool" where
  "is_finite n = (case n of Num r \<Rightarrow> True | NegZero \<Rightarrow> True | _ \<Rightarrow> False)"

definition rat_of_number :: "js_number \<Rightarrow> rat" where
  "rat_of_number n = (case n of Num r \<Rightarrow> r | _ \<Rightarrow> 0)"

text \<open>Strict equality of numbers: the two zeros are equal and NaN differs from itself.\<close>

fun number_eq :: "js_number \<Rightarrow> js_number \<Rightarrow> bool" where
  "number_eq NaN _ = False"
| "number_eq _ NaN = False"
| "number_eq NegZero y = (y = NegZero \<or> y = Num 0)"
| "number_eq x NegZero = (x = Num 0)"
| "number_eq x y = (x = y)"

definition safe_int :: "int \<Rightarrow> bool" where
  "safe_int i \<longleftrightarrow> \<bar>i\<bar> \<le> max_safe_integer"

lemma is_safe_integer_js_int [simp]: "is_safe_integer (js_int i) = safe_int i"
  by (simp add: is_safe_integer_def js_int_def safe_int_def)

lemma is_safe_int_of: "is_safe_integer n \<Longrightarrow> safe_int (int_of_number n)"
  by (auto simp: is_safe_integer_def int_of_number_def safe_int_def max_safe_integer_def split: js_number.splits)

lemma int_of_js_int [simp]: "int_of_number (js_int i) = i"
  by (simp add: int_of_number_def js_int_def)

lemma js_int_inject [simp]: "js_int i = js_int j \<longleftrightarrow> i = j"
  by (simp add: js_int_def)

lemma is_finite_js_int [simp]: "is_finite (js_int i)"
  by (simp add: is_finite_def js_int_def)

lemma number_eq_js_int [simp]: "number_eq (js_int i) (js_int j) \<longleftrightarrow> i = j"
  by (simp add: js_int_def)

lemma js_int_distinct [simp]:
  "js_int i \<noteq> NaN" "js_int i \<noteq> NegZero" "js_int i \<noteq> PosInf" "js_int i \<noteq> NegInf"
  by (simp_all add: js_int_def)

section \<open>Values\<close>

datatype jsval =
    JUndef
  | JNull
  | JBool bool
  | JNum js_number
  | JStr string
  | JArr "jsval list"
  | JObj "(string \<times> jsval) list"

text \<open>Property read \<open>value[key]\<close>: \<open>undefined\<close> when the property is absent.\<close>

fun get :: "jsval \<Rightarrow> string \<Rightarrow> jsval" where
  "get (JObj fs) k = (case map_of fs k of None \<Rightarrow> JUndef | Some v \<Rightarrow> v)"
| "get _ k = JUndef"

text \<open>\<open>isRecord\<close>: an object that is neither null nor an array.\<close>

fun isRecord :: "jsval \<Rightarrow> bool" where
  "isRecord (JObj fs) = True"
| "isRecord _ = False"

fun keys :: "jsval \<Rightarrow> string list" where
  "keys (JObj fs) = map fst fs"
| "keys _ = []"

text \<open>\<open>xs.join(',')\<close>.\<close>

fun join_comma :: "string list \<Rightarrow> string" where
  "join_comma [] = []"
| "join_comma [x] = x"
| "join_comma (x # xs) = x @ CHR '','' # join_comma xs"

text \<open>\<open>Object.keys(value).sort().join(',')\<close>: the sort is by code units.\<close>

definition sorted_keys :: "jsval \<Rightarrow> string" where
  "sorted_keys v = join_comma (sort (keys v))"

section \<open>Strings\<close>

text \<open>White space and line terminators below code 256: TAB, LF, VT, FF, CR, SP and NBSP.\<close>

definition is_space :: "char \<Rightarrow> bool" where
  "is_space c = (of_char c \<in> {9, 10, 11, 12, 13, 32, 160 :: nat})"

definition trim :: "string \<Rightarrow> string" where
  "trim s = rev (dropWhile is_space (rev (dropWhile is_space s)))"

lemma dropWhile_id: "(xs = [] \<or> \<not> p (hd xs)) \<Longrightarrow> dropWhile p xs = xs"
  by (cases xs) auto

lemma hd_dropWhile_not: "dropWhile p xs \<noteq> [] \<Longrightarrow> \<not> p (hd (dropWhile p xs))"
  by (induction xs) auto

lemma trim_trim [simp]: "trim (trim s) = trim s"
proof (cases "trim s = []")
  case True
  have "trim [] = []" by (simp add: trim_def)
  with True show ?thesis by simp
next
  case False
  define a where "a = dropWhile is_space s"
  define b where "b = dropWhile is_space (rev a)"
  have t: "trim s = rev b" by (simp add: trim_def a_def b_def)
  from False t have bne: "b \<noteq> []" by simp
  obtain pre where pre: "rev a = pre @ b"
    unfolding b_def by (metis takeWhile_dropWhile_id)
  from pre have "a = rev b @ rev pre" by (metis rev_append rev_rev_ident)
  with bne have "hd (rev b) = hd a" and ane: "a \<noteq> []" by simp_all
  then have "\<not> is_space (hd (rev b))"
    using ane hd_dropWhile_not [of is_space s] by (simp add: a_def)
  then have 1: "dropWhile is_space (rev b) = rev b" by (simp add: dropWhile_id)
  have "\<not> is_space (hd b)" using bne hd_dropWhile_not [of is_space "rev a"] by (simp add: b_def)
  then have 2: "dropWhile is_space b = b" by (simp add: dropWhile_id)
  show ?thesis unfolding t by (simp add: trim_def [of "rev b"] 1 2)
qed

text \<open>\<open>/^[a-z][a-z0-9]*(?:-[a-z0-9]+)*$/\<close>.\<close>

definition is_lower :: "char \<Rightarrow> bool" where
  "is_lower c = (97 \<le> (of_char c :: nat) \<and> (of_char c :: nat) \<le> 122)"

definition is_digit :: "char \<Rightarrow> bool" where
  "is_digit c = (48 \<le> (of_char c :: nat) \<and> (of_char c :: nat) \<le> 57)"

fun kebab_tail :: "bool \<Rightarrow> string \<Rightarrow> bool" where
  "kebab_tail afterChar [] = afterChar"
| "kebab_tail afterChar (c # cs) =
     (if c = CHR ''-'' then afterChar \<and> kebab_tail False cs
      else (is_lower c \<or> is_digit c) \<and> kebab_tail True cs)"

fun is_kebab :: "string \<Rightarrow> bool" where
  "is_kebab [] = False"
| "is_kebab (c # cs) = (is_lower c \<and> kebab_tail True cs)"

text \<open>The decimal form that string interpolation gives a non-negative integer.\<close>

definition digit_char :: "nat \<Rightarrow> char" where
  "digit_char d = char_of (48 + d)"

fun nat_string :: "nat \<Rightarrow> string" where
  "nat_string n = (if n < 10 then [digit_char n] else nat_string (n div 10) @ [digit_char (n mod 10)])"

declare nat_string.simps [simp del]

lemma digit_char_inject: "m < 10 \<Longrightarrow> n < 10 \<Longrightarrow> digit_char m = digit_char n \<Longrightarrow> m = n"
  unfolding digit_char_def by (drule arg_cong [where f = "of_char :: char \<Rightarrow> nat"]) simp

lemma nat_string_nonempty [simp]: "nat_string n \<noteq> []"
  by (subst nat_string.simps) simp

lemma nat_string_inject: "nat_string m = nat_string n \<Longrightarrow> m = n"
proof (induction m arbitrary: n rule: less_induct)
  case (less m)
  note eq = less.prems [unfolded nat_string.simps [of m] nat_string.simps [of n]]
  show ?case
  proof (cases "m < 10")
    case True
    moreover from this eq have "n < 10" by (cases "n < 10") (auto dest: sym [of "[]"])
    ultimately show ?thesis using eq digit_char_inject by auto
  next
    case False
    with eq have n: "\<not> n < 10" by (cases "n < 10") auto
    with False eq have "nat_string (m div 10) = nat_string (n div 10)"
      "digit_char (m mod 10) = digit_char (n mod 10)" by auto
    then have "m div 10 = n div 10" "m mod 10 = n mod 10"
      using less.IH [of "m div 10"] False digit_char_inject by auto
    then show ?thesis by (metis div_mod_decomp)
  qed
qed

section \<open>Deep equality\<close>

text \<open>\<open>isDeepEqualJson\<close> of the surface fold: strict equality on primitives, element-wise on
  arrays, and on objects the same number of own keys, each key of the left object owned by the
  right one with a deeply equal value.\<close>

fun deep_eq :: "jsval \<Rightarrow> jsval \<Rightarrow> bool"
  and deep_eq_list :: "jsval list \<Rightarrow> jsval list \<Rightarrow> bool"
  and deep_eq_fields :: "(string \<times> jsval) list \<Rightarrow> (string \<times> jsval) list \<Rightarrow> bool" where
  "deep_eq (JArr xs) b = (case b of JArr ys \<Rightarrow> length xs = length ys \<and> deep_eq_list xs ys | _ \<Rightarrow> False)"
| "deep_eq (JObj fs) b =
     (case b of JObj gs \<Rightarrow> length fs = length gs \<and> deep_eq_fields fs gs | _ \<Rightarrow> False)"
| "deep_eq (JNum x) b = (case b of JNum y \<Rightarrow> number_eq x y | _ \<Rightarrow> False)"
| "deep_eq JUndef b = (b = JUndef)"
| "deep_eq JNull b = (b = JNull)"
| "deep_eq (JBool x) b = (b = JBool x)"
| "deep_eq (JStr x) b = (b = JStr x)"
| "deep_eq_list [] ys = True"
| "deep_eq_list (x # xs) ys = (case ys of [] \<Rightarrow> False | y # ys' \<Rightarrow> deep_eq x y \<and> deep_eq_list xs ys')"
| "deep_eq_fields [] gs = True"
| "deep_eq_fields ((k, v) # fs) gs =
     ((case map_of gs k of None \<Rightarrow> False | Some w \<Rightarrow> deep_eq v w) \<and> deep_eq_fields fs gs)"

text \<open>Own keys of every object in the value are distinct, as they are for any JavaScript object, and
  no number is NaN, as in any JSON text.\<close>

fun json_wf :: "jsval \<Rightarrow> bool"
  and json_wf_list :: "jsval list \<Rightarrow> bool"
  and json_wf_fields :: "(string \<times> jsval) list \<Rightarrow> bool" where
  "json_wf (JArr xs) = json_wf_list xs"
| "json_wf (JObj fs) = (distinct (map fst fs) \<and> json_wf_fields fs)"
| "json_wf (JNum x) = (x \<noteq> NaN)"
| "json_wf JUndef = True"
| "json_wf JNull = True"
| "json_wf (JBool x) = True"
| "json_wf (JStr x) = True"
| "json_wf_list [] = True"
| "json_wf_list (x # xs) = (json_wf x \<and> json_wf_list xs)"
| "json_wf_fields [] = True"
| "json_wf_fields ((k, v) # fs) = (json_wf v \<and> json_wf_fields fs)"

lemma number_eq_refl: "x \<noteq> NaN \<Longrightarrow> number_eq x x"
  by (cases x) simp_all

lemma deep_eq_refl_aux:
  "json_wf v \<Longrightarrow> deep_eq v v"
  "json_wf_list xs \<Longrightarrow> deep_eq_list xs xs"
  "json_wf_fields fs \<Longrightarrow>
     (\<forall>gs. (\<forall>k w. (k, w) \<in> set fs \<longrightarrow> map_of gs k = Some w) \<longrightarrow> deep_eq_fields fs gs)"
  by (induction v and xs and fs rule: json_wf_json_wf_list_json_wf_fields.induct)
    (auto simp: number_eq_refl)

lemma deep_eq_refl: "json_wf v \<Longrightarrow> deep_eq v v"
  by (rule deep_eq_refl_aux)

end
