(* ===== verification/Session_Log.thy ===== *)
theory Session_Log
  imports Js_Value
begin

text \<open>
  The session event log, the single durable source of truth of an agent session
  (\<^verbatim>\<open>packages/core/session/src/types.ts\<close>). Every other component of the development is a fold
  over this log, a validator of it, or a writer to it.

  An event carries its sequence number, its time and a payload. Payload fields that no modelled
  component reads (stream records, token usage, tool arguments) are left out. The two surface
  fields, and the payloads that their owners decode as \<open>unknown\<close>, are untyped values, so that the
  decoders are modelled on everything that a log file can hold.
\<close>

section \<open>Messages\<close>

text \<open>Assistant content: tool-call blocks, with their call id, and all other blocks.\<close>

datatype content_block = ToolCallBlock string | OtherBlock jsval

text \<open>\<open>MessageSource\<close>: the goal source is validated field by field by its owner.\<close>

datatype message_source =
    SrcUser
  | SrcPlugin string
  | SrcGoal jsval jsval jsval  \<comment> \<open>goalId, revision, round\<close>
  | SrcOther string

record user_message =
  um_id :: string
  um_source :: message_source
  um_content :: jsval

text \<open>The payload of \<open>tool/result\<close>: turn, step, the message with its single result block, and
  the optional error and metadata.\<close>

record tool_result =
  tr_turn :: int
  tr_step :: int
  tr_messageId :: string
  tr_callId :: string               \<comment> \<open>\<open>message.source.callId\<close>\<close>
  tr_toolCallId :: string           \<comment> \<open>\<open>message.content[0].toolCallId\<close>\<close>
  tr_isError :: "bool option"       \<comment> \<open>\<open>message.content[0].isError\<close>\<close>
  tr_content :: jsval               \<comment> \<open>\<open>message.content[0].content\<close>\<close>
  tr_error :: "(string \<times> string) option"  \<comment> \<open>\<open>error.name\<close> and \<open>error.code\<close>\<close>
  tr_meta :: "jsval option"

section \<open>Payloads\<close>

datatype turn_end_reason =
    Completed | Aborted | Blocked | ErrorEnd | MaxTokens | Interrupted | OtherReason string

datatype inbox_target = NextTurn | NextStep

text \<open>\<open>agent/inbox/spliced\<close>: \<open>outcome\<close> is absent or \<open>'canceled'\<close>.\<close>

record inbox_splice =
  sp_target :: inbox_target
  sp_start :: js_number
  sp_removedCount :: "js_number option"
  sp_inserted :: "user_message list"
  sp_canceled :: bool

text \<open>\<open>llm/retry\<close>: every field is read as an unknown value by its validator.\<close>

record llm_retry =
  lr_retryId :: jsval
  lr_turn :: jsval
  lr_step :: jsval
  lr_provider :: jsval
  lr_mode :: jsval
  lr_policyKey :: jsval
  lr_retry :: jsval
  lr_maxRetries :: jsval            \<comment> \<open>\<open>undefined\<close> when the property is absent\<close>
  lr_delayMs :: jsval
  lr_failure :: jsval

record llm_retry_started =
  ls_retryId :: jsval
  ls_turn :: jsval
  ls_step :: jsval
  ls_retry :: jsval

datatype event_data =
    TurnStart int
  | TurnEnd int turn_end_reason
  | StepStart int int
  | StepEnd int int
  | UserMessage user_message
  | AssistantMessage int int "content_block list"
  | AssistantAttempt int int
  | ToolCall int int string
  | ToolResult tool_result
  | RequestHeader string            \<comment> \<open>\<open>header.config.provider\<close>\<close>
  | RequestContext
  | EndSeed
  | InboxSpliced inbox_splice
  | GoalChange jsval
  | TodoWrite jsval
  | LlmRetry llm_retry
  | LlmRetryStarted llm_retry_started
  | ScheduleChange jsval
  | OtherEvent string

record session_event =
  ev_seq :: nat
  ev_time :: int
  ev_data :: event_data
  ev_surfaceOp :: jsval             \<comment> \<open>\<open>undefined\<close> when absent\<close>
  ev_sources :: jsval               \<comment> \<open>\<open>sourceEventSeqs\<close>\<close>

text \<open>An event that carries neither surface field.\<close>

definition log_event :: "nat \<Rightarrow> int \<Rightarrow> event_data \<Rightarrow> session_event" where
  "log_event s t d =
     \<lparr>ev_seq = s, ev_time = t, ev_data = d, ev_surfaceOp = JUndef, ev_sources = JUndef\<rparr>"

lemma log_event_sel [simp]:
  "ev_seq (log_event s t d) = s" "ev_time (log_event s t d) = t" "ev_data (log_event s t d) = d"
  "ev_surfaceOp (log_event s t d) = JUndef" "ev_sources (log_event s t d) = JUndef"
  by (simp_all add: log_event_def)

text \<open>The call ids of the tool-call blocks, in order.\<close>

fun tool_call_ids :: "content_block list \<Rightarrow> string list" where
  "tool_call_ids [] = []"
| "tool_call_ids (ToolCallBlock i # bs) = i # tool_call_ids bs"
| "tool_call_ids (OtherBlock v # bs) = tool_call_ids bs"

text \<open>A log is contiguous when the events are numbered from its base.\<close>

definition contiguous :: "nat \<Rightarrow> session_event list \<Rightarrow> bool" where
  "contiguous base es = (\<forall>i < length es. ev_seq (es ! i) = base + i)"

end
