(* ===== verification/Surface.thy ===== *)
theory Surface
  imports Session_Log "HOL-Library.Multiset"
begin

text \<open>
  The surface fold of \<^verbatim>\<open>packages/core/session/src/surface.ts\<close>: the ordered view of the
  message-producing events of a log. An event appends itself to the view or replaces a range of it.
  \<open>planSurfaceEvent\<close> validates an event without changing the state, \<open>applySurfacePlan\<close> commits the
  plan; \<open>foldSurface\<close> replays a log, and \<open>SurfaceManager\<close> (the record \<open>manager\<close>) maintains the view
  incrementally, validating the next candidate before it enters the log.
\<close>

section \<open>Events and projection\<close>

definition is_surface_data :: "event_data \<Rightarrow> bool" where
  "is_surface_data d = (case d of
     UserMessage m \<Rightarrow> True | AssistantMessage t s c \<Rightarrow> True | ToolResult r \<Rightarrow> True | _ \<Rightarrow> False)"

definition isSurfaceEvent :: "session_event \<Rightarrow> bool" where
  "isSurfaceEvent e = (is_surface_data (ev_data e) \<and> ev_surfaceOp e \<noteq> JUndef)"

definition isAppendSurfaceEvent :: "session_event \<Rightarrow> bool" where
  "isAppendSurfaceEvent e = (isSurfaceEvent e \<and> ev_surfaceOp e = JStr ''append'')"

definition isReplacementSurfaceEvent :: "session_event \<Rightarrow> bool" where
  "isReplacementSurfaceEvent e = (isSurfaceEvent e \<and> ev_surfaceOp e \<noteq> JStr ''append'')"

datatype message = MsgUser user_message | MsgAssistant "content_block list" | MsgToolResult tool_result

definition deriveEventMessage :: "session_event \<Rightarrow> message option" where
  "deriveEventMessage e = (case ev_data e of
     UserMessage m \<Rightarrow> Some (MsgUser m)
   | AssistantMessage t s content \<Rightarrow> (if content = [] then None else Some (MsgAssistant content))
   | ToolResult r \<Rightarrow> Some (MsgToolResult r)
   | _ \<Rightarrow> None)"

section \<open>Errors and plans\<close>

datatype surface_error =
    NotContiguous nat nat
  | IneligibleOp | IneligibleSources | MissingOp | InvalidOp | InvalidReplaceOp
  | AssistantSources | SourcesNotArray | SourcesEmpty | SourcesNotSeqs
  | SourcesDuplicate | SourcesNotEarlier nat nat | SourcesMissing "nat list"
  | StartNotFound nat | EndNotFound nat | StartAfterEnd nat nat
  | RewriteNotSingle | RewriteNotResult | RewriteNotContentOnly

datatype surface_op = OpAppend | OpReplace nat nat

record fold_state =
  nodes :: "nat list"
  replaceGeneration :: nat

record replacement =
  rp_seq :: nat
  rp_start :: nat
  rp_end :: nat
  rp_shadowed :: "nat list"

datatype surface_plan = PlanAppend nat | PlanReplace replacement nat nat  \<comment> \<open>startIdx, endIdx\<close>

definition createFoldState :: fold_state where
  "createFoldState = \<lparr>nodes = [], replaceGeneration = 0\<rparr>"

section \<open>Validation of one event\<close>

text \<open>\<open>isEventSeq\<close>: a non-negative safe integer other than negative zero.\<close>

definition isEventSeq :: "jsval \<Rightarrow> bool" where
  "isEventSeq v = (case v of
     JNum n \<Rightarrow> is_safe_integer n \<and> 0 \<le> int_of_number n \<and> n \<noteq> NegZero | _ \<Rightarrow> False)"

definition seq_of :: "jsval \<Rightarrow> nat" where
  "seq_of v = (case v of JNum n \<Rightarrow> nat (int_of_number n) | _ \<Rightarrow> 0)"

definition isReplaceOp :: "jsval \<Rightarrow> bool" where
  "isReplaceOp op \<longleftrightarrow> length (keys op) = 3
     \<and> ''op'' \<in> set (keys op) \<and> ''start'' \<in> set (keys op) \<and> ''end'' \<in> set (keys op)
     \<and> get op ''op'' = JStr ''replace''
     \<and> isEventSeq (get op ''start'') \<and> isEventSeq (get op ''end'')"

definition surfaceOpOf :: "session_event \<Rightarrow> surface_error + surface_op option" where
  "surfaceOpOf e =
     (if \<not> is_surface_data (ev_data e) then
        if ev_surfaceOp e \<noteq> JUndef then Inl IneligibleOp
        else if ev_sources e \<noteq> JUndef then Inl IneligibleSources
        else Inr None
      else if ev_surfaceOp e = JUndef then Inl MissingOp
      else if ev_surfaceOp e = JStr ''append'' then Inr (Some OpAppend)
      else if \<not> isRecord (ev_surfaceOp e) then Inl InvalidOp
      else if \<not> isReplaceOp (ev_surfaceOp e) then Inl InvalidReplaceOp
      else Inr (Some (OpReplace (seq_of (get (ev_surfaceOp e) ''start''))
                                (seq_of (get (ev_surfaceOp e) ''end'')))))"

text \<open>The loop over the cited sequences stops at the first value that is no sequence.\<close>

fun collect_sources :: "jsval list \<Rightarrow> surface_error + nat list" where
  "collect_sources [] = Inr []"
| "collect_sources (v # vs) =
     (if \<not> isEventSeq v then Inl SourcesNotSeqs
      else bind_res (collect_sources vs) (\<lambda>ss. Inr (seq_of v # ss)))"

definition checked_sources :: "session_event \<Rightarrow> surface_error + nat list" where
  "checked_sources e =
     (if (case ev_data e of AssistantMessage t s c \<Rightarrow> True | _ \<Rightarrow> False) \<and> ev_sources e \<noteq> JUndef
      then Inl AssistantSources
      else case ev_sources e of
          JUndef \<Rightarrow> Inr []
        | JArr vs \<Rightarrow>
            (if vs = [] then Inl SourcesEmpty
             else bind_res (collect_sources vs) (\<lambda>ss.
               if \<not> distinct ss then Inl SourcesDuplicate
               else case find (\<lambda>s. s \<ge> ev_seq e) ss of
                   Some s \<Rightarrow> Inl (SourcesNotEarlier s (ev_seq e))
                 | None \<Rightarrow> Inr ss))
        | _ \<Rightarrow> Inl SourcesNotArray)"

definition assertProvenance :: "session_event \<Rightarrow> nat list \<Rightarrow> surface_error + unit" where
  "assertProvenance e shadowed = bind_res (checked_sources e) (\<lambda>sources.
     let missing = filter (\<lambda>s. s \<notin> set sources) shadowed in
     if missing \<noteq> [] then Inl (SourcesMissing missing) else Inr ())"

definition replacementRange :: "fold_state \<Rightarrow> nat \<Rightarrow> nat \<Rightarrow> surface_error + (nat \<times> nat \<times> nat list)" where
  "replacementRange st start end =
     (case indexOf (nodes st) start of
        None \<Rightarrow> Inl (StartNotFound start)
      | Some startIdx \<Rightarrow>
         (case indexOf (nodes st) end of
            None \<Rightarrow> Inl (EndNotFound end)
          | Some endIdx \<Rightarrow>
             (if startIdx > endIdx then Inl (StartAfterEnd start end)
              else Inr (startIdx, endIdx, slice (nodes st) startIdx (endIdx + 1)))))"

text \<open>The payload of a tool result with the content of its block set to null.\<close>

definition optional :: "string \<Rightarrow> jsval option \<Rightarrow> (string \<times> jsval) list" where
  "optional k v = (case v of None \<Rightarrow> [] | Some x \<Rightarrow> [(k, x)])"

definition rest_of_result :: "tool_result \<Rightarrow> jsval" where
  "rest_of_result r = JObj
     ([(''turn'', JNum (js_int (tr_turn r))),
       (''step'', JNum (js_int (tr_step r))),
       (''message'', JObj
          [(''id'', JStr (tr_messageId r)),
           (''role'', JStr ''user''),
           (''source'', JObj [(''kind'', JStr ''tool''), (''callId'', JStr (tr_callId r))]),
           (''content'', JArr [JObj
              ([(''type'', JStr ''tool-result''), (''toolCallId'', JStr (tr_toolCallId r))]
               @ optional ''isError'' (map_option JBool (tr_isError r))
               @ [(''content'', JNull)])])])]
      @ optional ''error'' (map_option (\<lambda>(n, c). JObj [(''name'', JStr n), (''code'', JStr c)]) (tr_error r))
      @ optional ''meta'' (tr_meta r))"

definition event_at :: "session_event list \<Rightarrow> nat \<Rightarrow> nat \<Rightarrow> session_event option" where
  "event_at events baseSeq s =
     (if baseSeq \<le> s \<and> s - baseSeq < length events then Some (events ! (s - baseSeq)) else None)"

definition assertToolResultRewrite ::
    "session_event \<Rightarrow> nat list \<Rightarrow> session_event list \<Rightarrow> nat \<Rightarrow> surface_error + unit" where
  "assertToolResultRewrite e shadowed events baseSeq = (case ev_data e of
     ToolResult new \<Rightarrow>
       (case shadowed of
          [originalSeq] \<Rightarrow>
            (case map_option ev_data (event_at events baseSeq originalSeq) of
               Some (ToolResult original) \<Rightarrow>
                 (if deep_eq (rest_of_result original) (rest_of_result new) then Inr ()
                  else Inl RewriteNotContentOnly)
             | _ \<Rightarrow> Inl RewriteNotResult)
        | _ \<Rightarrow> Inl RewriteNotSingle)
   | _ \<Rightarrow> Inr ())"

definition planSurfaceEvent ::
    "fold_state \<Rightarrow> session_event \<Rightarrow> nat \<Rightarrow> session_event list \<Rightarrow> nat
     \<Rightarrow> surface_error + surface_plan option" where
  "planSurfaceEvent st e expectedSeq events baseSeq =
     (if ev_seq e \<noteq> expectedSeq then Inl (NotContiguous (ev_seq e) expectedSeq)
      else bind_res (surfaceOpOf e) (\<lambda>op. case op of
          None \<Rightarrow> Inr None
        | Some OpAppend \<Rightarrow>
            bind_res (assertProvenance e []) (\<lambda>_. Inr (Some (PlanAppend (ev_seq e))))
        | Some (OpReplace start end) \<Rightarrow>
            bind_res (replacementRange st start end) (\<lambda>(startIdx, endIdx, shadowed).
            bind_res (assertProvenance e shadowed) (\<lambda>_.
            bind_res (assertToolResultRewrite e shadowed events baseSeq) (\<lambda>_.
              Inr (Some (PlanReplace
                \<lparr>rp_seq = ev_seq e, rp_start = start, rp_end = end, rp_shadowed = shadowed\<rparr>
                startIdx endIdx)))))))"

section \<open>Committing a plan and replaying a log\<close>

fun applySurfacePlan :: "fold_state \<Rightarrow> surface_plan option \<Rightarrow> fold_state \<times> replacement option" where
  "applySurfacePlan st None = (st, None)"
| "applySurfacePlan st (Some (PlanAppend s)) = (st\<lparr>nodes := nodes st @ [s]\<rparr>, None)"
| "applySurfacePlan st (Some (PlanReplace r startIdx endIdx)) =
     (st\<lparr>nodes := toSpliced (nodes st) startIdx (endIdx - startIdx + 1) [rp_seq r],
         replaceGeneration := replaceGeneration st + 1\<rparr>, Some r)"

definition applySurfaceEvent ::
    "fold_state \<Rightarrow> session_event \<Rightarrow> nat \<Rightarrow> session_event list \<Rightarrow> nat
     \<Rightarrow> surface_error + (fold_state \<times> replacement option)" where
  "applySurfaceEvent st e expectedSeq events baseSeq =
     bind_res (planSurfaceEvent st e expectedSeq events baseSeq)
       (\<lambda>plan. Inr (applySurfacePlan st plan))"

text \<open>One iteration of the replay loop: the event at \<open>index\<close> of a window that starts at \<open>baseSeq\<close>.\<close>

definition fold_index ::
    "session_event list \<Rightarrow> nat \<Rightarrow> fold_state \<times> replacement list \<Rightarrow> nat
     \<Rightarrow> surface_error + (fold_state \<times> replacement list)" where
  "fold_index events baseSeq acc index =
     bind_res (applySurfaceEvent (fst acc) (events ! index) (baseSeq + index) events baseSeq)
       (\<lambda>(st, r). Inr (st, snd acc @ (case r of None \<Rightarrow> [] | Some x \<Rightarrow> [x])))"

definition fold_window :: "session_event list \<Rightarrow> nat \<Rightarrow> surface_error + (fold_state \<times> replacement list)" where
  "fold_window events baseSeq =
     fold_res (fold_index events baseSeq) (createFoldState, []) [0..<length events]"

definition foldSurface :: "session_event list \<Rightarrow> surface_error + (nat list \<times> replacement list)" where
  "foldSurface events = bind_res (fold_window events 0) (\<lambda>(st, rs). Inr (nodes st, rs))"

section \<open>The incremental manager\<close>

record pending_plan =
  pp_event :: session_event
  pp_expectedSeq :: nat
  pp_plan :: "surface_plan option"

record manager =
  mg_state :: fold_state
  mg_lastProcessedSeq :: int
  mg_pendingPlan :: "pending_plan option"

definition new_manager :: "nat \<Rightarrow> manager" where
  "new_manager baseSeq =
     \<lparr>mg_state = createFoldState, mg_lastProcessedSeq = int baseSeq - 1, mg_pendingPlan = None\<rparr>"

text \<open>One iteration of \<open>_processDelta\<close>. A throw leaves the manager as the previous iteration left it.\<close>

definition process_index ::
    "session_event list \<Rightarrow> nat \<Rightarrow> manager \<Rightarrow> nat \<Rightarrow> surface_error + manager" where
  "process_index events baseSeq m index =
     (let s = baseSeq + index; event = events ! index;
          next = (case mg_pendingPlan m of
              Some p \<Rightarrow> (if pp_event p = event \<and> pp_expectedSeq p = s
                        then Inr (fst (applySurfacePlan (mg_state m) (pp_plan p)))
                        else bind_res (applySurfaceEvent (mg_state m) event s events baseSeq) (\<lambda>x. Inr (fst x)))
            | None \<Rightarrow> bind_res (applySurfaceEvent (mg_state m) event s events baseSeq) (\<lambda>x. Inr (fst x)))
      in bind_res next (\<lambda>st. Inr
           \<lparr>mg_state = st, mg_lastProcessedSeq = int s,
            mg_pendingPlan = (case mg_pendingPlan m of
               Some p \<Rightarrow> (if pp_expectedSeq p \<le> s then None else Some p) | None \<Rightarrow> None)\<rparr>))"

text \<open>The loop keeps the progress it made before a throw: the manager is returned with the error.\<close>

fun process_indices ::
    "session_event list \<Rightarrow> nat \<Rightarrow> manager \<Rightarrow> nat list \<Rightarrow> manager \<times> surface_error option" where
  "process_indices events baseSeq m [] = (m, None)"
| "process_indices events baseSeq m (i # is) = (case process_index events baseSeq m i of
     Inl err \<Rightarrow> (m, Some err) | Inr m' \<Rightarrow> process_indices events baseSeq m' is)"

text \<open>The guard of each access, and \<open>_processDelta\<close> from the first unprocessed event.\<close>

definition synced :: "session_event list \<Rightarrow> nat \<Rightarrow> manager \<Rightarrow> manager \<times> surface_error option" where
  "synced events baseSeq m =
     (if mg_lastProcessedSeq m < int baseSeq + int (length events) - 1
      then process_indices events baseSeq m [nat (mg_lastProcessedSeq m + 1 - int baseSeq)..<length events]
      else (m, None))"

definition validateNext ::
    "session_event list \<Rightarrow> nat \<Rightarrow> session_event \<Rightarrow> manager \<Rightarrow> manager \<times> surface_error option" where
  "validateNext events baseSeq e m =
     (case synced events baseSeq m of
        (m', Some err) \<Rightarrow> (m', Some err)
      | (m', None) \<Rightarrow>
          (let expectedSeq = baseSeq + length events in
           case planSurfaceEvent (mg_state m') e expectedSeq events baseSeq of
             Inl err \<Rightarrow> (m', Some err)
           | Inr plan \<Rightarrow> (m'\<lparr>mg_pendingPlan := Some
               \<lparr>pp_event = e, pp_expectedSeq = expectedSeq, pp_plan = plan\<rparr>\<rparr>, None)))"

definition manager_nodes ::
    "session_event list \<Rightarrow> nat \<Rightarrow> manager \<Rightarrow> manager \<times> (surface_error + nat list)" where
  "manager_nodes events baseSeq m = (case synced events baseSeq m of
     (m', Some err) \<Rightarrow> (m', Inl err) | (m', None) \<Rightarrow> (m', Inr (nodes (mg_state m'))))"

definition manager_replaceGeneration ::
    "session_event list \<Rightarrow> nat \<Rightarrow> manager \<Rightarrow> manager \<times> (surface_error + nat)" where
  "manager_replaceGeneration events baseSeq m = (case synced events baseSeq m of
     (m', Some err) \<Rightarrow> (m', Inl err) | (m', None) \<Rightarrow> (m', Inr (replaceGeneration (mg_state m'))))"

section \<open>One transition\<close>

lemma indexOf_Some: "indexOf xs a = Some i \<Longrightarrow> i < length xs \<and> xs ! i = a"
  unfolding indexOf_def by (drule findIndex_Some) auto

lemma planSurfaceEvent_cases:
  assumes "planSurfaceEvent st e s events b = Inr plan"
  obtains
    (none) "plan = None" "\<not> is_surface_data (ev_data e)" "ev_seq e = s" "ev_surfaceOp e = JUndef"
      "ev_sources e = JUndef"
  | (append) "plan = Some (PlanAppend s)" "is_surface_data (ev_data e)" "ev_seq e = s"
      "ev_surfaceOp e = JStr ''append''" "assertProvenance e [] = Inr ()"
  | (replace) start stop si ei where
      "plan = Some (PlanReplace \<lparr>rp_seq = s, rp_start = start, rp_end = stop,
         rp_shadowed = slice (nodes st) si (ei + 1)\<rparr> si ei)"
      "is_surface_data (ev_data e)" "ev_seq e = s" "isRecord (ev_surfaceOp e)"
      "si \<le> ei" "ei < length (nodes st)" "nodes st ! si = start" "nodes st ! ei = stop"
      "assertProvenance e (slice (nodes st) si (ei + 1)) = Inr ()"
      "assertToolResultRewrite e (slice (nodes st) si (ei + 1)) events b = Inr ()"
  using assms unfolding planSurfaceEvent_def surfaceOpOf_def replacementRange_def
  by (auto simp: res_simps split: if_splits option.splits surface_op.splits prod.splits
      dest!: indexOf_Some)

text \<open>A plan reads the log only at the current nodes, so events beyond them do not matter.\<close>

definition in_window :: "nat \<Rightarrow> nat \<Rightarrow> nat list \<Rightarrow> bool" where
  "in_window b k ns \<longleftrightarrow> (\<forall>n \<in> set ns. b \<le> n \<and> n < b + k)"

lemma event_at_take:
  "b \<le> n \<Longrightarrow> n < b + k \<Longrightarrow> k \<le> length events \<Longrightarrow> event_at (take k events) b n = event_at events b n"
  by (auto simp: event_at_def)

lemma set_slice: "set (slice xs i j) \<subseteq> set xs"
  by (auto simp: slice_def dest: in_set_takeD in_set_dropD)

lemma rewrite_take:
  assumes "in_window b k shadowed" "k \<le> length events"
  shows "assertToolResultRewrite e shadowed (take k events) b = assertToolResultRewrite e shadowed events b"
  using assms
  by (auto simp: assertToolResultRewrite_def in_window_def event_at_take
      split: event_data.split list.split)

lemma plan_take:
  assumes "in_window b k (nodes st)" "k \<le> length events"
  shows "planSurfaceEvent st e s (take k events) b = planSurfaceEvent st e s events b"
proof -
  have "replacementRange st x y = Inr (i, j, sh) \<Longrightarrow> in_window b k sh" for x y i j sh
    using assms(1) set_slice [of "nodes st"] unfolding replacementRange_def in_window_def
    by (fastforce split: option.splits if_splits)
  then have "bind_res (replacementRange st x y) (\<lambda>(i, j, sh). bind_res (assertProvenance e sh) (\<lambda>_.
        bind_res (assertToolResultRewrite e sh (take k events) b) (g i j sh))) =
      bind_res (replacementRange st x y) (\<lambda>(i, j, sh). bind_res (assertProvenance e sh) (\<lambda>_.
        bind_res (assertToolResultRewrite e sh events b) (g i j sh)))" for x y g
    by (cases "replacementRange st x y") (auto simp: rewrite_take [OF _ assms(2)])
  then show ?thesis
    unfolding planSurfaceEvent_def by (cases "surfaceOpOf e") (auto split: option.split surface_op.split)
qed

text \<open>What a transition does to the view: the nodes it removes are the ones it shadows.\<close>

lemma splice_shadow:
  assumes "si \<le> ei" "ei < length ns"
  shows "mset (toSpliced ns si (ei - si + 1) [n]) + mset (slice ns si (ei + 1)) = mset ns + {#n#}"
proof -
  have "ns = take si ns @ slice ns si (si + (ei - si + 1)) @ drop (si + (ei - si + 1)) ns"
    by (rule slice_parts) (use assms in simp)
  then have "mset ns = mset (take si ns) + mset (slice ns si (ei + 1)) + mset (drop (ei + 1) ns)"
    using assms by (metis Nat.add_diff_assoc add.assoc add_diff_cancel_left' mset_append)
  then show ?thesis using assms by (simp add: toSpliced_def ac_simps)
qed

section \<open>The replay accounts for every message\<close>

text \<open>The sequences of the surface-eligible events among the first \<open>k\<close> of a window.\<close>

definition surface_seqs :: "session_event list \<Rightarrow> nat \<Rightarrow> nat \<Rightarrow> nat list" where
  "surface_seqs events b k =
     map (\<lambda>i. b + i) (filter (\<lambda>i. is_surface_data (ev_data (events ! i))) [0..<k])"

definition shadowed_seqs :: "replacement list \<Rightarrow> nat list" where
  "shadowed_seqs rs = concat (map rp_shadowed rs)"

definition replay_inv :: "session_event list \<Rightarrow> nat \<Rightarrow> nat \<Rightarrow> fold_state \<times> replacement list \<Rightarrow> bool" where
  "replay_inv events b k acc \<longleftrightarrow>
     mset (nodes (fst acc)) + mset (shadowed_seqs (snd acc)) = mset (surface_seqs events b k) \<and>
     replaceGeneration (fst acc) = length (snd acc)"

lemma surface_seqs_Suc:
  "surface_seqs events b (Suc k) =
     surface_seqs events b k @ (if is_surface_data (ev_data (events ! k)) then [b + k] else [])"
  by (simp add: surface_seqs_def)

lemma distinct_surface_seqs: "distinct (surface_seqs events b k)"
  by (simp add: surface_seqs_def distinct_map inj_on_def)

lemma replay_inv_window:
  assumes "replay_inv events b k acc" shows "in_window b k (nodes (fst acc))"
proof -
  have "set (nodes (fst acc)) \<subseteq> set (surface_seqs events b k)"
    using assms unfolding replay_inv_def
    by (metis mset_subset_eq_add_left set_mset_mono set_mset_mset)
  then show ?thesis by (fastforce simp: in_window_def surface_seqs_def)
qed

lemma replay_inv_step:
  assumes "replay_inv events b k acc" "fold_index events b acc k = Inr acc'"
  shows "replay_inv events b (Suc k) acc'"
proof -
  obtain st rs where acc: "acc = (st, rs)" by fastforce
  from assms(2) obtain plan where
    plan: "planSurfaceEvent st (events ! k) (b + k) events b = Inr plan" and
    acc': "acc' = (fst (applySurfacePlan st plan),
        rs @ (case snd (applySurfacePlan st plan) of None \<Rightarrow> [] | Some r \<Rightarrow> [r]))"
    by (auto simp: fold_index_def applySurfaceEvent_def acc res_simps case_prod_beta)
  from plan show ?thesis
  proof (cases rule: planSurfaceEvent_cases)
    case none
    with assms acc acc' show ?thesis by (simp add: replay_inv_def surface_seqs_Suc)
  next
    case append
    with assms acc acc' show ?thesis by (simp add: replay_inv_def surface_seqs_Suc)
  next
    case (replace start stop si ei)
    note sh = splice_shadow [OF replace(5,6), of "b + k"]
    have "mset (nodes (fst acc')) + mset (shadowed_seqs (snd acc')) =
        mset (toSpliced (nodes st) si (ei - si + 1) [b + k]) + mset (slice (nodes st) si (ei + 1))
        + mset (shadowed_seqs rs)"
      using replace(1) acc' by (simp add: shadowed_seqs_def ac_simps)
    also have "\<dots> = mset (nodes st) + mset (shadowed_seqs rs) + {#b + k#}"
      unfolding sh by (simp add: ac_simps)
    also have "\<dots> = mset (surface_seqs events b (Suc k))"
      using assms(1) acc replace(2) by (simp add: replay_inv_def surface_seqs_Suc)
    finally show ?thesis using assms(1) acc acc' replace(1) by (simp add: replay_inv_def)
  qed
qed

lemma replay_inv_init: "replay_inv events b 0 (createFoldState, [])"
  by (simp add: replay_inv_def createFoldState_def surface_seqs_def shadowed_seqs_def)

lemma replay_inv_prefix:
  "fold_res (fold_index events b) (createFoldState, []) [0..<k] = Inr acc \<Longrightarrow> replay_inv events b k acc"
proof (induction k arbitrary: acc)
  case 0
  then show ?case using replay_inv_init by auto
next
  case (Suc k)
  then obtain acc0 where "fold_res (fold_index events b) (createFoldState, []) [0..<k] = Inr acc0"
    "fold_index events b acc0 k = Inr acc"
    by (auto simp: fold_res_snoc res_simps)
  then show ?case using replay_inv_step Suc.IH by blast
qed

text \<open>C1: Replaying a log loses and duplicates no message: the sequences of the message-producing
  events are, each exactly once, either in the resulting surface or among the sequences that the
  recorded replacements shadowed. In particular the surface has no duplicates.\<close>

theorem foldSurface_accounts:
  assumes "foldSurface events = Inr (ns, rs)"
  shows "mset ns + mset (concat (map rp_shadowed rs)) = mset (surface_seqs events 0 (length events))
    \<and> distinct ns \<and> set ns \<inter> set (concat (map rp_shadowed rs)) = {}"
proof -
  obtain st where "fold_window events 0 = Inr (st, rs)" and ns: "ns = nodes st"
    using assms by (auto simp: foldSurface_def res_simps)
  then have "replay_inv events 0 (length events) (st, rs)"
    unfolding fold_window_def by (intro replay_inv_prefix)
  then have m: "mset ns + mset (shadowed_seqs rs) = mset (surface_seqs events 0 (length events))"
    by (simp add: replay_inv_def ns)
  then have "mset (ns @ shadowed_seqs rs) = mset (surface_seqs events 0 (length events))" by simp
  then have "distinct (ns @ shadowed_seqs rs)"
    using distinct_surface_seqs by (metis mset_eq_imp_distinct_iff)
  with m show ?thesis by (auto simp: shadowed_seqs_def)
qed

text \<open>A sample log: two results are appended, the first is rewritten in place, and a summary replaces
  both.\<close>

definition sample_result :: "string \<Rightarrow> string \<Rightarrow> tool_result" where
  "sample_result callId body = \<lparr>tr_turn = 1, tr_step = 1, tr_messageId = ''m'', tr_callId = callId,
     tr_toolCallId = callId, tr_isError = None, tr_content = JStr body, tr_error = None,
     tr_meta = None\<rparr>"

definition sample_replace :: "nat \<Rightarrow> nat \<Rightarrow> nat list \<Rightarrow> nat \<Rightarrow> event_data \<Rightarrow> session_event" where
  "sample_replace start stop sources s d = \<lparr>ev_seq = s, ev_time = 0, ev_data = d,
     ev_surfaceOp = JObj [(''op'', JStr ''replace''), (''start'', JNum (Num (of_nat start))),
       (''end'', JNum (Num (of_nat stop)))],
     ev_sources = JArr (map (\<lambda>q. JNum (Num (of_nat q))) sources)\<rparr>"

definition sample_append :: "nat \<Rightarrow> event_data \<Rightarrow> session_event" where
  "sample_append s d = (log_event s 0 d)\<lparr>ev_surfaceOp := JStr ''append''\<rparr>"

definition sample_log :: "session_event list" where
  "sample_log =
     [sample_append 0 (ToolResult (sample_result ''a'' ''long'')),
      sample_append 1 (ToolResult (sample_result ''b'' ''text'')),
      sample_replace 0 0 [0] 2 (ToolResult (sample_result ''a'' ''short'')),
      sample_replace 2 1 [2, 1] 3
        (UserMessage \<lparr>um_id = ''s'', um_source = SrcPlugin ''compaction'', um_content = JStr ''sum''\<rparr>)]"

lemma sample_log_folds:
  "foldSurface sample_log = Inr ([3],
     [\<lparr>rp_seq = 2, rp_start = 0, rp_end = 0, rp_shadowed = [0]\<rparr>,
      \<lparr>rp_seq = 3, rp_start = 2, rp_end = 1, rp_shadowed = [2, 1]\<rparr>])"
  by code_simp

theorem foldSurface_accounts_witness:
  "\<exists>ns rs. foldSurface sample_log = Inr (ns, rs) \<and> rs \<noteq> [] \<and> distinct ns"
  using foldSurface_accounts [OF sample_log_folds] sample_log_folds by auto

section \<open>Tool results keep their identity\<close>

text \<open>Everything of a tool result but the content of its block.\<close>

definition same_but_content :: "tool_result \<Rightarrow> tool_result \<Rightarrow> bool" where
  "same_but_content a b \<longleftrightarrow> tr_turn a = tr_turn b \<and> tr_step a = tr_step b
     \<and> tr_messageId a = tr_messageId b \<and> tr_callId a = tr_callId b
     \<and> tr_toolCallId a = tr_toolCallId b \<and> tr_isError a = tr_isError b \<and> tr_error a = tr_error b"

lemma deep_eq_fields_in: "deep_eq_fields fs gs \<Longrightarrow> (k, v) \<in> set fs \<Longrightarrow> \<exists>w. map_of gs k = Some w \<and> deep_eq v w"
  by (induction fs) (auto split: option.splits)

lemma deep_eq_field:
  assumes "deep_eq (JObj fs) (JObj gs)" "map_of fs k = Some v"
  shows "\<exists>w. map_of gs k = Some w \<and> deep_eq v w"
  using deep_eq_fields_in [of fs gs k v] map_of_SomeD [OF assms(2)] assms(1) by simp

text \<open>Optional fields: a present one is present on the other side, and the counts agree.\<close>

definition result_block :: "tool_result \<Rightarrow> (string \<times> jsval) list" where
  "result_block r = [(''type'', JStr ''tool-result''), (''toolCallId'', JStr (tr_toolCallId r))]
     @ optional ''isError'' (map_option JBool (tr_isError r)) @ [(''content'', JNull)]"

lemma deep_eq_block:
  assumes "deep_eq (JObj (result_block a)) (JObj (result_block b))"
  shows "tr_toolCallId a = tr_toolCallId b \<and> tr_isError a = tr_isError b"
proof -
  note f = deep_eq_field [OF assms]
  have "tr_toolCallId a = tr_toolCallId b" using f [of "''toolCallId''"] by (simp add: result_block_def)
  moreover have "length (result_block a) = length (result_block b)" using assms by simp
  then have "tr_isError a = None \<longleftrightarrow> tr_isError b = None"
    by (auto simp: result_block_def optional_def split: option.splits)
  moreover have "tr_isError a = Some e \<Longrightarrow> tr_isError b = Some e" for e
    using f [of "''isError''"] by (auto simp: result_block_def optional_def split: option.splits)
  ultimately show ?thesis by (cases "tr_isError a") auto
qed

definition result_message :: "tool_result \<Rightarrow> (string \<times> jsval) list" where
  "result_message r = [(''id'', JStr (tr_messageId r)), (''role'', JStr ''user''),
     (''source'', JObj [(''kind'', JStr ''tool''), (''callId'', JStr (tr_callId r))]),
     (''content'', JArr [JObj (result_block r)])]"

lemma deep_eq_message:
  assumes "deep_eq (JObj (result_message a)) (JObj (result_message b))"
  shows "tr_messageId a = tr_messageId b \<and> tr_callId a = tr_callId b
    \<and> tr_toolCallId a = tr_toolCallId b \<and> tr_isError a = tr_isError b"
proof -
  note f = deep_eq_field [OF assms]
  have "tr_messageId a = tr_messageId b" using f [of "''id''"] by (simp add: result_message_def)
  moreover have "tr_callId a = tr_callId b" using f [of "''source''"] by (simp add: result_message_def)
  moreover have "deep_eq (JObj (result_block a)) (JObj (result_block b))"
    using f [of "''content''"] by (simp add: result_message_def del: deep_eq.simps(2))
  ultimately show ?thesis using deep_eq_block by blast
qed

definition result_fields :: "tool_result \<Rightarrow> (string \<times> jsval) list" where
  "result_fields r = [(''turn'', JNum (js_int (tr_turn r))), (''step'', JNum (js_int (tr_step r))),
       (''message'', JObj (result_message r))]
     @ optional ''error'' (map_option (\<lambda>(n, c). JObj [(''name'', JStr n), (''code'', JStr c)]) (tr_error r))
     @ optional ''meta'' (tr_meta r)"

lemma rest_of_result_fields: "rest_of_result r = JObj (result_fields r)"
  by (simp add: rest_of_result_def result_fields_def result_message_def result_block_def)

lemma deep_eq_rest:
  assumes "deep_eq (rest_of_result a) (rest_of_result b)"
  shows "same_but_content a b"
proof -
  note eq = assms [unfolded rest_of_result_fields]
  note f = deep_eq_field [OF eq]
  have "tr_turn a = tr_turn b" using f [of "''turn''"] by (simp add: result_fields_def)
  moreover have "tr_step a = tr_step b" using f [of "''step''"] by (simp add: result_fields_def)
  moreover have "deep_eq (JObj (result_message a)) (JObj (result_message b))"
    using f [of "''message''"] by (simp add: result_fields_def del: deep_eq.simps(2))
  moreover have "tr_error a = tr_error b"
  proof -
    have "length (result_fields a) = length (result_fields b)" using eq by simp
    moreover have "tr_meta a \<noteq> None \<Longrightarrow> tr_meta b \<noteq> None"
      using f [of "''meta''"]
      by (cases "tr_error a"; cases "tr_error b"; cases "tr_meta b") (auto simp: result_fields_def optional_def)
    moreover have "tr_error a = Some e \<Longrightarrow> tr_error b = Some e" for e
      using f [of "''error''"] by (cases e) (auto simp: result_fields_def optional_def split: option.splits)
    ultimately show ?thesis
      by (cases "tr_error a") (auto simp: result_fields_def optional_def split: option.splits)
  qed
  ultimately show ?thesis using deep_eq_message by (simp add: same_but_content_def)
qed

text \<open>A tool result that replaces surface nodes replaces exactly one node, which is an earlier
  tool result of the log, and agrees with it on turn, step, message id, call id, error flag and
  error: only content (and metadata that is deeply equal anyway) may differ.\<close>

lemma tool_result_replacement_keeps_identity:
  assumes "planSurfaceEvent st e s events b = Inr (Some (PlanReplace r si ei))"
    and "ev_data e = ToolResult new"
  shows "\<exists>n original. rp_shadowed r = [n] \<and> n \<in> set (nodes st)
    \<and> event_at events b n = Some original
    \<and> (\<exists>old. ev_data original = ToolResult old \<and> same_but_content old new)"
  using assms(1)
proof (cases rule: planSurfaceEvent_cases)
  case (replace start stop si' ei')
  let ?sh = "slice (nodes st) si (ei + 1)"
  have r: "rp_shadowed r = ?sh" and rw: "assertToolResultRewrite e ?sh events b = Inr ()"
    using replace by auto
  from rw assms(2) obtain n original old where "?sh = [n]" "event_at events b n = Some original"
    "ev_data original = ToolResult old" "deep_eq (rest_of_result old) (rest_of_result new)"
    by (auto simp: assertToolResultRewrite_def split: list.splits option.splits event_data.splits if_splits)
  moreover from this(1) have "n \<in> set (nodes st)" using set_slice [of "nodes st" si "ei + 1"] by auto
  ultimately show ?thesis using r deep_eq_rest by metis
qed auto

section \<open>The incremental view is the replay\<close>

definition fold_prefix ::
    "session_event list \<Rightarrow> nat \<Rightarrow> nat \<Rightarrow> surface_error + (fold_state \<times> replacement list)" where
  "fold_prefix events b k = fold_res (fold_index events b) (createFoldState, []) [0..<k]"

lemma fold_prefix_0: "fold_prefix events b 0 = Inr (createFoldState, [])"
  by (simp add: fold_prefix_def)

lemma fold_prefix_Suc:
  "fold_prefix events b (Suc k) = bind_res (fold_prefix events b k) (\<lambda>acc. fold_index events b acc k)"
  by (simp add: fold_prefix_def fold_res_snoc)

lemma fold_prefix_window: "fold_window events b = fold_prefix events b (length events)"
  by (simp add: fold_prefix_def fold_window_def)

lemma fold_prefix_inv: "fold_prefix events b k = Inr acc \<Longrightarrow> replay_inv events b k acc"
  unfolding fold_prefix_def by (rule replay_inv_prefix)

lemma plan_extend:
  assumes "in_window b k (nodes st)" "k \<le> length events"
  shows "planSurfaceEvent st e s (events @ xs) b = planSurfaceEvent st e s events b"
  using plan_take [OF assms] plan_take [OF assms(1), of "events @ xs"] assms(2) by simp

lemma fold_prefix_extend:
  "k \<le> length events \<Longrightarrow> fold_prefix (events @ xs) b k = fold_prefix events b k"
proof (induction k)
  case (Suc k)
  then have IH: "fold_prefix (events @ xs) b k = fold_prefix events b k" by simp
  show ?case
  proof (cases "fold_prefix events b k")
    case (Inr acc)
    have "in_window b k (nodes (fst acc))" using fold_prefix_inv [OF Inr] by (rule replay_inv_window)
    then have "planSurfaceEvent (fst acc) e s (events @ xs) b = planSurfaceEvent (fst acc) e s events b"
      for e s by (rule plan_extend) (use Suc.prems in simp)
    then have "fold_index (events @ xs) b acc k = fold_index events b acc k"
      using Suc.prems by (simp add: fold_index_def applySurfaceEvent_def nth_append)
    with Inr IH show ?thesis by (simp add: fold_prefix_Suc)
  qed (simp add: fold_prefix_Suc IH)
qed (simp add: fold_prefix_0)

text \<open>After \<open>k\<close> processed events the manager holds the replay of those events, and a pending plan is
  the plan that the replay would compute for its event as the next one.\<close>

definition manager_at :: "session_event list \<Rightarrow> nat \<Rightarrow> nat \<Rightarrow> manager \<Rightarrow> bool" where
  "manager_at events b k m \<longleftrightarrow> k \<le> length events \<and> mg_lastProcessedSeq m = int b + int k - 1
     \<and> (\<exists>rs. fold_prefix events b k = Inr (mg_state m, rs))
     \<and> (\<forall>p. mg_pendingPlan m = Some p \<longrightarrow> pp_expectedSeq p = b + k
          \<and> planSurfaceEvent (mg_state m) (pp_event p) (b + k) events b = Inr (pp_plan p))"

definition manager_inv :: "session_event list \<Rightarrow> nat \<Rightarrow> manager \<Rightarrow> bool" where
  "manager_inv events b m \<longleftrightarrow> (\<exists>k. manager_at events b k m)"

lemma manager_at_window:
  "manager_at events b k m \<Longrightarrow> in_window b k (nodes (mg_state m))"
  unfolding manager_at_def using fold_prefix_inv replay_inv_window by fastforce

lemma manager_at_extend: "manager_at events b k m \<Longrightarrow> manager_at (events @ xs) b k m"
  using manager_at_window [of events b k m]
  by (auto simp: manager_at_def fold_prefix_extend plan_extend)

lemma process_index_step:
  assumes "manager_at events b k m" "k < length events"
  shows "case fold_prefix events b (Suc k) of
      Inl err \<Rightarrow> process_index events b m k = Inl err
    | Inr acc \<Rightarrow> \<exists>m'. process_index events b m k = Inr m' \<and> manager_at events b (Suc k) m'"
proof -
  from assms(1) obtain rs where pre: "fold_prefix events b k = Inr (mg_state m, rs)"
    and pend: "\<And>p. mg_pendingPlan m = Some p \<Longrightarrow> pp_expectedSeq p = b + k \<and>
      planSurfaceEvent (mg_state m) (pp_event p) (b + k) events b = Inr (pp_plan p)"
    by (auto simp: manager_at_def)
  have next_state: "process_index events b m k =
      bind_res (applySurfaceEvent (mg_state m) (events ! k) (b + k) events b)
        (\<lambda>x. Inr \<lparr>mg_state = fst x, mg_lastProcessedSeq = int (b + k), mg_pendingPlan = None\<rparr>)"
    using pend
    by (cases "mg_pendingPlan m") (auto simp: process_index_def applySurfaceEvent_def Let_def bind_res_assoc)
  show ?thesis
  proof (cases "applySurfaceEvent (mg_state m) (events ! k) (b + k) events b")
    case (Inl err)
    with pre next_state show ?thesis by (simp add: fold_prefix_Suc fold_index_def)
  next
    case (Inr x)
    obtain st' r where x: "x = (st', r)" by fastforce
    from Inr x pre have "\<exists>rs'. fold_prefix events b (Suc k) = Inr (st', rs')"
      by (simp add: fold_prefix_Suc fold_index_def)
    moreover from this Inr x assms(2) next_state have
      "process_index events b m k =
        Inr \<lparr>mg_state = st', mg_lastProcessedSeq = int (b + k), mg_pendingPlan = None\<rparr>"
      by simp
    ultimately show ?thesis using assms(2) by (auto simp: manager_at_def)
  qed
qed

definition replayed_nodes :: "session_event list \<Rightarrow> nat \<Rightarrow> surface_error + nat list" where
  "replayed_nodes events b = bind_res (fold_window events b) (\<lambda>(st, rs). Inr (nodes st))"

lemma process_indices_replay:
  assumes "manager_at events b k m"
  shows "case process_indices events b m [k..<length events] of
      (m', None) \<Rightarrow> manager_at events b (length events) m'
    | (m', Some err) \<Rightarrow> manager_inv events b m' \<and> fold_window events b = Inl err"
  using assms
proof (induction "length events - k" arbitrary: k m)
  case 0
  then have "k = length events" by (simp add: manager_at_def)
  with 0 show ?case by simp
next
  case (Suc n)
  then have k: "k < length events" by simp
  note step = process_index_step [OF Suc.prems k]
  show ?case
  proof (cases "fold_prefix events b (Suc k)")
    case (Inl err)
    have "fold_prefix events b j = Inl err" if "Suc k \<le> j" for j
      using that
    proof (induction j rule: nat_induct_at_least)
      case (Suc j)
      then show ?case by (subst fold_prefix_Suc) simp
    qed (rule Inl)
    then have "fold_window events b = Inl err" using k by (simp add: fold_prefix_window)
    with Inl step k Suc.prems show ?thesis by (auto simp: upt_conv_Cons manager_inv_def)
  next
    case (Inr acc)
    with step obtain m' where "process_index events b m k = Inr m'" "manager_at events b (Suc k) m'"
      by auto
    with Suc k show ?thesis by (simp add: upt_conv_Cons)
  qed
qed

lemma synced_replay:
  assumes "manager_inv events b m"
  shows "case synced events b m of
      (m', None) \<Rightarrow> manager_at events b (length events) m'
    | (m', Some err) \<Rightarrow> manager_inv events b m' \<and> fold_window events b = Inl err"
proof -
  obtain k where k: "manager_at events b k m" using assms by (auto simp: manager_inv_def)
  then have last: "mg_lastProcessedSeq m = int b + int k - 1" and le: "k \<le> length events"
    by (auto simp: manager_at_def)
  show ?thesis
  proof (cases "k < length events")
    case True
    have "nat (mg_lastProcessedSeq m + 1 - int b) = k" using last by simp
    with True last process_indices_replay [OF k] show ?thesis by (simp add: synced_def)
  next
    case False
    with le k last show ?thesis by (simp add: synced_def)
  qed
qed

lemma manager_nodes_replay:
  assumes "manager_inv events b m"
  shows "snd (manager_nodes events b m) = replayed_nodes events b
    \<and> manager_inv events b (fst (manager_nodes events b m))"
  using synced_replay [OF assms]
  by (auto simp: manager_nodes_def replayed_nodes_def manager_at_def manager_inv_def
      fold_prefix_window split: prod.splits option.splits)

lemma validateNext_inv:
  assumes "manager_inv events b m"
  shows "manager_inv events b (fst (validateNext events b e m))"
  using synced_replay [OF assms]
  by (auto simp: validateNext_def manager_inv_def manager_at_def Let_def
      split: prod.splits option.splits sum.splits)

text \<open>A session drives the manager by any interleaving of validations, admissions to the log (of the
  validated event or another), and reads.\<close>

datatype surface_call = Validate session_event | Admit session_event | ReadNodes

fun apply_surface_call ::
    "nat \<Rightarrow> session_event list \<times> manager \<Rightarrow> surface_call \<Rightarrow> session_event list \<times> manager" where
  "apply_surface_call b (events, m) (Validate e) = (events, fst (validateNext events b e m))"
| "apply_surface_call b (events, m) (Admit e) = (events @ [e], m)"
| "apply_surface_call b (events, m) ReadNodes = (events, fst (manager_nodes events b m))"

lemma manager_inv_extend: "manager_inv events b m \<Longrightarrow> manager_inv (events @ xs) b m"
  unfolding manager_inv_def by (blast intro: manager_at_extend)

lemma apply_surface_call_inv:
  "manager_inv (fst s) b (snd s) \<Longrightarrow>
     manager_inv (fst (apply_surface_call b s c)) b (snd (apply_surface_call b s c))"
  by (cases s; cases c) (simp_all add: validateNext_inv manager_nodes_replay manager_inv_extend)

text \<open>C2: The incrementally maintained surface is the replayed one: after any interleaving of
  validations, admissions and reads from a fresh manager, a read of the nodes returns exactly what
  replaying the whole log window returns, error included.\<close>

theorem manager_refines_replay:
  "case foldl (apply_surface_call b) ([], new_manager b) calls of
     (events, m) \<Rightarrow> snd (manager_nodes events b m) = replayed_nodes events b"
proof -
  have run: "manager_inv (fst s) b (snd s) \<Longrightarrow>
      manager_inv (fst (foldl (apply_surface_call b) s calls)) b
        (snd (foldl (apply_surface_call b) s calls))" for s
    by (induction calls arbitrary: s) (simp_all add: apply_surface_call_inv)
  have "manager_inv [] b (new_manager b)"
    by (auto simp: manager_inv_def manager_at_def new_manager_def fold_prefix_0)
  with run [of "([], new_manager b)"] show ?thesis by (simp add: case_prod_beta manager_nodes_replay)
qed

section \<open>Extending a replayed log\<close>

lemma fold_window_snoc:
  "fold_window (es @ [e]) b =
     bind_res (fold_window es b) (\<lambda>acc. fold_index (es @ [e]) b acc (length es))"
  by (simp add: fold_prefix_window fold_prefix_Suc fold_prefix_extend)

lemma foldSurface_snoc_append:
  assumes "foldSurface es = Inr (ns, rs)" "ev_seq e = length es" "is_surface_data (ev_data e)"
    "ev_surfaceOp e = JStr ''append''" "assertProvenance e [] = Inr ()"
  shows "foldSurface (es @ [e]) = Inr (ns @ [length es], rs)"
  using assms
  by (auto simp: foldSurface_def fold_window_snoc fold_index_def applySurfaceEvent_def
      planSurfaceEvent_def surfaceOpOf_def res_simps)

lemma foldSurface_snoc_log:
  assumes "foldSurface es = Inr (ns, rs)" "\<not> is_surface_data d"
  shows "foldSurface (es @ [log_event (length es) t d]) = Inr (ns, rs)"
  using assms
  by (auto simp: foldSurface_def fold_window_snoc fold_index_def applySurfaceEvent_def
      planSurfaceEvent_def surfaceOpOf_def res_simps)

lemma fold_prefix_seqs:
  "fold_prefix events b k = Inr acc \<Longrightarrow> i < k \<Longrightarrow> ev_seq (events ! i) = b + i"
proof (induction k arbitrary: acc)
  case (Suc k)
  then obtain acc0 where acc0: "fold_prefix events b k = Inr acc0" "fold_index events b acc0 k = Inr acc"
    by (auto simp: fold_prefix_Suc res_simps)
  show ?case
  proof (cases "i = k")
    case True
    with acc0(2) show ?thesis
      by (auto simp: fold_index_def applySurfaceEvent_def planSurfaceEvent_def res_simps split: if_splits)
  qed (use Suc acc0(1) in auto)
qed simp

lemma foldSurface_contiguous: "foldSurface events = Inr r \<Longrightarrow> contiguous 0 events"
  by (auto simp: foldSurface_def contiguous_def fold_prefix_window res_simps dest: fold_prefix_seqs)

end
