(* ===== verification/Tool_Pairing.thy ===== *)
theory Tool_Pairing
  imports Surface
begin

text \<open>
  Tool-pairing balance over the surface, \<^verbatim>\<open>packages/compaction/compaction/src/tool-pairing.ts\<close>.
  Compaction may cut the surface only where no tool call is left without its result. The balance of
  every cut is kept in a cache per surface generation, which is extended when nodes were appended and
  rebuilt when the surface was rewritten. The theorems show that the cache is never observable, and
  what a positive answer means.
\<close>

section \<open>The balance cache\<close>

record balance_cache =
  generation :: nat
  cutBalanced :: "bool list"
  indexBySeq :: "nat \<Rightarrow> nat option"
  inProgressToolCalls :: int

datatype pairing_error = CorruptNode nat | UnmatchedResult nat | NodeNotFound nat

definition eventDelta :: "session_event \<Rightarrow> int" where
  "eventDelta e = (case ev_data e of
     AssistantMessage turn step content \<Rightarrow> int (length (tool_call_ids content))
   | ToolResult r \<Rightarrow> -1
   | _ \<Rightarrow> 0)"

text \<open>The validation loop over the unseen tail: the new cuts and the calls in progress.\<close>

fun scan_tail ::
    "(nat \<Rightarrow> session_event option) \<Rightarrow> int \<Rightarrow> nat list \<Rightarrow> pairing_error + (bool list \<times> int)" where
  "scan_tail eventAt inProgress [] = Inr ([], inProgress)"
| "scan_tail eventAt inProgress (s # ss) = (case eventAt s of
     None \<Rightarrow> Inl (CorruptNode s)
   | Some e \<Rightarrow>
      (if ev_seq e \<noteq> s then Inl (CorruptNode s)
       else let n = inProgress + eventDelta e in
         if n < 0 then Inl (UnmatchedResult s)
         else bind_res (scan_tail eventAt n ss) (\<lambda>(cuts, final). Inr ((n = 0) # cuts, final))))"

text \<open>\<open>tail.forEach((seq, offset) => indexBySeq.set(seq, processed + offset))\<close>.\<close>

fun index_tail :: "nat \<Rightarrow> nat list \<Rightarrow> (nat \<Rightarrow> nat option) \<Rightarrow> (nat \<Rightarrow> nat option)" where
  "index_tail i [] m = m"
| "index_tail i (s # ss) m = index_tail (i + 1) ss (m(s := Some i))"

definition extendCache ::
    "(nat \<Rightarrow> session_event option) \<Rightarrow> balance_cache \<Rightarrow> nat list \<Rightarrow> pairing_error + balance_cache" where
  "extendCache eventAt cache seqs =
     (let processed = length (cutBalanced cache) - 1; tail = drop processed seqs in
      bind_res (scan_tail eventAt (inProgressToolCalls cache) tail) (\<lambda>(pendingCuts, inProgress).
        Inr \<lparr>generation = generation cache, cutBalanced = cutBalanced cache @ pendingCuts,
             indexBySeq = index_tail processed tail (indexBySeq cache),
             inProgressToolCalls = inProgress\<rparr>))"

definition empty_cache :: "nat \<Rightarrow> balance_cache" where
  "empty_cache gen = \<lparr>generation = gen, cutBalanced = [True], indexBySeq = (\<lambda>_. None),
     inProgressToolCalls = 0\<rparr>"

text \<open>\<open>balanceCache\<close>: the cache stored for the session is a parameter, the one to store a result. A
  cache that is extended is mutated in place, so it is the stored one afterwards.\<close>

definition balanceCache ::
    "(nat \<Rightarrow> session_event option) \<Rightarrow> fold_state \<Rightarrow> balance_cache option \<Rightarrow> pairing_error + balance_cache"
  where
  "balanceCache eventAt surface cached = (let seqs = nodes surface; gen = replaceGeneration surface in
     case cached of
       None \<Rightarrow> extendCache eventAt (empty_cache gen) seqs
     | Some c \<Rightarrow>
         (if generation c \<noteq> gen \<or> length (cutBalanced c) - 1 > length seqs
          then extendCache eventAt (empty_cache gen) seqs
          else if length (cutBalanced c) - 1 < length seqs then extendCache eventAt c seqs
          else Inr c))"

definition cutBalance :: "balance_cache \<Rightarrow> nat \<Rightarrow> nat \<Rightarrow> pairing_error + bool" where
  "cutBalance cache s offset = (case indexBySeq cache s of
     None \<Rightarrow> Inl (NodeNotFound s)
   | Some index \<Rightarrow>
      (if index + offset < length (cutBalanced cache) then Inr (cutBalanced cache ! (index + offset))
       else Inl (NodeNotFound s)))"

definition toolPairingBalancedBefore ::
    "(nat \<Rightarrow> session_event option) \<Rightarrow> fold_state \<Rightarrow> balance_cache option \<Rightarrow> nat \<Rightarrow> pairing_error + bool" where
  "toolPairingBalancedBefore eventAt surface cached s =
     bind_res (balanceCache eventAt surface cached) (\<lambda>c. cutBalance c s 0)"

definition toolPairingBalancedAfter ::
    "(nat \<Rightarrow> session_event option) \<Rightarrow> fold_state \<Rightarrow> balance_cache option \<Rightarrow> nat \<Rightarrow> pairing_error + bool" where
  "toolPairingBalancedAfter eventAt surface cached s =
     bind_res (balanceCache eventAt surface cached) (\<lambda>c. cutBalance c s 1)"

section \<open>Extending is rebuilding\<close>

lemma scan_tail_append:
  "scan_tail ev n (xs @ ys) = bind_res (scan_tail ev n xs) (\<lambda>(cs, m).
     bind_res (scan_tail ev m ys) (\<lambda>(ds, k). Inr (cs @ ds, k)))"
proof (induction xs arbitrary: n)
  case Nil
  show ?case by (cases "scan_tail ev n ys") auto
next
  case (Cons x xs)
  show ?case
    by (auto simp: Let_def Cons.IH bind_res_assoc case_prod_beta split: option.split)
qed

lemma scan_tail_length: "scan_tail ev n xs = Inr (cs, m) \<Longrightarrow> length cs = length xs"
  by (induction xs arbitrary: n cs) (auto simp: Let_def res_simps split: option.splits if_splits)

lemma scan_tail_mono:
  assumes "ev \<subseteq>\<^sub>m ev'" "scan_tail ev n xs = Inr r"
  shows "scan_tail ev' n xs = Inr r"
  using assms(2)
proof (induction xs arbitrary: n r)
  case (Cons x xs)
  then obtain e where e: "ev x = Some e" by (cases "ev x") auto
  then have "ev' x = Some e" using assms(1) by (metis domI map_le_def)
  with e Cons show ?case
    by (auto simp: Let_def res_simps split: if_splits)
qed simp

lemma index_tail_append: "index_tail i (xs @ ys) m = index_tail (i + length xs) ys (index_tail i xs m)"
  by (induction xs arbitrary: i m) simp_all

lemma empty_cache_extends:
  "extendCache ev (empty_cache g) xs = Inr c \<longleftrightarrow>
     (\<exists>cuts n. scan_tail ev 0 xs = Inr (cuts, n) \<and> c = \<lparr>generation = g, cutBalanced = True # cuts,
        indexBySeq = index_tail 0 xs (\<lambda>_. None), inProgressToolCalls = n\<rparr>)"
  by (auto simp: extendCache_def empty_cache_def res_simps)

lemma extendCache_resume:
  assumes "extendCache ev (empty_cache g) xs = Inr c"
  shows "extendCache ev c (xs @ ys) = extendCache ev (empty_cache g) (xs @ ys)"
    and "length (cutBalanced c) - 1 = length xs" and "generation c = g"
proof -
  from assms obtain cuts n where sc: "scan_tail ev 0 xs = Inr (cuts, n)" and
    c: "c = \<lparr>generation = g, cutBalanced = True # cuts,
        indexBySeq = index_tail 0 xs (\<lambda>_. None), inProgressToolCalls = n\<rparr>"
    by (auto simp: empty_cache_extends)
  have len: "length cuts = length xs" by (rule scan_tail_length [OF sc])
  show "extendCache ev c (xs @ ys) = extendCache ev (empty_cache g) (xs @ ys)"
    by (simp add: extendCache_def empty_cache_def c len scan_tail_append sc index_tail_append
        bind_res_assoc case_prod_beta)
  show "length (cutBalanced c) - 1 = length xs" "generation c = g" using c len by simp_all
qed

text \<open>The stored cache is absent, of an older generation, or the cache of a prefix of the nodes.\<close>

definition cache_inv :: "(nat \<Rightarrow> session_event option) \<Rightarrow> fold_state \<Rightarrow> balance_cache option \<Rightarrow> bool" where
  "cache_inv ev st cached \<longleftrightarrow> (\<forall>c. cached = Some c \<longrightarrow> generation c \<le> replaceGeneration st \<and>
     (generation c = replaceGeneration st \<longrightarrow> (\<exists>xs ys. nodes st = xs @ ys \<and>
        extendCache ev (empty_cache (generation c)) xs = Inr c)))"

lemma balanceCache_fresh:
  assumes "cache_inv ev st cached"
  shows "balanceCache ev st cached = balanceCache ev st None"
proof (cases cached)
  case (Some c)
  show ?thesis
  proof (cases "generation c = replaceGeneration st")
    case True
    from assms Some True obtain xs ys where ns: "nodes st = xs @ ys" and
      ext: "extendCache ev (empty_cache (replaceGeneration st)) xs = Inr c"
      unfolding cache_inv_def by metis
    show ?thesis
    proof (cases ys)
      case Nil
      with ext ns extendCache_resume(2) [OF ext] True Some show ?thesis by (simp add: balanceCache_def)
    next
      case (Cons y zs)
      with ns extendCache_resume(1) [OF ext, of ys] extendCache_resume(2) [OF ext] True Some
      show ?thesis by (simp add: balanceCache_def)
    qed
  qed (simp add: Some balanceCache_def Let_def)
qed simp

lemma balanceCache_stored:
  assumes "balanceCache ev st None = Inr c"
  shows "cache_inv ev st (Some c)"
proof -
  from assms have ext: "extendCache ev (empty_cache (replaceGeneration st)) (nodes st) = Inr c"
    by (simp add: balanceCache_def)
  from extendCache_resume(3) [OF ext] ext have "generation c = replaceGeneration st"
    "nodes st = nodes st @ []" "extendCache ev (empty_cache (generation c)) (nodes st) = Inr c" by simp_all
  then show ?thesis unfolding cache_inv_def by (metis option.inject order_refl)
qed

lemma cache_inv_mono:
  assumes "cache_inv ev st cached" "ev \<subseteq>\<^sub>m ev'"
  shows "cache_inv ev' st cached"
  using assms(1) scan_tail_mono [OF assms(2)] unfolding cache_inv_def empty_cache_extends by blast

lemma cache_inv_plan: "cache_inv ev st cached \<Longrightarrow> cache_inv ev (fst (applySurfacePlan st plan)) cached"
  by (cases "(st, plan)" rule: applySurfacePlan.cases) (fastforce simp: cache_inv_def)+

section \<open>A session with queries\<close>

text \<open>The session appends validated events to its log and answers queries, storing the cache.\<close>

record pairing_session =
  ps_events :: "session_event list"
  ps_surface :: fold_state
  ps_cache :: "balance_cache option"

datatype pairing_call = Commit session_event | Query

definition ps_eventAt :: "pairing_session \<Rightarrow> nat \<Rightarrow> session_event option" where
  "ps_eventAt s = event_at (ps_events s) 0"

definition apply_pairing_call :: "pairing_session \<Rightarrow> pairing_call \<Rightarrow> pairing_session" where
  "apply_pairing_call s c = (case c of
     Commit e \<Rightarrow>
       (case applySurfaceEvent (ps_surface s) e (length (ps_events s)) (ps_events s) 0 of
          Inl err \<Rightarrow> s
        | Inr (st, r) \<Rightarrow> s\<lparr>ps_events := ps_events s @ [e], ps_surface := st\<rparr>)
   | Query \<Rightarrow>
       (case balanceCache (ps_eventAt s) (ps_surface s) (ps_cache s) of
          Inl err \<Rightarrow> s | Inr cache \<Rightarrow> s\<lparr>ps_cache := Some cache\<rparr>))"

definition new_pairing_session :: pairing_session where
  "new_pairing_session = \<lparr>ps_events = [], ps_surface = createFoldState, ps_cache = None\<rparr>"

lemma event_at_snoc: "event_at es b \<subseteq>\<^sub>m event_at (es @ [e]) b"
  by (auto simp: map_le_def event_at_def nth_append split: if_splits)

lemma apply_pairing_call_inv:
  assumes "cache_inv (ps_eventAt s) (ps_surface s) (ps_cache s)"
  shows "cache_inv (ps_eventAt (apply_pairing_call s c)) (ps_surface (apply_pairing_call s c)) (ps_cache (apply_pairing_call s c))"
proof (cases c)
  case (Commit e)
  show ?thesis
  proof (cases "applySurfaceEvent (ps_surface s) e (length (ps_events s)) (ps_events s) 0")
    case (Inr x)
    then obtain plan where "fst x = fst (applySurfacePlan (ps_surface s) plan)"
      by (auto simp: applySurfaceEvent_def res_simps)
    with Inr Commit cache_inv_mono [OF cache_inv_plan [OF assms] event_at_snoc [of "ps_events s" 0 e, folded ps_eventAt_def]]
    show ?thesis by (simp add: apply_pairing_call_def ps_eventAt_def case_prod_beta)
  qed (use Commit assms in \<open>simp add: apply_pairing_call_def\<close>)
next
  case Query
  then show ?thesis
    using assms balanceCache_fresh [OF assms] balanceCache_stored
    by (auto simp: apply_pairing_call_def ps_eventAt_def split: sum.split)
qed

text \<open>The balance cache is unobservable: in every session reached by committing events and
  querying in any order, an answer obtained through the stored cache (reused, extended or rebuilt) is
  the answer of a computation from scratch, errors included.\<close>

lemma pairing_cache_unobservable:
  "let s = foldl apply_pairing_call new_pairing_session calls in
     toolPairingBalancedBefore (ps_eventAt s) (ps_surface s) (ps_cache s) node =
       toolPairingBalancedBefore (ps_eventAt s) (ps_surface s) None node \<and>
     toolPairingBalancedAfter (ps_eventAt s) (ps_surface s) (ps_cache s) node =
       toolPairingBalancedAfter (ps_eventAt s) (ps_surface s) None node"
proof -
  have "cache_inv (ps_eventAt s) (ps_surface s) (ps_cache s) \<Longrightarrow>
      (let s' = foldl apply_pairing_call s calls in cache_inv (ps_eventAt s') (ps_surface s') (ps_cache s'))" for s
    by (induction calls arbitrary: s) (simp_all add: apply_pairing_call_inv Let_def)
  moreover have "cache_inv (ps_eventAt new_pairing_session) (ps_surface new_pairing_session) (ps_cache new_pairing_session)"
    by (simp add: cache_inv_def new_pairing_session_def)
  ultimately have "let s = foldl apply_pairing_call new_pairing_session calls in
      balanceCache (ps_eventAt s) (ps_surface s) (ps_cache s) = balanceCache (ps_eventAt s) (ps_surface s) None"
    unfolding Let_def by (intro balanceCache_fresh) blast
  then show ?thesis
    unfolding Let_def toolPairingBalancedBefore_def toolPairingBalancedAfter_def by simp
qed

section \<open>What the answer means\<close>

definition calls_before :: "(nat \<Rightarrow> session_event option) \<Rightarrow> nat list \<Rightarrow> nat \<Rightarrow> int" where
  "calls_before ev ns i = sum_list (map (\<lambda>s. case ev s of None \<Rightarrow> 0 | Some e \<Rightarrow> max 0 (eventDelta e)) (take i ns))"

definition results_before :: "(nat \<Rightarrow> session_event option) \<Rightarrow> nat list \<Rightarrow> nat \<Rightarrow> int" where
  "results_before ev ns i =
     int (length (filter (\<lambda>s. case ev s of Some e \<Rightarrow> eventDelta e = -1 | None \<Rightarrow> False) (take i ns)))"

lemma eventDelta_cases: "eventDelta e = -1 \<or> 0 \<le> eventDelta e"
  by (auto simp: eventDelta_def split: event_data.split)

lemma scan_tail_cuts:
  "scan_tail ev n ns = Inr (cuts, m) \<Longrightarrow> i < length ns \<Longrightarrow>
     cuts ! i = (n + calls_before ev ns (Suc i) = results_before ev ns (Suc i))"
proof (induction ns arbitrary: n cuts i)
  case (Cons s ns)
  then obtain e cuts' where e: "ev s = Some e" and rec: "scan_tail ev (n + eventDelta e) ns = Inr (cuts', m)"
    and cuts: "cuts = (n + eventDelta e = 0) # cuts'"
    by (auto simp: Let_def res_simps split: option.splits if_splits)
  have split: "calls_before ev (s # ns) (Suc j) = max 0 (eventDelta e) + calls_before ev ns j"
    "results_before ev (s # ns) (Suc j) = (if eventDelta e = -1 then 1 else 0) + results_before ev ns j" for j
    by (simp_all add: calls_before_def results_before_def e)
  show ?case
  proof (cases i)
    case 0
    with cuts split [of 0] eventDelta_cases [of e] show ?thesis
      by (auto simp: calls_before_def results_before_def)
  next
    case (Suc j)
    with Cons.IH [OF rec, of j] Cons.prems(2) cuts split [of "Suc j"] eventDelta_cases [of e]
    show ?thesis by auto
  qed
qed simp

lemma index_tail_nth:
  "distinct ns \<Longrightarrow> j < length ns \<Longrightarrow> index_tail i ns m (ns ! j) = Some (i + j)"
proof (induction ns arbitrary: i j m)
  case (Cons s ns)
  have out: "x \<notin> set xs \<Longrightarrow> index_tail k xs f x = f x" for x xs k and f :: "nat \<Rightarrow> nat option"
    by (induction xs arbitrary: k f) auto
  show ?case using Cons by (cases j) (auto simp: out)
qed simp

text \<open>A cut that the code reports as balanced is one where no tool call is left open: whenever the
  query returns for a node of the surface, its answer says exactly whether the surface in front of the
  cut holds as many tool results as tool calls.\<close>

lemma balanced_cut_meaning:
  assumes "distinct (nodes st)" and "i < length (nodes st)"
    and "returns (balanceCache ev st None)"
  shows "toolPairingBalancedBefore ev st None (nodes st ! i) =
      Inr (calls_before ev (nodes st) i = results_before ev (nodes st) i)
    \<and> toolPairingBalancedAfter ev st None (nodes st ! i) =
      Inr (calls_before ev (nodes st) (Suc i) = results_before ev (nodes st) (Suc i))"
proof -
  from assms(3) obtain c where c: "balanceCache ev st None = Inr c" by (auto simp: returns_iff)
  then obtain cuts n where sc: "scan_tail ev 0 (nodes st) = Inr (cuts, n)" and
    eq: "cutBalanced c = True # cuts" "indexBySeq c = index_tail 0 (nodes st) (\<lambda>_. None)"
    by (auto simp: balanceCache_def Let_def empty_cache_extends)
  have ix: "indexBySeq c (nodes st ! i) = Some i"
    using index_tail_nth [OF assms(1,2), of 0] eq by simp
  note cut = scan_tail_cuts [OF sc]
  have zero: "calls_before ev (nodes st) 0 = results_before ev (nodes st) 0"
    by (simp add: calls_before_def results_before_def)
  have len: "length cuts = length (nodes st)" by (rule scan_tail_length [OF sc])
  show ?thesis
    using c ix eq cut [OF assms(2)] cut [of "i - 1"] assms(2) zero len
    by (cases i) (simp_all add: toolPairingBalancedBefore_def toolPairingBalancedAfter_def cutBalance_def)
qed

end
