(* ===== verification/Compaction.thy ===== *)
theory Compaction
  imports Tool_Pairing
begin

text \<open>
  Compaction of the surface, \<^verbatim>\<open>packages/compaction/compaction-basic/src/region.ts\<close>: which head of the
  conversation may be summarised, and the transaction that replaces it by a checkpoint message while other
  code appends to the log.

  The token meter, the summarizer, the abort signal and the admission of appends are parameters; what others
  append while the summarizer runs is a list. The balance of cuts is computed afresh, which
  \<open>Tool_Pairing\<close> shows to be what the cache answers. Events of the bracket carry their type only.
\<close>

section \<open>Pricing and selection\<close>

record priced_node =
  pn_seq :: nat
  pn_tokens :: nat
  pn_heuristicTokens :: nat

datatype compaction_error =
    MeterMismatch | PairingFailed pairing_error | SurfaceBroken surface_error
  | StartMissing nat | EndMissing nat | StartBehindEnd nat nat | StartUnbalanced nat | EndUnbalanced nat
  | CompactionActive | TurnOpen | NoOpenTurn | AppendFailed | SurfaceChanged | SummarizerFailed string | NotSmaller nat nat
  | CompactionAborted | ManualChanged | ManualSummary | ManualCommit | PersistenceFailed

definition surface_state :: "session_event list \<Rightarrow> compaction_error + fold_state" where
  "surface_state es = (case fold_window es 0 of Inl err \<Rightarrow> Inl (SurfaceBroken err) | Inr (st, rs) \<Rightarrow> Inr st)"

definition balanced_before :: "session_event list \<Rightarrow> fold_state \<Rightarrow> nat \<Rightarrow> compaction_error + bool" where
  "balanced_before es st s = (case toolPairingBalancedBefore (event_at es 0) st None s of
     Inl err \<Rightarrow> Inl (PairingFailed err) | Inr b \<Rightarrow> Inr b)"

definition balanced_after :: "session_event list \<Rightarrow> fold_state \<Rightarrow> nat \<Rightarrow> compaction_error + bool" where
  "balanced_after es st s = (case toolPairingBalancedAfter (event_at es 0) st None s of
     Inl err \<Rightarrow> Inl (PairingFailed err) | Inr b \<Rightarrow> Inr b)"

text \<open>The loop over the priced nodes, from the newest: the index from which nodes are kept.\<close>

fun keep_from :: "priced_node list \<Rightarrow> nat \<Rightarrow> nat \<Rightarrow> nat \<Rightarrow> nat" where
  "keep_from priced retain 0 accumulated = 0"
| "keep_from priced retain (Suc i) accumulated =
     (let total = accumulated + pn_tokens (priced ! i) in
      if total \<ge> retain then i else keep_from priced retain i total)"

text \<open>The loop back to a balanced cut.\<close>

fun back_to_balance :: "session_event list \<Rightarrow> fold_state \<Rightarrow> nat \<Rightarrow> compaction_error + nat" where
  "back_to_balance es st 0 = Inr 0"
| "back_to_balance es st (Suc k) = bind_res (balanced_before es st (nodes st ! Suc k)) (\<lambda>balanced.
     if balanced then Inr (Suc k) else back_to_balance es st k)"

definition selectCompactableRange ::
    "session_event list \<Rightarrow> priced_node list \<Rightarrow> nat \<Rightarrow> compaction_error + (nat \<times> nat) option" where
  "selectCompactableRange es priced retainTokens =
     (if priced = [] then Inr None
      else bind_res (surface_state es) (\<lambda>st.
        if nodes st \<noteq> map pn_seq priced then Inl MeterMismatch
        else bind_res (back_to_balance es st (keep_from priced retainTokens (length priced) 0)) (\<lambda>keepFromIdx.
          if keepFromIdx = 0 then Inr None
          else Inr (Some (nodes st ! 0, nodes st ! (keepFromIdx - 1))))))"

section \<open>Entry checks\<close>

record surface_selection =
  sl_start :: nat
  sl_end :: nat
  sl_startIdx :: nat
  sl_endIdx :: nat
  sl_shadowedSeqs :: "nat list"

definition validateSurfaceRegion :: "session_event list \<Rightarrow> nat \<Rightarrow> nat \<Rightarrow> compaction_error + surface_selection" where
  "validateSurfaceRegion es start stop = bind_res (surface_state es) (\<lambda>st.
     case indexOf (nodes st) start of
       None \<Rightarrow> Inl (StartMissing start)
     | Some startIdx \<Rightarrow>
        (case indexOf (nodes st) stop of
           None \<Rightarrow> Inl (EndMissing stop)
         | Some endIdx \<Rightarrow>
            (if startIdx > endIdx then Inl (StartBehindEnd start stop)
             else bind_res (balanced_before es st (nodes st ! startIdx)) (\<lambda>before.
               if \<not> before then Inl (StartUnbalanced start)
               else bind_res (balanced_after es st (nodes st ! endIdx)) (\<lambda>after.
                 if \<not> after then Inl (EndUnbalanced stop)
                 else Inr \<lparr>sl_start = start, sl_end = stop, sl_startIdx = startIdx, sl_endIdx = endIdx,
                        sl_shadowedSeqs = slice (nodes st) startIdx (endIdx + 1)\<rparr>)))))"

text \<open>\<open>inspectCompactionEntryState\<close>: one pass from the newest event, each question answered once.\<close>

record entry_state =
  en_openTurn :: "int option"
  en_turnKnown :: bool
  en_unmatchedStart :: "nat option"
  en_entryKnown :: bool
  en_endSeed :: "nat option"

definition inspect_event :: "session_event \<Rightarrow> entry_state \<Rightarrow> entry_state" where
  "inspect_event e s =
     (let s1 = (if en_endSeed s = None \<and> ev_data e = EndSeed then s\<lparr>en_endSeed := Some (ev_seq e)\<rparr> else s);
          s2 = (if en_entryKnown s1 then s1
                else if ev_data e = OtherEvent ''compaction/start'' then s1\<lparr>en_unmatchedStart := Some (ev_seq e), en_entryKnown := True\<rparr>
                else if ev_data e = OtherEvent ''compaction/end'' then s1\<lparr>en_entryKnown := True\<rparr> else s1) in
      if en_turnKnown s2 then s2
      else case ev_data e of
          TurnStart n \<Rightarrow> s2\<lparr>en_openTurn := Some n, en_turnKnown := True\<rparr>
        | TurnEnd n reason \<Rightarrow> s2\<lparr>en_turnKnown := True\<rparr>
        | _ \<Rightarrow> s2)"

fun inspect_loop :: "session_event list \<Rightarrow> nat \<Rightarrow> entry_state \<Rightarrow> entry_state" where
  "inspect_loop es 0 s = s"
| "inspect_loop es (Suc i) s = (let s1 = inspect_event (es ! i) s in
     if en_turnKnown s1 \<and> en_entryKnown s1 \<and> en_endSeed s1 \<noteq> None then s1 else inspect_loop es i s1)"

definition inspectCompactionEntryState :: "session_event list \<Rightarrow> entry_state" where
  "inspectCompactionEntryState es = inspect_loop es (length es)
     \<lparr>en_openTurn = None, en_turnKnown = False, en_unmatchedStart = None, en_entryKnown = False, en_endSeed = None\<rparr>"

definition assertCompactionInactive :: "entry_state \<Rightarrow> compaction_error + unit" where
  "assertCompactionInactive s = (case en_unmatchedStart s of
     None \<Rightarrow> Inr ()
   | Some start \<Rightarrow> (case en_endSeed s of
       None \<Rightarrow> Inl CompactionActive
     | Some seed \<Rightarrow> if seed > start then Inr () else Inl CompactionActive))"

definition assertNoActiveCompaction :: "session_event list \<Rightarrow> compaction_error + unit" where
  "assertNoActiveCompaction es = assertCompactionInactive (inspectCompactionEntryState es)"

section \<open>The transaction\<close>

record compaction_env =
  ce_now :: int
  ce_admits :: "session_event list \<Rightarrow> event_data \<Rightarrow> bool"
  ce_measure :: "session_event list \<Rightarrow> priced_node list"
  ce_summarize :: "message list \<Rightarrow> string + jsval"      \<comment> \<open>framed summary\<close>
  ce_meanwhile :: "(event_data \<times> jsval \<times> jsval) list"    \<comment> \<open>data, \<open>surfaceOp\<close> and sources\<close>
  ce_messageId :: string
  ce_estimate :: "user_message \<Rightarrow> nat"
  ce_abortedFirst :: bool
  ce_abortedSummarized :: bool
  ce_abortedLast :: bool
  ce_flush :: "bool option"                            \<comment> \<open>the checkpoint of the options, and whether it succeeds\<close>

record compaction_options =
  co_manual :: bool                  \<comment> \<open>\<open>owner\<close> is \<open>null\<close>\<close>
  co_wholeSurface :: bool

record compaction_result =
  cr_startSeq :: nat
  cr_summarySeq :: nat
  cr_endSeq :: nat
  cr_shadowed :: "nat list"
  cr_shadowedTokenCount :: nat

text \<open>\<open>Session.append\<close>, as far as its surface is concerned: the replay takes the event or it is refused.\<close>

definition compaction_append :: "compaction_env \<Rightarrow> event_data \<Rightarrow> jsval \<Rightarrow> jsval \<Rightarrow> session_event list
    \<Rightarrow> session_event list \<times> (compaction_error + nat)" where
  "compaction_append env d op sources es =
     (let e = \<lparr>ev_seq = length es, ev_time = ce_now env, ev_data = d, ev_surfaceOp = op, ev_sources = sources\<rparr> in
      if ce_admits env es d \<and> returns (foldSurface (es @ [e])) then (es @ [e], Inr (length es)) else (es, Inl AppendFailed))"

definition prepareCompaction :: "compaction_env \<Rightarrow> surface_selection \<Rightarrow> session_event list \<Rightarrow> compaction_error + priced_node list" where
  "prepareCompaction env sel es =
     (let selected = slice (ce_measure env es) (sl_startIdx sel) (sl_endIdx sel + 1) in
      if map pn_seq selected \<noteq> sl_shadowedSeqs sel then Inl SurfaceChanged else Inr selected)"

definition buildSummarizationInput :: "session_event list \<Rightarrow> nat list \<Rightarrow> message list" where
  "buildSummarizationInput es shadowed = List.map_filter (\<lambda>s. deriveEventMessage (es ! s)) shadowed"

text \<open>What others append while the summarizer is awaited.\<close>

definition meanwhile :: "compaction_env \<Rightarrow> session_event list \<Rightarrow> session_event list" where
  "meanwhile env es = foldl (\<lambda>es (d, op, sources). fst (compaction_append env d op sources es)) es (ce_meanwhile env)"

definition checkpoint_message :: "compaction_env \<Rightarrow> jsval \<Rightarrow> user_message" where
  "checkpoint_message env content = \<lparr>um_id = ce_messageId env, um_source = SrcPlugin ''compact'', um_content = content\<rparr>"

definition summarizeCompaction ::
    "compaction_env \<Rightarrow> surface_selection \<Rightarrow> priced_node list \<Rightarrow> session_event list \<Rightarrow> compaction_error + user_message" where
  "summarizeCompaction env sel selected es = (case ce_summarize env (buildSummarizationInput es (sl_shadowedSeqs sel)) of
     Inl err \<Rightarrow> Inl (SummarizerFailed err)
   | Inr content \<Rightarrow>
      (let m = checkpoint_message env content; price = sum_list (map pn_tokens selected) in
       if ce_estimate env m \<ge> price then Inl (NotSmaller (ce_estimate env m) price) else Inr m))"

definition assertWholeSurfaceUnchanged :: "compaction_env \<Rightarrow> priced_node list \<Rightarrow> session_event list \<Rightarrow> compaction_error + unit" where
  "assertWholeSurfaceUnchanged env measured es = (if ce_measure env es \<noteq> measured then Inl SurfaceChanged else Inr ())"

definition assertSelectedSpanStable ::
    "compaction_env \<Rightarrow> surface_selection \<Rightarrow> priced_node list \<Rightarrow> session_event list \<Rightarrow> compaction_error + unit" where
  "assertSelectedSpanStable env sel selected es = (case validateSurfaceRegion es (sl_start sel) (sl_end sel) of
     Inl err \<Rightarrow> Inl SurfaceChanged
   | Inr now \<Rightarrow>
      (if sl_shadowedSeqs now \<noteq> sl_shadowedSeqs sel then Inl SurfaceChanged
       else if slice (ce_measure env es) (sl_startIdx now) (sl_endIdx now + 1) \<noteq> selected then Inl SurfaceChanged
       else Inr ()))"

definition replace_op :: "surface_selection \<Rightarrow> jsval" where
  "replace_op sel = JObj [(''op'', JStr ''replace''), (''start'', JNum (js_int (int (sl_start sel)))),
     (''end'', JNum (js_int (int (sl_end sel))))]"

definition commitCompactionBody ::
    "compaction_env \<Rightarrow> surface_selection \<Rightarrow> nat \<Rightarrow> user_message \<Rightarrow> session_event list \<Rightarrow> session_event list \<times> (compaction_error + nat)" where
  "commitCompactionBody env sel startSeq m es =
     then_run (compaction_append env (OtherEvent ''compaction/summary'') JUndef JUndef es) (\<lambda>summarySeq es1.
     then_run (compaction_append env (UserMessage m) (replace_op sel)
         (JArr (map (\<lambda>s. JNum (js_int (int s))) (startSeq # summarySeq # sl_shadowedSeqs sel))) es1) (\<lambda>_ es2.
       (es2, Inr summarySeq)))"

text \<open>The \<open>try\<close> block up to the closing event: a failure carries its stage, which is the commit or not.\<close>

definition compaction_body ::
    "compaction_env \<Rightarrow> compaction_options \<Rightarrow> surface_selection \<Rightarrow> nat \<Rightarrow> session_event list
     \<Rightarrow> session_event list \<times> ((compaction_error \<times> bool) + (nat \<times> priced_node list))" where
  "compaction_body env opts sel startSeq es = (case prepareCompaction env sel es of
     Inl err \<Rightarrow> (es, Inl (err, False))
   | Inr selected \<Rightarrow>
      (let es1 = meanwhile env es in
       case summarizeCompaction env sel selected es of
         Inl err \<Rightarrow> (es1, Inl (err, False))
       | Inr m \<Rightarrow>
          (if co_manual opts \<and> ce_abortedSummarized env then (es1, Inl (CompactionAborted, False))
           else case (if co_wholeSurface opts then assertWholeSurfaceUnchanged env (ce_measure env es) es1
                      else assertSelectedSpanStable env sel selected es1) of
               Inl err \<Rightarrow> (es1, Inl (err, False))
             | Inr u \<Rightarrow> (case commitCompactionBody env sel startSeq m es1 of
                 (es2, Inl err) \<Rightarrow> (es2, Inl (err, True))
               | (es2, Inr summarySeq) \<Rightarrow> (es2, Inr (summarySeq, selected))))))"

text \<open>The close: exactly one attempt; whether it succeeded, and the outcome.\<close>

definition close_compaction ::
    "compaction_env \<Rightarrow> surface_selection \<Rightarrow> nat
     \<Rightarrow> session_event list \<times> ((compaction_error \<times> bool) + (nat \<times> priced_node list))
     \<Rightarrow> session_event list \<times> bool \<times> ((compaction_error \<times> bool) + compaction_result)" where
  "close_compaction env sel startSeq r = (case r of
     (es, body) \<Rightarrow> (case compaction_append env (OtherEvent ''compaction/end'') JUndef JUndef es of
        (es1, Inl err) \<Rightarrow> (es1, False, Inl (err, True))
      | (es1, Inr endSeq) \<Rightarrow> (es1, True, case body of
            Inl failure \<Rightarrow> Inl failure
          | Inr (summarySeq, selected) \<Rightarrow> Inr \<lparr>cr_startSeq = startSeq, cr_summarySeq = summarySeq, cr_endSeq = endSeq,
              cr_shadowed = sl_shadowedSeqs sel, cr_shadowedTokenCount = sum_list (map pn_heuristicTokens selected)\<rparr>)))"

definition throwManualFailure :: "compaction_error \<times> bool \<Rightarrow> compaction_error" where
  "throwManualFailure failure = (if snd failure then ManualCommit else if fst failure = SurfaceChanged then ManualChanged else ManualSummary)"

definition settle_compaction ::
    "compaction_env \<Rightarrow> compaction_options \<Rightarrow> bool \<Rightarrow> (compaction_error \<times> bool) + compaction_result \<Rightarrow> compaction_error + compaction_result" where
  "settle_compaction env opts isClosed outcome =
     (if co_manual opts \<and> ce_abortedLast env then Inl CompactionAborted
      else case outcome of
          Inl failure \<Rightarrow> Inl (if co_manual opts then throwManualFailure failure else fst failure)
        | Inr result \<Rightarrow> if isClosed \<and> ce_flush env = Some False then Inl PersistenceFailed else Inr result)"

definition entry_checks :: "compaction_env \<Rightarrow> compaction_options \<Rightarrow> nat \<Rightarrow> nat \<Rightarrow> session_event list \<Rightarrow> compaction_error + surface_selection" where
  "entry_checks env opts start stop es =
     (if co_manual opts \<and> ce_abortedFirst env then Inl CompactionAborted
      else bind_res (validateSurfaceRegion es start stop) (\<lambda>sel.
        let entry = inspectCompactionEntryState es in
        bind_res (assertCompactionInactive entry) (\<lambda>_.
          if co_manual opts then (if en_openTurn entry \<noteq> None then Inl TurnOpen else Inr sel)
          else if en_openTurn entry = None then Inl NoOpenTurn else Inr sel)))"

definition compactSurfaceRegion ::
    "compaction_env \<Rightarrow> compaction_options \<Rightarrow> nat \<Rightarrow> nat \<Rightarrow> session_event list
     \<Rightarrow> session_event list \<times> (compaction_error + compaction_result)" where
  "compactSurfaceRegion env opts start stop es = (case entry_checks env opts start stop es of
     Inl err \<Rightarrow> (es, Inl err)
   | Inr sel \<Rightarrow> then_run (compaction_append env (OtherEvent ''compaction/start'') JUndef JUndef es) (\<lambda>startSeq es1.
       case close_compaction env sel startSeq (compaction_body env opts sel startSeq es1) of
         (es2, isClosed, outcome) \<Rightarrow> (es2, settle_compaction env opts isClosed outcome)))"

section \<open>Surfaces and appends\<close>

lemma surface_state_Inr: "surface_state es = Inr st \<longleftrightarrow> (\<exists>rs. fold_window es 0 = Inr (st, rs))"
  by (auto simp: surface_state_def split: sum.splits)

lemma foldSurface_Inr: "foldSurface es = Inr (ns, rs) \<longleftrightarrow> (\<exists>st. fold_window es 0 = Inr (st, rs) \<and> ns = nodes st)"
  by (auto simp: foldSurface_def res_simps)

lemma compaction_append_Inr:
  assumes "compaction_append env d op sources es = (es', Inr k)"
  shows "k = length es \<and> es' = es @ [\<lparr>ev_seq = length es, ev_time = ce_now env, ev_data = d, ev_surfaceOp = op, ev_sources = sources\<rparr>]
    \<and> returns (foldSurface es')"
  using assms by (auto simp: compaction_append_def Let_def split: if_splits)

lemma compaction_append_Inl: "compaction_append env d op sources es = (es', Inl err) \<Longrightarrow> es' = es \<and> err = AppendFailed"
  by (auto simp: compaction_append_def Let_def split: if_splits)

lemma append_log_nodes:
  assumes "compaction_append env (OtherEvent k) JUndef JUndef es = (es', Inr i)" "foldSurface es = Inr (ns, rs)"
  shows "foldSurface es' = Inr (ns, rs)"
  using compaction_append_Inr [OF assms(1)] foldSurface_snoc_log [OF assms(2), of "OtherEvent k" "ce_now env"]
  by (simp add: log_event_def is_surface_data_def)

lemma event_at_append: "event_at es 0 \<subseteq>\<^sub>m event_at (es @ x) 0"
  by (auto simp: map_le_def event_at_def nth_append split: if_splits)

lemma meanwhile_grows:
  "\<exists>x. meanwhile env es = es @ x \<and> (returns (foldSurface es) \<longrightarrow> returns (foldSurface (es @ x)))"
proof -
  have "\<exists>x. foldl (\<lambda>es (d, op, sources). fst (compaction_append env d op sources es)) es cs = es @ x
      \<and> (returns (foldSurface es) \<longrightarrow> returns (foldSurface (es @ x)))" for cs es
  proof (induction cs arbitrary: es)
    case (Cons c cs)
    obtain d op src where c: "c = (d, op, src)" by (cases c)
    have "\<exists>y. fst (compaction_append env d op src es) = es @ y
      \<and> (returns (foldSurface es) \<longrightarrow> returns (foldSurface (es @ y)))"
      by (auto simp: compaction_append_def Let_def intro: exI [of _ "[]"])
    then obtain y where y: "fst (compaction_append env d op src es) = es @ y"
      "returns (foldSurface es) \<longrightarrow> returns (foldSurface (es @ y))" by blast
    with Cons.IH [of "es @ y"] c show ?case by fastforce
  qed simp
  then show ?thesis unfolding meanwhile_def .
qed

section \<open>Balanced spans\<close>

text \<open>The surface is cut into a head, a span and a rest, and no tool call crosses either cut.\<close>

definition balanced_span :: "session_event list \<Rightarrow> nat list \<Rightarrow> nat list \<Rightarrow> nat list \<Rightarrow> bool" where
  "balanced_span es A sh C \<longleftrightarrow> (\<exists>rs a s c n. foldSurface es = Inr (A @ sh @ C, rs)
     \<and> scan_tail (event_at es 0) 0 A = Inr (a, 0) \<and> scan_tail (event_at es 0) 0 sh = Inr (s, 0)
     \<and> scan_tail (event_at es 0) 0 C = Inr (c, n))"

lemma balanced_span_grows:
  "balanced_span es A sh C \<Longrightarrow> foldSurface (es @ x) = Inr (A @ sh @ C, rs) \<Longrightarrow> balanced_span (es @ x) A sh C"
  unfolding balanced_span_def using scan_tail_mono [OF event_at_append] by blast

lemma scan_tail_last: "scan_tail ev n xs = Inr (cuts, m) \<Longrightarrow> xs \<noteq> [] \<Longrightarrow> cuts ! (length xs - 1) = (m = 0)"
proof (induction xs arbitrary: n cuts)
  case (Cons x xs)
  then obtain e cuts' where rec: "scan_tail ev (n + eventDelta e) xs = Inr (cuts', m)"
    and cuts: "cuts = (n + eventDelta e = 0) # cuts'"
    by (auto simp: Let_def res_simps split: option.splits if_splits)
  show ?case
  proof (cases xs)
    case Nil
    with rec cuts show ?thesis by simp
  next
    case (Cons y ys)
    with Cons.IH [OF rec] cuts show ?thesis by simp
  qed
qed simp

text \<open>A balanced cut splits the scan.\<close>

lemma scan_split:
  assumes "scan_tail ev 0 (xs @ ys) = Inr (cuts, n)" "xs = [] \<or> cuts ! (length xs - 1)"
  obtains a c where "scan_tail ev 0 xs = Inr (a, 0)" "scan_tail ev 0 ys = Inr (c, n)" "cuts = a @ c"
proof -
  obtain a m c where parts: "scan_tail ev 0 xs = Inr (a, m)" "scan_tail ev m ys = Inr (c, n)" "cuts = a @ c"
    using assms(1) by (auto simp: scan_tail_append res_simps)
  have "m = 0"
  proof (cases "xs = []")
    case False
    with assms(2) parts scan_tail_last [OF parts(1)] scan_tail_length [OF parts(1)] show ?thesis
      by (simp add: nth_append)
  qed (use parts in simp)
  with parts that show ?thesis by simp
qed

lemma scan_join:
  "scan_tail ev 0 xs = Inr (a, 0) \<Longrightarrow> scan_tail ev 0 ys = Inr (c, n) \<Longrightarrow> scan_tail ev 0 (xs @ ys) = Inr (a @ c, n)"
  by (simp add: scan_tail_append)

lemma balanced_answer:
  assumes "distinct (nodes st)" "i < length (nodes st)"
  shows "balanced_before es st (nodes st ! i) = Inr b \<Longrightarrow>
      \<exists>cuts n. scan_tail (event_at es 0) 0 (nodes st) = Inr (cuts, n) \<and> b = (i = 0 \<or> cuts ! (i - 1))"
    and "balanced_after es st (nodes st ! i) = Inr b \<Longrightarrow>
      \<exists>cuts n. scan_tail (event_at es 0) 0 (nodes st) = Inr (cuts, n) \<and> b = cuts ! i"
proof -
  have "\<exists>cuts n. scan_tail (event_at es 0) 0 (nodes st) = Inr (cuts, n) \<and> b = ((True # cuts) ! (i + k))"
    if "bind_res (balanceCache (event_at es 0) st None) (\<lambda>c. cutBalance c (nodes st ! i) k) = Inr b" for k
    using that index_tail_nth [OF assms, of 0]
    by (auto simp: res_simps balanceCache_def Let_def empty_cache_extends cutBalance_def split: if_splits)
  note at = this [of 0] this [of 1]
  show "balanced_before es st (nodes st ! i) = Inr b \<Longrightarrow>
      \<exists>cuts n. scan_tail (event_at es 0) 0 (nodes st) = Inr (cuts, n) \<and> b = (i = 0 \<or> cuts ! (i - 1))"
    using at(1) by (cases i) (auto simp: balanced_before_def toolPairingBalancedBefore_def split: sum.splits)
  show "balanced_after es st (nodes st ! i) = Inr b \<Longrightarrow>
      \<exists>cuts n. scan_tail (event_at es 0) 0 (nodes st) = Inr (cuts, n) \<and> b = cuts ! i"
    using at(2) by (auto simp: balanced_after_def toolPairingBalancedAfter_def split: sum.splits)
qed

lemma fold_window_distinct:
  assumes "fold_window es 0 = Inr (st, rs)"
  shows "distinct (nodes st)"
proof -
  have "replay_inv es 0 (length es) (st, rs)" using assms fold_prefix_inv by (simp add: fold_prefix_window)
  then have "mset (nodes st @ shadowed_seqs rs) = mset (surface_seqs es 0 (length es))" by (simp add: replay_inv_def)
  then have "distinct (nodes st @ shadowed_seqs rs)" using distinct_surface_seqs by (metis mset_eq_imp_distinct_iff)
  then show ?thesis by simp
qed

text \<open>What the validation of a region establishes.\<close>

lemma validated_span:
  assumes "validateSurfaceRegion es start stop = Inr sel"
  obtains st rs where "fold_window es 0 = Inr (st, rs)" "sl_start sel = start" "sl_end sel = stop"
    "indexOf (nodes st) start = Some (sl_startIdx sel)" "indexOf (nodes st) stop = Some (sl_endIdx sel)"
    "sl_startIdx sel \<le> sl_endIdx sel" "sl_endIdx sel < length (nodes st)"
    "sl_shadowedSeqs sel = slice (nodes st) (sl_startIdx sel) (sl_endIdx sel + 1)"
    "nodes st = take (sl_startIdx sel) (nodes st) @ sl_shadowedSeqs sel @ drop (sl_endIdx sel + 1) (nodes st)"
    "balanced_span es (take (sl_startIdx sel) (nodes st)) (sl_shadowedSeqs sel) (drop (sl_endIdx sel + 1) (nodes st))"
proof -
  from assms obtain st where st: "surface_state es = Inr st" by (auto simp: validateSurfaceRegion_def res_simps)
  with assms obtain i where i: "indexOf (nodes st) start = Some i"
    by (cases "indexOf (nodes st) start") (auto simp: validateSurfaceRegion_def)
  with assms st obtain j where j: "indexOf (nodes st) stop = Some j"
    by (cases "indexOf (nodes st) stop") (auto simp: validateSurfaceRegion_def)
  have ix: "indexOf (nodes st) start = Some i" "indexOf (nodes st) stop = Some j"
    and le: "i \<le> j" and bal: "balanced_before es st (nodes st ! i) = Inr True" "balanced_after es st (nodes st ! j) = Inr True"
    and sel: "sel = \<lparr>sl_start = start, sl_end = stop, sl_startIdx = i, sl_endIdx = j, sl_shadowedSeqs = slice (nodes st) i (j + 1)\<rparr>"
    using assms st i j by (auto simp: validateSurfaceRegion_def res_simps split: if_splits)
  from st obtain rs where fold: "fold_window es 0 = Inr (st, rs)" by (auto simp: surface_state_Inr)
  have j: "j < length (nodes st)" and i: "i < length (nodes st)" using ix indexOf_Some by fastforce+
  have dis: "distinct (nodes st)" using fold by (rule fold_window_distinct)
  have parts: "nodes st = take i (nodes st) @ slice (nodes st) i (j + 1) @ drop (j + 1) (nodes st)"
    using slice_parts [of i "j + 1 - i" "nodes st"] le j by simp
  obtain cuts n where sc: "scan_tail (event_at es 0) 0 (nodes st) = Inr (cuts, n)" and c1: "i = 0 \<or> cuts ! (i - 1)"
    using balanced_answer(1) [OF dis i bal(1)] by auto
  have c2: "cuts ! j" using balanced_answer(2) [OF dis j bal(2)] sc by auto
  have "length (take i (nodes st) @ slice (nodes st) i (j + 1)) - 1 = j" using le j by (simp add: slice_def)
  with c2 sc parts obtain b c where b: "scan_tail (event_at es 0) 0 (take i (nodes st) @ slice (nodes st) i (j + 1)) = Inr (b, 0)"
    and c: "scan_tail (event_at es 0) 0 (drop (j + 1) (nodes st)) = Inr (c, n)" and bc: "cuts = b @ c"
    using scan_split [of "event_at es 0" "take i (nodes st) @ slice (nodes st) i (j + 1)" "drop (j + 1) (nodes st)" cuts n]
    by (metis append.assoc)
  have "length b = j + 1" using scan_tail_length [OF b] le j by (simp add: slice_def)
  then have "take i (nodes st) = [] \<or> b ! (length (take i (nodes st)) - 1)"
    using c1 bc i le by (cases "i = 0") (auto simp: nth_append)
  from scan_split [OF b this] obtain a s where "scan_tail (event_at es 0) 0 (take i (nodes st)) = Inr (a, 0)"
    "scan_tail (event_at es 0) 0 (slice (nodes st) i (j + 1)) = Inr (s, 0)" by blast
  then have "balanced_span es (take i (nodes st)) (slice (nodes st) i (j + 1)) (drop (j + 1) (nodes st))"
    unfolding balanced_span_def using fold c parts by (intro exI) (auto simp: foldSurface_Inr)
  then show ?thesis using fold ix le j parts sel by (intro that [of st rs]) simp_all
qed

section \<open>Retention\<close>

lemma keep_from_retains:
  assumes "keep_from priced retain i acc = k" "i \<le> length priced" "acc = sum_list (map pn_tokens (drop i priced))" "0 < k"
  shows "k < i \<and> retain \<le> sum_list (map pn_tokens (drop k priced))"
  using assms
proof (induction i arbitrary: acc)
  case (Suc i)
  have "drop i priced = priced ! i # drop (Suc i) priced" using Suc.prems(2) by (simp add: Cons_nth_drop_Suc)
  then have acc: "acc + pn_tokens (priced ! i) = sum_list (map pn_tokens (drop i priced))" using Suc.prems(3) by simp
  show ?case
  proof (cases "acc + pn_tokens (priced ! i) \<ge> retain")
    case True
    with Suc.prems(1) have "k = i" by simp
    with True acc show ?thesis by simp
  next
    case False
    with Suc.prems acc Suc.IH [of "acc + pn_tokens (priced ! i)"] show ?thesis by (simp add: Let_def)
  qed
qed simp

lemma back_to_balance_cut:
  "back_to_balance es st k = Inr j \<Longrightarrow> j \<le> k \<and> (0 < j \<longrightarrow> balanced_before es st (nodes st ! j) = Inr True)"
  by (induction k) (auto simp: res_simps le_SucI split: if_splits)

lemma sum_drop_mono:
  fixes xs :: "nat list"
  shows "j \<le> k \<Longrightarrow> sum_list (drop k xs) \<le> sum_list (drop j xs)"
  by (metis le_add2 le_add_diff_inverse2 drop_drop append_take_drop_id sum_list_append)

lemma indexOf_nth: "distinct xs \<Longrightarrow> i < length xs \<Longrightarrow> indexOf xs (xs ! i) = Some i"
proof (induction xs arbitrary: i)
  case (Cons x xs)
  show ?case
  proof (cases i)
    case (Suc j)
    with Cons have "indexOf xs (xs ! j) = Some j" "xs ! j \<noteq> x" by auto
    with Suc show ?thesis by (simp add: indexOf_def)
  qed (simp add: indexOf_def)
qed simp

text \<open>Where one cut has an answer, the others have theirs.\<close>

lemma cut_answers:
  assumes "distinct (nodes st)" "k < length (nodes st)" "0 < k" "balanced_before es st (nodes st ! k) = Inr True"
  shows "balanced_before es st (nodes st ! 0) = Inr True" "balanced_after es st (nodes st ! (k - 1)) = Inr True"
proof -
  have "returns (balanceCache (event_at es 0) st None)"
    using assms(4) by (auto simp: balanced_before_def toolPairingBalancedBefore_def returns_iff res_simps split: sum.splits)
  note cut = balanced_cut_meaning [OF assms(1) _ this]
  have "0 < length (nodes st)" "k - 1 < length (nodes st)" using assms(2) by (cases "nodes st"; simp)+
  from cut [OF this(1)] cut [OF this(2)] cut [OF assms(2)] assms(3,4)
  show "balanced_before es st (nodes st ! 0) = Inr True" "balanced_after es st (nodes st ! (k - 1)) = Inr True"
    by (simp_all add: balanced_before_def balanced_after_def calls_before_def results_before_def)
qed

text \<open>C26: The range chosen for compaction is a head of the surface that may be replaced, and what is kept
  behind it is worth at least the retained budget: the region check accepts it, it starts at the first
  message and leaves a tail, and the prices of that tail add up to the budget or more. So neither the
  search for a balanced cut nor the end of the loop eats into the recent conversation.\<close>

theorem selected_range_retains:
  assumes "selectCompactableRange es priced retainTokens = Inr (Some (start, stop))"
  shows "\<exists>sel k. validateSurfaceRegion es start stop = Inr sel \<and> sl_startIdx sel = 0 \<and> 0 < k \<and> k < length priced
    \<and> sl_shadowedSeqs sel = map pn_seq (take k priced) \<and> retainTokens \<le> sum_list (map pn_tokens (drop k priced))"
proof -
  define k0 where "k0 = keep_from priced retainTokens (length priced) 0"
  obtain st k where st: "surface_state es = Inr st" and ns: "nodes st = map pn_seq priced"
    and cut: "back_to_balance es st k0 = Inr k" "0 < k" and ends: "start = nodes st ! 0" "stop = nodes st ! (k - 1)"
    using assms by (auto simp: selectCompactableRange_def res_simps k0_def split: if_splits)
  have k: "k \<le> k0" and bal: "balanced_before es st (nodes st ! k) = Inr True"
    using back_to_balance_cut [OF cut(1)] cut(2) by auto
  have k0: "k0 < length priced" "retainTokens \<le> sum_list (map pn_tokens (drop k0 priced))"
    using keep_from_retains [of priced retainTokens "length priced" 0 k0] k cut(2) by (simp_all add: k0_def)
  have dis: "distinct (nodes st)" using st by (auto simp: surface_state_Inr intro: fold_window_distinct)
  have "length (nodes st) = length priced" by (simp add: ns)
  then have len: "k < length (nodes st)" "k - 1 < length (nodes st)" "0 < length (nodes st)" using k k0(1) by linarith+
  have "validateSurfaceRegion es start stop = Inr \<lparr>sl_start = start, sl_end = stop, sl_startIdx = 0, sl_endIdx = k - 1,
      sl_shadowedSeqs = slice (nodes st) 0 (k - 1 + 1)\<rparr>"
    using cut_answers [OF dis len(1) cut(2) bal] st indexOf_nth [OF dis len(2)] indexOf_nth [OF dis len(3)]
    by (simp add: validateSurfaceRegion_def ends)
  moreover have "slice (nodes st) 0 (k - 1 + 1) = map pn_seq (take k priced)"
    using cut(2) by (simp add: slice_def ns take_map)
  moreover have "retainTokens \<le> sum_list (map pn_tokens (drop k priced))"
    using k0(2) sum_drop_mono [OF k, of "map pn_tokens priced"] by (simp add: drop_map)
  ultimately show ?thesis using k k0(1) cut(2) by (intro exI) auto
qed

section \<open>Replacement\<close>

lemma append_replaces:
  assumes app: "compaction_append env (UserMessage m) (replace_op sel) sources es = (es', Inr k)"
    and fold: "foldSurface es = Inr (ns, rs)"
    and ix: "indexOf ns (sl_start sel) = Some i" "indexOf ns (sl_end sel) = Some j" "i \<le> j" "j < length ns"
  shows "\<exists>rs'. foldSurface es' = Inr (take i ns @ [length es] @ drop (j + 1) ns, rs')"
proof -
  define e where "e = \<lparr>ev_seq = length es, ev_time = ce_now env, ev_data = UserMessage m, ev_surfaceOp = replace_op sel, ev_sources = sources\<rparr>"
  obtain st where st: "fold_window es 0 = Inr (st, rs)" "ns = nodes st" using fold by (auto simp: foldSurface_Inr)
  have es': "es' = es @ [e]" "returns (foldSurface es')" using compaction_append_Inr [OF app] unfolding e_def by auto
  then obtain ns' rs' where fold': "foldSurface (es @ [e]) = Inr (ns', rs')" by (auto simp: returns_iff)
  have "surfaceOpOf e = Inr (Some (OpReplace (sl_start sel) (sl_end sel))) \<or> surfaceOpOf e = Inl InvalidReplaceOp"
    by (simp add: surfaceOpOf_def e_def is_surface_data_def replace_op_def seq_of_def)
  moreover have "replacementRange st (sl_start sel) (sl_end sel) = Inr (i, j, slice (nodes st) i (j + 1))"
    using ix st(2) by (simp add: replacementRange_def)
  ultimately have "ns' = toSpliced (nodes st) i (j - i + 1) [length es]"
    using fold' by (auto simp: foldSurface_def fold_window_snoc st(1) fold_index_def applySurfaceEvent_def planSurfaceEvent_def res_simps e_def
        split: if_splits)
  with fold' es'(1) ix st(2) show ?thesis by (simp add: toSpliced_def)
qed

lemma body_commits:
  assumes "compaction_body env opts sel startSeq es = (es3, Inr (summarySeq, selected))"
  obtains m es2 where "summarizeCompaction env sel selected es = Inr m" "prepareCompaction env sel es = Inr selected"
    "(if co_wholeSurface opts then assertWholeSurfaceUnchanged env (ce_measure env es) (meanwhile env es)
      else assertSelectedSpanStable env sel selected (meanwhile env es)) = Inr ()"
    "compaction_append env (OtherEvent ''compaction/summary'') JUndef JUndef (meanwhile env es) = (es2, Inr summarySeq)"
    "compaction_append env (UserMessage m) (replace_op sel)
       (JArr (map (\<lambda>s. JNum (js_int (int s))) (startSeq # summarySeq # sl_shadowedSeqs sel))) es2 = (es3, Inr (length es2))"
proof -
  obtain m where m: "prepareCompaction env sel es = Inr selected" "summarizeCompaction env sel selected es = Inr m"
    "(if co_wholeSurface opts then assertWholeSurfaceUnchanged env (ce_measure env es) (meanwhile env es)
      else assertSelectedSpanStable env sel selected (meanwhile env es)) = Inr ()"
    "commitCompactionBody env sel startSeq m (meanwhile env es) = (es3, Inr summarySeq)"
    using assms unfolding compaction_body_def Let_def
    by (auto split: sum.splits if_splits prod.splits)
  from m(4) obtain es2 k where "compaction_append env (OtherEvent ''compaction/summary'') JUndef JUndef (meanwhile env es) = (es2, Inr summarySeq)"
    "compaction_append env (UserMessage m) (replace_op sel)
       (JArr (map (\<lambda>s. JNum (js_int (int s))) (startSeq # summarySeq # sl_shadowedSeqs sel))) es2 = (es3, Inr k)"
    by (auto simp: commitCompactionBody_def then_run_def split: prod.splits sum.splits)
  moreover from this(2) have "k = length es2" using compaction_append_Inr by blast
  ultimately show ?thesis using m that by blast
qed

text \<open>Where the surface stands when the summary is ready.\<close>

lemma stable_span:
  assumes sel: "validateSurfaceRegion es start stop = Inr sel"
    and grown: "es1 = es @ x" "foldSurface es = Inr (ns, rs)" "foldSurface (es @ y) = Inr (ns, rs)" "es1 = es @ y @ z"
    and fold: "foldSurface es1 = Inr (ns1, rs1)"
    and meter: "\<And>es ns rs. foldSurface es = Inr (ns, rs) \<Longrightarrow> map pn_seq (ce_measure env es) = ns"
    and stable: "(if co_wholeSurface opts then assertWholeSurfaceUnchanged env (ce_measure env (es @ y)) es1
      else assertSelectedSpanStable env sel selected es1) = Inr ()"
  obtains i j where "indexOf ns1 start = Some i" "indexOf ns1 stop = Some j" "i \<le> j" "j < length ns1"
    "balanced_span es1 (take i ns1) (sl_shadowedSeqs sel) (drop (j + 1) ns1)"
proof (cases "co_wholeSurface opts")
  case True
  then have "ce_measure env es1 = ce_measure env (es @ y)"
    using stable by (simp add: assertWholeSurfaceUnchanged_def split: if_splits)
  then have same: "ns1 = ns" using meter [OF fold] meter [OF grown(3)] by simp
  obtain st rs0 where v: "fold_window es 0 = Inr (st, rs0)" "indexOf (nodes st) start = Some (sl_startIdx sel)"
    "indexOf (nodes st) stop = Some (sl_endIdx sel)" "sl_startIdx sel \<le> sl_endIdx sel" "sl_endIdx sel < length (nodes st)"
    "nodes st = take (sl_startIdx sel) (nodes st) @ sl_shadowedSeqs sel @ drop (sl_endIdx sel + 1) (nodes st)"
    "balanced_span es (take (sl_startIdx sel) (nodes st)) (sl_shadowedSeqs sel) (drop (sl_endIdx sel + 1) (nodes st))"
    using validated_span [OF sel] by metis
  have "nodes st = ns1" using v(1) grown(2) same by (simp add: foldSurface_def)
  with v fold grown(1) show ?thesis
    by (intro that [of "sl_startIdx sel" "sl_endIdx sel"]) (auto intro: balanced_span_grows)
next
  case False
  then obtain now where now: "validateSurfaceRegion es1 (sl_start sel) (sl_end sel) = Inr now" "sl_shadowedSeqs now = sl_shadowedSeqs sel"
    using stable by (auto simp: assertSelectedSpanStable_def split: sum.splits if_splits)
  have ends: "sl_start sel = start" "sl_end sel = stop" using validated_span [OF sel] by metis+
  obtain st rs0 where v: "fold_window es1 0 = Inr (st, rs0)" "indexOf (nodes st) start = Some (sl_startIdx now)"
    "indexOf (nodes st) stop = Some (sl_endIdx now)" "sl_startIdx now \<le> sl_endIdx now" "sl_endIdx now < length (nodes st)"
    "balanced_span es1 (take (sl_startIdx now) (nodes st)) (sl_shadowedSeqs now) (drop (sl_endIdx now + 1) (nodes st))"
    using validated_span [OF now(1)] ends by metis
  have "nodes st = ns1" using v(1) fold by (simp add: foldSurface_def)
  with v now(2) show ?thesis by (intro that [of "sl_startIdx now" "sl_endIdx now"]) auto
qed

lemma slice_ends:
  assumes "i \<le> j" "j < length xs"
  shows "hd (slice xs i (j + 1)) = xs ! i \<and> last (slice xs i (j + 1)) = xs ! j"
proof -
  have "length xs - Suc 0 = j" if "length xs - i \<le> Suc j - i" using that assms by linarith
  with assms show ?thesis by (simp add: slice_def hd_drop_conv_nth last_conv_nth hd_take min_def)
qed

text \<open>The checkpoint takes the place of the span.\<close>

lemma checkpoint_span:
  assumes span: "balanced_span pre A sh C"
    and es': "es' = pre @ [e1, e2, e3]" "foldSurface es' = Inr (A @ [length pre + 1] @ C, rs)"
    and e2: "ev_data e2 = UserMessage m" "ev_seq e2 = length pre + 1"
  shows "balanced_span es' A [length pre + 1] C"
proof -
  obtain a c n where "scan_tail (event_at pre 0) 0 A = Inr (a, 0)" "scan_tail (event_at pre 0) 0 C = Inr (c, n)"
    using span unfolding balanced_span_def by blast
  then have "scan_tail (event_at es' 0) 0 A = Inr (a, 0)" "scan_tail (event_at es' 0) 0 C = Inr (c, n)"
    using scan_tail_mono [OF event_at_append] es'(1) by blast+
  moreover have "event_at es' 0 (length pre + 1) = Some e2" by (simp add: es'(1) event_at_def nth_append)
  then have "scan_tail (event_at es' 0) 0 [length pre + 1] = Inr ([True], 0)"
    using e2 by (simp add: eventDelta_def)
  ultimately show ?thesis using es'(2) unfolding balanced_span_def by blast
qed


section \<open>Failure\<close>

abbreviation start_marker :: "compaction_env \<Rightarrow> session_event list \<Rightarrow> session_event" where
  "start_marker env es \<equiv> log_event (length es) (ce_now env) (OtherEvent ''compaction/start'')"

abbreviation summary_data :: event_data where
  "summary_data \<equiv> OtherEvent ''compaction/summary''"

abbreviation end_data :: event_data where
  "end_data \<equiv> OtherEvent ''compaction/end''"

text \<open>Appends that leave the surface alone.\<close>

definition leaves_surface :: "session_event list \<Rightarrow> session_event list \<Rightarrow> bool" where
  "leaves_surface es es' \<longleftrightarrow> (\<forall>ns rs. foldSurface es = Inr (ns, rs) \<longrightarrow> foldSurface es' = Inr (ns, rs))"

lemma leaves_surface_refl [simp]: "leaves_surface es es"
  by (simp add: leaves_surface_def)

lemma append_log_leaves:
  assumes "compaction_append env (OtherEvent k) JUndef JUndef es = (es', r)"
  shows "leaves_surface es es' \<and> (case r of Inl err \<Rightarrow> es' = es \<and> err = AppendFailed | Inr i \<Rightarrow> \<exists>e. es' = es @ [e] \<and> ev_data e = OtherEvent k)"
proof (cases r)
  case (Inl err)
  with compaction_append_Inl [OF assms [unfolded Inl]] show ?thesis by (simp add: leaves_surface_def)
next
  case (Inr i)
  with compaction_append_Inr [OF assms [unfolded Inr]] append_log_nodes [OF assms [unfolded Inr]] show ?thesis
    by (auto simp: leaves_surface_def)
qed

lemma commit_shape:
  assumes "commitCompactionBody env sel k m es = (es', r)"
  shows "\<exists>tail. es' = es @ tail \<and> (case r of
     Inl err \<Rightarrow> err = AppendFailed \<and> map ev_data tail \<in> {[], [summary_data]} \<and> leaves_surface es es'
   | Inr i \<Rightarrow> map ev_data tail = [summary_data, UserMessage m])"
proof (cases "compaction_append env summary_data JUndef JUndef es")
  case (Pair es1 a)
  note one = append_log_leaves [OF Pair]
  show ?thesis
  proof (cases a)
    case (Inl err)
    from assms Pair Inl have "es' = es1" "r = Inl err" by (simp_all add: commitCompactionBody_def)
    with one Inl show ?thesis by (intro exI [of _ "[]"]) simp
  next
    case (Inr i)
    with one obtain e where e: "es1 = es @ [e]" "ev_data e = summary_data" by auto
    obtain es2 b where two: "compaction_append env (UserMessage m) (replace_op sel)
       (JArr (map (\<lambda>s. JNum (js_int (int s))) (k # i # sl_shadowedSeqs sel))) es1 = (es2, b)" by fastforce
    have r: "es' = es2" "r = (case b of Inl err \<Rightarrow> Inl err | Inr j \<Rightarrow> Inr i)"
      using assms Pair Inr two by (auto simp: commitCompactionBody_def then_run_def split: sum.splits)
    show ?thesis
    proof (cases b)
      case (Inl err)
      with compaction_append_Inl [OF two [unfolded Inl]] r e one show ?thesis by (intro exI [of _ "[e]"]) simp
    next
      case (Inr j)
      obtain e2 where "es2 = es1 @ [e2]" "ev_data e2 = UserMessage m"
        using compaction_append_Inr [OF two [unfolded Inr]] by auto
      with r e Inr show ?thesis by (intro exI [of _ "[e, e2]"]) simp
    qed
  qed
qed

lemma body_shape:
  assumes "compaction_body env opts sel k es = (es', r)"
  shows "\<exists>mid tail. es' = (es @ mid) @ tail \<and> (returns (foldSurface es) \<longrightarrow> returns (foldSurface (es @ mid))) \<and> (case r of
     Inl f \<Rightarrow> map ev_data tail \<in> {[], [summary_data]} \<and> leaves_surface (es @ mid) es'
   | Inr x \<Rightarrow> \<exists>m. map ev_data tail = [summary_data, UserMessage m])"
proof (cases "prepareCompaction env sel es")
  case (Inl err)
  with assms show ?thesis by (intro exI [of _ "[]"]) (auto simp: compaction_body_def leaves_surface_def)
next
  case (Inr selected)
  obtain mid where mid: "meanwhile env es = es @ mid" "returns (foldSurface es) \<longrightarrow> returns (foldSurface (es @ mid))"
    using meanwhile_grows by metis
  have "(\<exists>f. r = Inl f) \<and> es' = es @ mid \<or> (\<exists>m c. commitCompactionBody env sel k m (es @ mid) = (es', c)
      \<and> ((\<exists>err. c = Inl err) \<longleftrightarrow> (\<exists>f. r = Inl f)))"
    using assms Inr mid(1) by (auto simp: compaction_body_def Let_def split: sum.splits if_splits prod.splits)
  then show ?thesis
  proof (elim disjE exE conjE)
    fix f assume "r = Inl f" "es' = es @ mid"
    with mid(2) show ?thesis by (intro exI [of _ mid] exI [of _ "[]"]) (simp add: leaves_surface_def)
  next
    fix m c assume c: "commitCompactionBody env sel k m (es @ mid) = (es', c)" "(\<exists>err. c = Inl err) \<longleftrightarrow> (\<exists>f. r = Inl f)"
    from commit_shape [OF c(1)] obtain tail where "es' = (es @ mid) @ tail" "case c of
       Inl err \<Rightarrow> err = AppendFailed \<and> map ev_data tail \<in> {[], [summary_data]} \<and> leaves_surface (es @ mid) es'
     | Inr i \<Rightarrow> map ev_data tail = [summary_data, UserMessage m]"
      by blast
    with c(2) mid(2) show ?thesis by (intro exI [of _ mid] exI [of _ tail]) (cases c; cases r; auto)
  qed
qed


section \<open>The compaction lock\<close>

definition is_bracket :: "session_event \<Rightarrow> bool" where
  "is_bracket e \<longleftrightarrow> ev_data e \<in> {OtherEvent ''compaction/start'', end_data}"

definition is_seed :: "session_event \<Rightarrow> bool" where
  "is_seed e \<longleftrightarrow> ev_data e = EndSeed"

lemma inspect_event_fields:
  "en_endSeed (inspect_event e s) = (if en_endSeed s = None \<and> is_seed e then Some (ev_seq e) else en_endSeed s)"
  "en_entryKnown (inspect_event e s) = (en_entryKnown s \<or> is_bracket e)"
  "en_unmatchedStart (inspect_event e s) =
     (if \<not> en_entryKnown s \<and> ev_data e = OtherEvent ''compaction/start'' then Some (ev_seq e) else en_unmatchedStart s)"
  by (auto simp: inspect_event_def Let_def is_bracket_def is_seed_def split: event_data.splits)

text \<open>The scan with its early exit answers as separate searches do.\<close>

lemma inspect_loop_seed:
  assumes "i \<le> length es"
  shows "en_endSeed (inspect_loop es i s) = (case en_endSeed s of
     Some q \<Rightarrow> Some q | None \<Rightarrow> map_option ev_seq (find is_seed (rev (take i es))))"
  using assms
proof (induction i arbitrary: s)
  case (Suc i)
  then have "rev (take (Suc i) es) = es ! i # rev (take i es)" by (simp add: take_Suc_conv_app_nth)
  with Suc show ?case by (simp add: Let_def inspect_event_fields split: option.splits)
qed (simp split: option.splits)

lemma inspect_loop_bracket:
  assumes "i \<le> length es" "\<not> en_entryKnown s" "en_unmatchedStart s = None"
  shows "en_unmatchedStart (inspect_loop es i s) = (case find is_bracket (rev (take i es)) of
     Some e \<Rightarrow> if ev_data e = OtherEvent ''compaction/start'' then Some (ev_seq e) else None | None \<Rightarrow> None)"
  using assms
proof (induction i arbitrary: s)
  case (Suc i)
  have known: "en_unmatchedStart (inspect_loop es k s) = en_unmatchedStart s" if "en_entryKnown s" for k s
    using that by (induction k arbitrary: s) (auto simp: Let_def inspect_event_fields)
  from Suc have "rev (take (Suc i) es) = es ! i # rev (take i es)" by (simp add: take_Suc_conv_app_nth)
  with Suc show ?case by (auto simp: Let_def inspect_event_fields known is_bracket_def)
qed simp

lemma find_rev_Some: "find P (rev xs) = Some z \<longleftrightarrow> (\<exists>pre post. xs = pre @ z # post \<and> P z \<and> (\<forall>y \<in> set post. \<not> P y))"
proof
  assume "find P (rev xs) = Some z"
  then obtain i where i: "i < length xs" "P z" "z = rev xs ! i" "\<And>j. j < i \<Longrightarrow> \<not> P (rev xs ! j)"
    by (auto simp: find_Some_iff)
  then have split: "rev xs = take i (rev xs) @ z # drop (Suc i) (rev xs)" by (simp add: id_take_nth_drop)
  have "\<forall>y \<in> set (take i (rev xs)). \<not> P y" using i(1,4) by (auto simp: in_set_conv_nth)
  moreover have "xs = rev (drop (Suc i) (rev xs)) @ z # rev (take i (rev xs))"
    using arg_cong [OF split, of rev] by simp
  ultimately show "\<exists>pre post. xs = pre @ z # post \<and> P z \<and> (\<forall>y \<in> set post. \<not> P y)" using i(2) by (metis set_rev)
next
  assume "\<exists>pre post. xs = pre @ z # post \<and> P z \<and> (\<forall>y \<in> set post. \<not> P y)"
  then obtain pre post where xs: "xs = pre @ z # post" "P z" "\<forall>y \<in> set post. \<not> P y" by blast
  have "find P (ys @ z # zs) = Some z" if "\<forall>y \<in> set ys. \<not> P y" for ys zs
    using that xs(2) by (induction ys) auto
  with xs(3) show "find P (rev xs) = Some z" by (simp add: xs(1))
qed

text \<open>A log is locked by an opening marker with no closing marker and no seed boundary after it.\<close>

definition compaction_locked :: "session_event list \<Rightarrow> bool" where
  "compaction_locked es \<longleftrightarrow> (\<exists>pre s mid. es = pre @ s # mid \<and> ev_data s = OtherEvent ''compaction/start''
     \<and> (\<forall>e \<in> set mid. ev_data e \<noteq> end_data \<and> \<not> is_seed e))"

lemma locked_last_start:
  assumes "compaction_locked es"
  obtains pre z mid where "es = pre @ z # mid" "ev_data z = OtherEvent ''compaction/start''"
    "\<forall>e \<in> set mid. \<not> is_bracket e \<and> \<not> is_seed e"
proof -
  obtain pre s mid where es: "es = pre @ s # mid" "ev_data s = OtherEvent ''compaction/start''"
    and mid: "\<forall>e \<in> set mid. ev_data e \<noteq> end_data \<and> \<not> is_seed e"
    using assms by (auto simp: compaction_locked_def)
  show ?thesis
  proof (cases "find is_bracket (rev mid)")
    case None
    with es mid show ?thesis by (intro that [of pre s mid]) (auto simp: find_None_iff)
  next
    case (Some z)
    then obtain a b where "mid = a @ z # b" "is_bracket z" "\<forall>e \<in> set b. \<not> is_bracket e"
      by (auto simp: find_rev_Some)
    with es mid show ?thesis by (intro that [of "pre @ s # a" z b]) (auto simp: is_bracket_def)
  qed
qed

lemma lock_answer:
  assumes seqs: "\<And>i. i < length es \<Longrightarrow> ev_seq (es ! i) = i"
  shows "assertCompactionInactive (inspectCompactionEntryState es) = (if compaction_locked es then Inl CompactionActive else Inr ())"
proof -
  have state: "en_unmatchedStart (inspectCompactionEntryState es) = (case find is_bracket (rev es) of
      Some e \<Rightarrow> if ev_data e = OtherEvent ''compaction/start'' then Some (ev_seq e) else None | None \<Rightarrow> None)"
    "en_endSeed (inspectCompactionEntryState es) = map_option ev_seq (find is_seed (rev es))"
    by (simp_all add: inspectCompactionEntryState_def inspect_loop_bracket inspect_loop_seed)
  have seq: "ev_seq z = length pre" if "es = pre @ z # post" for pre z post
    using seqs [of "length pre"] that by simp
  show ?thesis
  proof (cases "compaction_locked es")
    case True
    then obtain pre z mid where z: "es = pre @ z # mid" "ev_data z = OtherEvent ''compaction/start''"
      and mid: "\<forall>e \<in> set mid. \<not> is_bracket e \<and> \<not> is_seed e" by (rule locked_last_start)
    then have "is_bracket z" by (simp add: is_bracket_def)
    with z(1) mid have bracket: "find is_bracket (rev es) = Some z" unfolding find_rev_Some by blast
    have "\<not> ev_seq q > ev_seq z" if "find is_seed (rev es) = Some q" for q
    proof
      assume less: "ev_seq q > ev_seq z"
      from that obtain a b where q: "es = a @ q # b" "is_seed q" by (auto simp: find_rev_Some)
      with less z seq have "length pre < length a" by metis
      moreover from q z have "q = (pre @ z # mid) ! length a" by (metis nth_append_length)
      moreover have "length a < length (pre @ z # mid)" using q z by (metis length_append less_add_same_cancel1 length_greater_0_conv list.distinct(1))
      ultimately have "q \<in> set mid" by (auto simp: nth_append nth_Cons split: nat.splits)
      with mid q show False by blast
    qed
    with True state bracket z show ?thesis by (auto simp: assertCompactionInactive_def split: option.splits)
  next
    case False
    have "\<exists>q. find is_seed (rev es) = Some q \<and> ev_seq q > ev_seq z"
      if b: "find is_bracket (rev es) = Some z" "ev_data z = OtherEvent ''compaction/start''" for z
    proof -
      obtain pre post where z: "es = pre @ z # post" "\<forall>e \<in> set post. \<not> is_bracket e"
        using b(1) by (auto simp: find_rev_Some)
      have "\<exists>e \<in> set post. is_seed e"
      proof (rule ccontr)
        assume "\<not> (\<exists>e \<in> set post. is_seed e)"
        with z b(2) have "compaction_locked es"
          unfolding compaction_locked_def by (intro exI [of _ pre], intro exI [of _ z], intro exI [of _ post]) (auto simp: is_bracket_def)
        with False show False by simp
      qed
      then obtain e where "e \<in> set post" "is_seed e" by blast
      then have "find is_seed (rev post) \<noteq> None" by (auto simp: find_None_iff)
      then obtain q where "find is_seed (rev post) = Some q" by blast
      then obtain a c where q: "post = a @ q # c" "is_seed q" "\<forall>y \<in> set c. \<not> is_seed y" by (auto simp: find_rev_Some)
      with z have es: "es = (pre @ z # a) @ q # c" by simp
      with q have "find is_seed (rev es) = Some q" unfolding find_rev_Some by blast
      moreover have "ev_seq q = length (pre @ z # a)" using seq [OF es] .
      moreover have "ev_seq z = length pre" using seq [OF z(1)] .
      ultimately show ?thesis by simp
    qed
    with False state show ?thesis by (auto simp: assertCompactionInactive_def split: option.splits)
  qed
qed

text \<open>C23: The opening marker is the compaction lock. The check refuses exactly the logs that end in a compaction
  which was opened and neither closed nor cut off by a seed boundary; while a log is in that state no
  compaction of any kind starts, whatever the region and whatever else was appended meanwhile, and the log
  is left untouched.\<close>

theorem compaction_lock_exact:
  assumes "foldSurface es = Inr r"
  shows "assertNoActiveCompaction es = (if compaction_locked es then Inl CompactionActive else Inr ())
    \<and> (compaction_locked es \<longrightarrow> (\<exists>err. compactSurfaceRegion env opts start stop es = (es, Inl err)))"
proof -
  obtain acc where "fold_prefix es 0 (length es) = Inr acc"
    using assms by (auto simp: foldSurface_def fold_prefix_window res_simps)
  then have "assertCompactionInactive (inspectCompactionEntryState es) = (if compaction_locked es then Inl CompactionActive else Inr ())"
    using fold_prefix_seqs [of es 0 "length es"] by (intro lock_answer) fastforce
  then show ?thesis
    by (auto simp: compactSurfaceRegion_def entry_checks_def assertNoActiveCompaction_def Let_def res_simps split: sum.splits if_splits)
qed

section \<open>A small conversation\<close>

text \<open>A question, a step with one tool call and its result, and an answer, in an open turn.\<close>

definition sample_surface_event :: "nat \<Rightarrow> event_data \<Rightarrow> session_event" where
  "sample_surface_event k d = \<lparr>ev_seq = k, ev_time = 0, ev_data = d, ev_surfaceOp = JStr ''append'', ev_sources = JUndef\<rparr>"

definition sample_note :: "string \<Rightarrow> event_data" where
  "sample_note i = UserMessage \<lparr>um_id = i, um_source = SrcUser, um_content = JUndef\<rparr>"

definition sample_conversation :: "session_event list" where
  "sample_conversation = [log_event 0 0 (TurnStart 1), sample_surface_event 1 (sample_note ''a''),
     sample_surface_event 2 (AssistantMessage 1 0 [ToolCallBlock ''c'']),
     sample_surface_event 3 (ToolResult \<lparr>tr_turn = 1, tr_step = 0, tr_messageId = ''r'', tr_callId = ''c'', tr_toolCallId = ''c'',
        tr_isError = None, tr_content = JUndef, tr_error = None, tr_meta = None\<rparr>),
     sample_surface_event 4 (sample_note ''b'')]"

definition sample_measure :: "session_event list \<Rightarrow> priced_node list" where
  "sample_measure es = (case foldSurface es of
     Inl err \<Rightarrow> [] | Inr (ns, rs) \<Rightarrow> map (\<lambda>s. \<lparr>pn_seq = s, pn_tokens = 10, pn_heuristicTokens = 10\<rparr>) ns)"

definition sample_compaction_env :: "bool option \<Rightarrow> compaction_env" where
  "sample_compaction_env flush = \<lparr>ce_now = 1, ce_admits = \<lambda>es d. True, ce_measure = sample_measure, ce_summarize = \<lambda>ms. Inr JUndef,
     ce_meanwhile = [(sample_note ''c'', JStr ''append'', JUndef)], ce_messageId = ''s'', ce_estimate = \<lambda>m. 5,
     ce_abortedFirst = False, ce_abortedSummarized = False, ce_abortedLast = False, ce_flush = flush\<rparr>"

lemma sample_meter: "\<forall>es ns rs. foldSurface es = Inr (ns, rs) \<longrightarrow> map pn_seq (ce_measure (sample_compaction_env f) es) = ns"
  by (simp add: sample_compaction_env_def sample_measure_def o_def)

lemma sample_range:
  "selectCompactableRange sample_conversation (sample_measure sample_conversation) 10 = Inr (Some (1, 3))"
  "selectCompactableRange sample_conversation (sample_measure sample_conversation) 20 = Inr (Some (1, 1))"
  by code_simp+

lemma sample_compacts:
  "compactSurfaceRegion (sample_compaction_env None) \<lparr>co_manual = False, co_wholeSurface = False\<rparr> 1 3 sample_conversation =
     (fst (compactSurfaceRegion (sample_compaction_env None) \<lparr>co_manual = False, co_wholeSurface = False\<rparr> 1 3 sample_conversation),
      Inr \<lparr>cr_startSeq = 5, cr_summarySeq = 7, cr_endSeq = 9, cr_shadowed = [1, 2, 3], cr_shadowedTokenCount = 30\<rparr>)"
  by code_simp

lemma sample_compaction_fails:
  "compactSurfaceRegion (sample_compaction_env None) \<lparr>co_manual = False, co_wholeSurface = True\<rparr> 1 3 sample_conversation =
     (fst (compactSurfaceRegion (sample_compaction_env None) \<lparr>co_manual = False, co_wholeSurface = True\<rparr> 1 3 sample_conversation),
      Inl SurfaceChanged)"
  by code_simp

lemma sample_folds:
  "foldSurface sample_conversation = Inr ([1, 2, 3, 4], [])"
  "foldSurface (sample_conversation @ [log_event 5 1 (OtherEvent ''compaction/start'')]) = Inr ([1, 2, 3, 4], [])"
  by code_simp+

lemma selected_range_retains_witness:
  "\<exists>sel k. validateSurfaceRegion sample_conversation 1 1 = Inr sel \<and> sl_startIdx sel = 0 \<and> 0 < k \<and> k < 4
     \<and> sl_shadowedSeqs sel = map pn_seq (take k (sample_measure sample_conversation))
     \<and> 20 \<le> sum_list (map pn_tokens (drop k (sample_measure sample_conversation)))"
proof -
  have "length (sample_measure sample_conversation) = 4" by (simp add: sample_measure_def sample_folds)
  then show ?thesis using selected_range_retains [OF sample_range(2)] by simp
qed



lemma compaction_lock_exact_witness:
  "\<exists>err. compactSurfaceRegion (sample_compaction_env None) \<lparr>co_manual = False, co_wholeSurface = False\<rparr> 1 3
       (sample_conversation @ [log_event 5 1 (OtherEvent ''compaction/start'')])
     = (sample_conversation @ [log_event 5 1 (OtherEvent ''compaction/start'')], Inl err)"
proof -
  have "compaction_locked (sample_conversation @ [log_event 5 1 (OtherEvent ''compaction/start'')])"
    unfolding compaction_locked_def by (intro exI [of _ sample_conversation] exI [of _ "[]"] exI conjI) (auto simp: log_event_def)
  then show ?thesis
    using compaction_lock_exact [OF sample_folds(2), of "sample_compaction_env None" "\<lparr>co_manual = False, co_wholeSurface = False\<rparr>" 1 3] by simp
qed

end
