(* ===== verification/Seq_Ranges.thy ===== *)
theory Seq_Ranges
  imports Js_Value
begin

text \<open>
  The storage form of source sequences, \<^verbatim>\<open>packages/core/session/src/seq-ranges.ts\<close>: runs of at
  least three consecutive sequence numbers are stored as inclusive pairs. The encoder works on
  validated sequences (natural numbers), the decoder on whatever a log file holds. The theorems are
  the round trip, and what the decoder guarantees about everything it accepts.
\<close>

section \<open>Encoder\<close>

definition isStrictlyIncreasing :: "nat list \<Rightarrow> bool" where
  "isStrictlyIncreasing xs = list_all (\<lambda>i. i = 0 \<or> xs ! i > xs ! (i - 1)) [0..<length xs]"

definition js_nat :: "nat \<Rightarrow> jsval" where
  "js_nat n = JNum (js_int (int n))"

text \<open>The inner \<open>while\<close>: the last index of the consecutive run that starts at \<open>end\<close>.\<close>

function run_end :: "nat list \<Rightarrow> nat \<Rightarrow> nat" where
  "run_end xs i = (if i + 1 < length xs \<and> xs ! (i + 1) = xs ! i + 1 then run_end xs (i + 1) else i)"
  by auto
termination by (relation "measure (\<lambda>(xs, i). length xs - i)") auto

declare run_end.simps [simp del]

lemma run_end_ge: "i \<le> run_end xs i"
  by (induction xs i rule: run_end.induct) (subst run_end.simps, auto)

text \<open>The outer loop, from index \<open>start\<close>.\<close>

function encode_from :: "nat list \<Rightarrow> nat \<Rightarrow> jsval list" where
  "encode_from xs start =
     (if start < length xs then
        let e = run_end xs start in
        (if e - start \<ge> 2 then [JArr [js_nat (xs ! start), js_nat (xs ! e)]]
         else map (\<lambda>i. js_nat (xs ! i)) [start..<e + 1]) @ encode_from xs (e + 1)
      else [])"
  by auto
termination
proof (relation "measure (\<lambda>(xs, i). length xs - i)")
  show "start < length xs \<Longrightarrow> e = run_end xs start \<Longrightarrow>
      ((xs, e + 1), (xs, start)) \<in> measure (\<lambda>(xs, i). length xs - i)" for xs start e
    using run_end_ge [of start xs] by auto
qed simp

declare encode_from.simps [simp del]

definition encodeSeqRanges :: "nat list \<Rightarrow> jsval list" where
  "encodeSeqRanges xs = (if \<not> isStrictlyIncreasing xs then map js_nat xs else encode_from xs 0)"

section \<open>Decoder\<close>

datatype seq_range_error =
    NotArray | ExceedsEvent | NotPair | StartAfterEnd | RangeExceedsEvent | NotIncreasing
  | NotSafeSeq | NegativeZeroSeq  \<comment> \<open>the last one is thrown by the \<open>SessionSeq\<close> brand\<close>

definition assertSeq :: "jsval \<Rightarrow> seq_range_error + js_number" where
  "assertSeq v = (case v of
     JNum n \<Rightarrow> (if \<not> is_safe_integer n \<or> int_of_number n < 0 then Inl NotSafeSeq else Inr n)
   | _ \<Rightarrow> Inl NotSafeSeq)"

definition SessionSeq :: "js_number \<Rightarrow> seq_range_error + nat" where
  "SessionSeq n = (if n = NegZero then Inl NegativeZeroSeq
     else if \<not> is_safe_integer n \<or> int_of_number n < 0 then Inl NotSafeSeq
     else Inr (nat (int_of_number n)))"

text \<open>One entry of the array: the sequences it adds, and whether it is a range. The loop over the
  range brands its first number, which throws on a negative zero, and then the numbers up to the
  end, whose sign does not matter.\<close>

definition decode_entry :: "nat \<Rightarrow> nat \<Rightarrow> jsval \<Rightarrow> seq_range_error + (nat list \<times> bool)" where
  "decode_entry maxEntries len v = (case v of
     JNum n \<Rightarrow> bind_res (assertSeq v) (\<lambda>n.
       if len \<ge> maxEntries then Inl ExceedsEvent
       else bind_res (SessionSeq n) (\<lambda>s. Inr ([s], False)))
   | JArr [a, b] \<Rightarrow> bind_res (assertSeq a) (\<lambda>start. bind_res (assertSeq b) (\<lambda>stop.
       let i = int_of_number start; j = int_of_number stop in
       if j < i then Inl StartAfterEnd
       else if j - i + 1 > int maxEntries - int len then Inl RangeExceedsEvent
       else bind_res (SessionSeq start) (\<lambda>s. Inr ([s..<nat j + 1], True))))
   | _ \<Rightarrow> Inl NotPair)"

fun decode_loop :: "nat \<Rightarrow> nat list \<Rightarrow> bool \<Rightarrow> jsval list \<Rightarrow> seq_range_error + (nat list \<times> bool)" where
  "decode_loop maxEntries decoded hasRange [] = Inr (decoded, hasRange)"
| "decode_loop maxEntries decoded hasRange (v # vs) =
     bind_res (decode_entry maxEntries (length decoded) v) (\<lambda>(added, range).
       decode_loop maxEntries (decoded @ added) (hasRange \<or> range) vs)"

definition decodeSeqRanges :: "jsval \<Rightarrow> nat \<Rightarrow> seq_range_error + nat list" where
  "decodeSeqRanges v maxEntries = (case v of
     JArr vs \<Rightarrow> bind_res (decode_loop maxEntries [] False vs) (\<lambda>(decoded, hasRange).
       if hasRange \<and> \<not> isStrictlyIncreasing decoded then Inl NotIncreasing else Inr decoded)
   | _ \<Rightarrow> Inl NotArray)"

section \<open>Runs\<close>

definition safe_seq :: "nat \<Rightarrow> bool" where
  "safe_seq n \<longleftrightarrow> int n \<le> max_safe_integer"

lemma run_end_less: "i < length xs \<Longrightarrow> run_end xs i < length xs"
  by (induction xs i rule: run_end.induct) (subst run_end.simps, auto)

lemma run_end_run: "i \<le> k \<Longrightarrow> k \<le> run_end xs i \<Longrightarrow> xs ! k = xs ! i + (k - i)"
proof (induction xs i arbitrary: k rule: run_end.induct)
  case (1 xs i)
  show ?case
  proof (cases "k = i")
    case False
    with "1.prems" have "i + 1 \<le> k" and "run_end xs i \<noteq> i" by auto
    then have more: "i + 1 < length xs \<and> xs ! (i + 1) = xs ! i + 1"
      by (metis run_end.simps)
    then have "run_end xs i = run_end xs (i + 1)" by (simp add: run_end.simps [of xs i])
    with "1.IH" [OF more, of k] "1.prems" \<open>i + 1 \<le> k\<close> more show ?thesis by simp
  qed simp
qed

lemma run_as_upt:
  assumes "i < length xs"
  shows "map ((!) xs) [i..<run_end xs i + 1] = [xs ! i..<xs ! run_end xs i + 1]"
proof (rule nth_equalityI)
  have e: "xs ! run_end xs i = xs ! i + (run_end xs i - i)"
    using run_end_run [of i "run_end xs i" xs] run_end_ge by simp
  show "length (map ((!) xs) [i..<run_end xs i + 1]) = length [xs ! i..<xs ! run_end xs i + 1]"
    using e run_end_ge [of i xs] by (simp del: upt_Suc)
  fix j assume "j < length (map ((!) xs) [i..<run_end xs i + 1])"
  then have "j < run_end xs i + 1 - i" by (simp del: upt_Suc)
  with run_end_run [of i "i + j" xs] e
  show "map ((!) xs) [i..<run_end xs i + 1] ! j = [xs ! i..<xs ! run_end xs i + 1] ! j"
    by (simp del: upt_Suc)
qed

lemma take_run: "i \<le> e \<Longrightarrow> e < length xs \<Longrightarrow> take i xs @ map ((!) xs) [i..<e + 1] = take (e + 1) xs"
  by (rule nth_equalityI) (auto simp: nth_append min_def simp del: upt_Suc)

section \<open>Decoding what was encoded\<close>

lemma decode_loop_append:
  "decode_loop m ds r (vs @ ws) =
     bind_res (decode_loop m ds r vs) (\<lambda>(ds', r'). decode_loop m ds' r' ws)"
  by (induction vs arbitrary: ds r) (simp_all add: bind_res_assoc case_prod_unfold)

lemma SessionSeq_nat: "safe_seq n \<Longrightarrow> SessionSeq (js_int (int n)) = Inr n"
  by (simp add: SessionSeq_def safe_seq_def safe_int_def)

lemma assertSeq_nat: "safe_seq n \<Longrightarrow> assertSeq (js_nat n) = Inr (js_int (int n))"
  by (simp add: assertSeq_def js_nat_def safe_seq_def safe_int_def)

lemma decode_entry_single:
  "safe_seq n \<Longrightarrow> len < m \<Longrightarrow> decode_entry m len (js_nat n) = Inr ([n], False)"
  using assertSeq_nat [of n] by (simp add: decode_entry_def js_nat_def SessionSeq_nat)

lemma decode_entry_range:
  "safe_seq a \<Longrightarrow> safe_seq b \<Longrightarrow> a \<le> b \<Longrightarrow> len + (b - a) < m \<Longrightarrow>
     decode_entry m len (JArr [js_nat a, js_nat b]) = Inr ([a..<b + 1], True)"
  by (simp add: decode_entry_def assertSeq_nat SessionSeq_nat Let_def del: upt_Suc)

lemma decode_loop_singles:
  "\<forall>n \<in> set ns. safe_seq n \<Longrightarrow> length ds + length ns \<le> m \<Longrightarrow>
     decode_loop m ds r (map js_nat ns) = Inr (ds @ ns, r)"
  by (induction ns arbitrary: ds) (simp_all add: decode_entry_single)

lemma decode_encode_from:
  assumes "\<forall>n \<in> set xs. safe_seq n" and "length xs \<le> m" and "start \<le> length xs"
  shows "\<exists>r'. decode_loop m (take start xs) r (encode_from xs start) = Inr (xs, r')"
  using assms
proof (induction xs start arbitrary: r rule: encode_from.induct)
  case (1 xs start)
  note assms = "1.prems"(1,2)
  show ?case
  proof (cases "start < length xs")
    case True
    let ?e = "run_end xs start"
    let ?head = "if ?e - start \<ge> 2 then [JArr [js_nat (xs ! start), js_nat (xs ! ?e)]]
       else map (\<lambda>i. js_nat (xs ! i)) [start..<?e + 1]"
    have e: "start \<le> ?e" "?e < length xs" using run_end_ge run_end_less True by auto
    have "\<exists>r1. decode_loop m (take start xs) r ?head = Inr (take (?e + 1) xs, r1)"
    proof (cases "?e - start \<ge> 2")
      case True
      have safe: "safe_seq (xs ! i)" if "i < length xs" for i using assms(1) that by (meson nth_mem)
      have "xs ! ?e = xs ! start + (?e - start)" using run_end_run [of start ?e xs] e by simp
      moreover have "safe_seq (xs ! start)" "safe_seq (xs ! ?e)"
        using safe [of start] safe [of ?e] e by simp_all
      ultimately have
        "decode_entry m (length (take start xs)) (JArr [js_nat (xs ! start), js_nat (xs ! ?e)]) =
           Inr ([xs ! start..<xs ! ?e + 1], True)"
        using e assms(2) by (intro decode_entry_range) (simp_all, linarith?)
      with True run_as_upt [OF \<open>start < length xs\<close>] take_run [OF e]
      have "decode_loop m (take start xs) r ?head = Inr (take (?e + 1) xs, True)"
        by (simp del: upt_Suc)
      then show ?thesis by blast
    next
      case False
      have "set (map ((!) xs) [start..<?e + 1]) \<subseteq> set xs" using e by auto
      with assms e have "decode_loop m (take start xs) r (map js_nat (map ((!) xs) [start..<?e + 1])) =
          Inr (take start xs @ map ((!) xs) [start..<?e + 1], r)"
        by (intro decode_loop_singles) (auto simp del: upt_Suc)
      with False take_run [OF e] show ?thesis by (simp del: upt_Suc add: comp_def)
    qed
    then obtain r1 where head: "decode_loop m (take start xs) r ?head = Inr (take (?e + 1) xs, r1)" by blast
    have enc: "encode_from xs start = ?head @ encode_from xs (?e + 1)"
      using True by (simp add: encode_from.simps [of xs start] Let_def del: upt_Suc)
    from 1(1) [OF True refl assms, of r1] e show ?thesis
      unfolding enc decode_loop_append head by simp
  qed (use 1 in \<open>simp add: encode_from.simps\<close>)
qed

text \<open>C37: Storing validated source sequences and reading them back is lossless: whatever list of
  sequence numbers the event carries (increasing or not, with or without runs), the decoder with
  any sufficient entry bound returns exactly that list.\<close>

theorem seq_ranges_roundtrip:
  assumes "\<forall>n \<in> set xs. safe_seq n" and "length xs \<le> m"
  shows "decodeSeqRanges (JArr (encodeSeqRanges xs)) m = Inr xs"
proof (cases "isStrictlyIncreasing xs")
  case True
  obtain r' where "decode_loop m [] False (encode_from xs 0) = Inr (xs, r')"
    using decode_encode_from [OF assms, of 0 False] by auto
  with True show ?thesis by (simp add: decodeSeqRanges_def encodeSeqRanges_def)
next
  case False
  with decode_loop_singles [of xs "[]" m False] assms show ?thesis
    by (simp add: decodeSeqRanges_def encodeSeqRanges_def)
qed

lemma safe_seq_small: "n < 9007199254740992 \<Longrightarrow> safe_seq n"
  by (simp add: safe_seq_def max_safe_integer_def)

theorem seq_ranges_roundtrip_witness:
  "encodeSeqRanges [1, 4, 5, 6, 7, 9] = [js_nat 1, JArr [js_nat 4, js_nat 7], js_nat 9] \<and>
   decodeSeqRanges (JArr (encodeSeqRanges [1, 4, 5, 6, 7, 9])) 6 = Inr [1, 4, 5, 6, 7, 9]"
  using seq_ranges_roundtrip [of "[1, 4, 5, 6, 7, 9]" 6]
  by (simp add: safe_seq_small) code_simp

section \<open>Everything the decoder accepts\<close>

lemma decode_entry_sound:
  assumes "decode_entry m len v = Inr (ns, r)"
  shows "(\<forall>n \<in> set ns. safe_seq n) \<and> (len \<le> m \<longrightarrow> len + length ns \<le> m) \<and> ns \<noteq> []"
proof -
  have seq: "safe_seq k \<and> is_safe_integer n \<and> k = nat (int_of_number n) \<and> 0 \<le> int_of_number n"
    if "SessionSeq n = Inr k" for n k
    using that is_safe_int_of [of n] by (auto simp: SessionSeq_def safe_seq_def safe_int_def split: if_splits)
  show ?thesis
  proof (cases v)
    case (JNum n)
    with assms seq show ?thesis by (auto simp: decode_entry_def res_simps split: if_splits)
  next
    case (JArr vs)
    with assms obtain a b where v: "v = JArr [a, b]"
      by (auto simp: decode_entry_def split: list.splits)
    from assms v obtain i j s where "assertSeq a = Inr i" "assertSeq b = Inr j" and s: "SessionSeq i = Inr s"
      and ord: "int_of_number i \<le> int_of_number j"
      "int_of_number j - int_of_number i + 1 \<le> int m - int len" and ns: "ns = [s..<nat (int_of_number j) + 1]"
      by (auto simp: decode_entry_def res_simps Let_def not_less simp del: upt_Suc split: if_splits)
    moreover have "is_safe_integer j" using \<open>assertSeq b = Inr j\<close>
      by (auto simp: assertSeq_def split: jsval.splits if_splits)
    ultimately show ?thesis
      using seq [OF s] is_safe_int_of [of j] by (auto simp: safe_seq_def safe_int_def simp del: upt_Suc)
  qed (use assms in \<open>auto simp: decode_entry_def\<close>)
qed

lemma decode_loop_sound:
  "decode_loop m ds r vs = Inr (ns, r') \<Longrightarrow> \<forall>n \<in> set ds. safe_seq n \<Longrightarrow> length ds \<le> m \<Longrightarrow>
     (\<forall>n \<in> set ns. safe_seq n) \<and> length ns \<le> m \<and> length ds + length vs \<le> length ns"
proof (induction vs arbitrary: ds r)
  case (Cons v vs)
  then obtain added range where e: "decode_entry m (length ds) v = Inr (added, range)" and
    l: "decode_loop m (ds @ added) (r \<or> range) vs = Inr (ns, r')" by (auto simp: res_simps)
  have "1 \<le> length added" using decode_entry_sound [OF e] by (cases added) auto
  have "\<forall>n \<in> set (ds @ added). safe_seq n" "length (ds @ added) \<le> m"
    using decode_entry_sound [OF e] Cons.prems by auto
  from Cons.IH [OF l this] \<open>1 \<le> length added\<close> show ?case by auto
qed simp

text \<open>C38: Whatever a log file holds in place of the sources, a list that the decoder returns consists
  of sequence numbers that a session can have and respects the entry bound, and the stored form was
  not longer than the list it stands for.\<close>

theorem decoded_sources_sound:
  assumes "decodeSeqRanges v m = Inr ns"
  shows "(\<forall>n \<in> set ns. safe_seq n) \<and> length ns \<le> m \<and> (\<exists>vs. v = JArr vs \<and> length vs \<le> length ns)"
proof -
  from assms obtain vs r where "v = JArr vs" "decode_loop m [] False vs = Inr (ns, r)"
    by (auto simp: decodeSeqRanges_def res_simps split: jsval.splits if_splits)
  with decode_loop_sound [of m "[]" False vs ns r] show ?thesis by auto
qed

theorem decoded_sources_sound_witness:
  "length [2, 3, 4, 8 :: nat] \<le> 4 \<and>
   decodeSeqRanges (JArr [JArr [js_nat 2, js_nat 4], js_nat 8]) 4 = Inr [2, 3, 4, 8]"
proof -
  have d: "decodeSeqRanges (JArr [JArr [js_nat 2, js_nat 4], js_nat 8]) 4 = Inr [2, 3, 4, 8]" by code_simp
  with decoded_sources_sound [OF d] show ?thesis by simp
qed

end
