(* ===== verification/Envelope.thy ===== *)
theory Envelope
  imports Session_Log
begin

text \<open>
  The boundary where events enter a session as raw values,
  \<^verbatim>\<open>packages/core/session/src/index.ts\<close> and \<^verbatim>\<open>packages/util/values/src/index.ts\<close>: the
  lossless-JSON test, the event envelope, the shapes of messages and request headers, and the session
  header. \<open>view_event\<close> reads a raw event at the types the program declares for it; every modelled
  component consumes events through this view.
\<close>

section \<open>Lossless JSON\<close>

text \<open>\<open>snapshotJsonValue\<close> returns a copy exactly when the value is JSON that survives a round trip:
  no \<open>undefined\<close>, no NaN or infinity, no negative zero. The copy is the value itself here.\<close>

fun lossless :: "jsval \<Rightarrow> bool"
  and lossless_list :: "jsval list \<Rightarrow> bool"
  and lossless_fields :: "(string \<times> jsval) list \<Rightarrow> bool" where
  "lossless JUndef = False"
| "lossless JNull = True"
| "lossless (JBool b) = True"
| "lossless (JStr s) = True"
| "lossless (JNum n) = (is_finite n \<and> n \<noteq> NegZero)"
| "lossless (JArr vs) = lossless_list vs"
| "lossless (JObj fs) = lossless_fields fs"
| "lossless_list [] = True"
| "lossless_list (v # vs) = (lossless v \<and> lossless_list vs)"
| "lossless_fields [] = True"
| "lossless_fields ((k, v) # fs) = (lossless v \<and> lossless_fields fs)"

definition snapshotJsonValue :: "jsval \<Rightarrow> jsval option" where
  "snapshotJsonValue v = (if lossless v then Some v else None)"

section \<open>Event envelopes\<close>

datatype session_error =
    NotLossless | BadEnvelope nat | NotContiguousSeed nat | InvalidSeedEvent nat
  | LacksProviderModel | BadReasoningEffort | BadAdapterDefaults | BadReason | BadStartsSeries
  | BadSettlement | UnidentifiedMessage | WrongRole | BadSource | BadContent | NotModelSource
  | NotToolSource | NotOneResultBlock | MismatchedCallIds
  | HeaderNotRecord | HeaderSeedLength | HeaderVersion | HeaderId | HeaderCreatedAt | HeaderCwd
  | HeaderParent | HeaderSeeded | HeaderOrigin | HeaderDepth | HeaderPreset
  | SeedRequired | InheritedRequired | InheritedNonzero | InheritedTooLarge | InheritedNotSeed
  | BadSurfaceMetadata | Reentrant | SurfaceRejected | Vetoed

fun is_object :: "jsval \<Rightarrow> bool" where  \<comment> \<open>\<open>typeof v === 'object' && v !== null\<close>\<close>
  "is_object (JObj fs) = True"
| "is_object (JArr vs) = True"
| "is_object v = False"

fun is_array :: "jsval \<Rightarrow> bool" where
  "is_array (JArr vs) = True"
| "is_array v = False"

fun is_string :: "jsval \<Rightarrow> bool" where
  "is_string (JStr s) = True"
| "is_string v = False"

definition is_nonempty_string :: "jsval \<Rightarrow> bool" where
  "is_nonempty_string v \<longleftrightarrow> is_string v \<and> v \<noteq> JStr []"

fun is_safe_number :: "jsval \<Rightarrow> bool" where  \<comment> \<open>a number that is a safe integer\<close>
  "is_safe_number (JNum n) = is_safe_integer n"
| "is_safe_number v = False"

definition is_count :: "jsval \<Rightarrow> bool" where  \<comment> \<open>a safe integer, not negative and not negative zero\<close>
  "is_count v = (case v of JNum n \<Rightarrow> is_safe_integer n \<and> \<not> int_of_number n < 0 \<and> n \<noteq> NegZero | _ \<Rightarrow> False)"

definition hasProviderModel :: "jsval \<Rightarrow> bool" where
  "hasProviderModel v \<longleftrightarrow> is_object v \<and> is_nonempty_string (get v ''provider'')
     \<and> is_nonempty_string (get v ''model'')"

definition message_types :: "string list" where
  "message_types = [''user/message'', ''assistant/message'', ''tool/result'']"

definition assertMessageEventShape :: "jsval \<Rightarrow> session_error + unit" where
  "assertMessageEventShape event = (let type = get event ''type'' in
     if type \<notin> set (map JStr message_types) then Inr ()
     else
      let data = get event ''data'';
          message = (if type = JStr ''user/message'' then data else get data ''message'');
          source = get message ''source'';
          content = get message ''content'' in
      if \<not> is_object message \<or> \<not> is_string (get message ''id'') \<or> get message ''id'' = JStr []
      then Inl UnidentifiedMessage
      else if get message ''role'' \<noteq> JStr (if type = JStr ''assistant/message'' then ''assistant'' else ''user'')
      then Inl WrongRole
      else if \<not> is_object source \<or> \<not> is_string (get source ''kind'') \<or> get source ''kind'' = JStr []
      then Inl BadSource
      else if \<not> is_array content then Inl BadContent
      else if type = JStr ''assistant/message'' then
        if get source ''kind'' \<noteq> JStr ''model'' \<or> \<not> hasProviderModel source then Inl NotModelSource else Inr ()
      else if type \<noteq> JStr ''tool/result'' then Inr ()
      else if get source ''kind'' \<noteq> JStr ''tool'' \<or> \<not> is_string (get source ''callId'') \<or> get source ''callId'' = JStr []
      then Inl NotToolSource
      else case content of
          JArr [block] \<Rightarrow>
            (if \<not> is_object block \<or> get block ''type'' \<noteq> JStr ''tool-result'' \<or> \<not> is_array (get block ''content'')
             then Inl NotOneResultBlock
             else if get block ''toolCallId'' \<noteq> get source ''callId'' then Inl MismatchedCallIds
             else Inr ())
        | _ \<Rightarrow> Inl NotOneResultBlock)"

definition assertAssistantSettlementShape :: "jsval \<Rightarrow> session_error + unit" where
  "assertAssistantSettlementShape data =
     (if \<not> is_count (get data ''turn'') \<or> \<not> is_count (get data ''step'') \<or> \<not> is_array (get data ''stream'')
      then Inl BadSettlement else Inr ())"

definition allowedAdapterKeys :: "string list" where
  "allowedAdapterKeys = [''reasoningEffort'', ''maxTokens'']"

text \<open>\<open>value\<close> and \<open>config\<close>: the markers claim defaults for settings that the configuration has.\<close>

definition assertAdapterDefaults :: "jsval \<Rightarrow> jsval \<Rightarrow> session_error + unit" where
  "assertAdapterDefaults defaults config =
     (if defaults = JUndef then Inr ()
      else case defaults of
          JObj fs \<Rightarrow>
            (if list_ex (\<lambda>(k, v). k \<notin> set allowedAdapterKeys) fs
               \<or> list_ex (\<lambda>(k, v). v \<noteq> JBool True) fs
               \<or> get defaults ''reasoningEffort'' = JBool True \<and> get config ''reasoningEffort'' = JUndef
               \<or> get defaults ''maxTokens'' = JBool True \<and> get config ''maxTokens'' = JUndef
             then Inl BadAdapterDefaults else Inr ())
        | _ \<Rightarrow> Inl BadAdapterDefaults)"

definition assertRequestHeader :: "jsval \<Rightarrow> session_error + unit" where
  "assertRequestHeader data = (let header = get data ''header''; config = get header ''config'' in
     if \<not> hasProviderModel config then Inl LacksProviderModel
     else if get config ''reasoningEffort'' \<noteq> JUndef \<and> \<not> is_nonempty_string (get config ''reasoningEffort'')
     then Inl BadReasoningEffort
     else bind_res (assertAdapterDefaults (get header ''adapterDefaults'') config) (\<lambda>_.
       if get data ''reason'' \<notin> {JStr ''initial'', JStr ''resume'', JStr ''change'', JStr ''series''}
       then Inl BadReason
       else if get data ''startsSeries'' \<noteq> JUndef \<and> get data ''startsSeries'' \<noteq> JBool True
       then Inl BadStartsSeries else Inr ()))"

definition assertCurrentLlmShape :: "jsval \<Rightarrow> session_error + unit" where
  "assertCurrentLlmShape event = (let type = get event ''type''; data = get event ''data'' in
     bind_res (if type = JStr ''request/header'' then assertRequestHeader data else Inr ()) (\<lambda>_.
     if type = JStr ''assistant/attempt'' then assertAssistantSettlementShape data
     else if type \<notin> set (map JStr message_types) then Inr ()
     else bind_res (assertMessageEventShape event) (\<lambda>_.
       if type = JStr ''assistant/message'' then assertAssistantSettlementShape data else Inr ())))"

definition envelope_keys :: "string list" where
  "envelope_keys = [''type'', ''seq'', ''time'', ''data'', ''surfaceOp'', ''sourceEventSeqs'', ''ignorable'']"

definition checked_types :: "string list" where
  "checked_types = [''request/header'', ''user/message'', ''assistant/attempt'', ''assistant/message'', ''tool/result'']"

definition assertSessionEventEnvelope :: "jsval \<Rightarrow> nat \<Rightarrow> session_error + unit" where
  "assertSessionEventEnvelope event index =
     (if \<not> list_all (\<lambda>k. k \<in> set envelope_keys) (keys event) then Inl (BadEnvelope index)
      else if \<not> is_string (get event ''type'') \<or> \<not> is_count (get event ''seq'')
        \<or> \<not> is_safe_number (get event ''time'') \<or> get event ''data'' = JUndef
        \<or> get event ''ignorable'' \<noteq> JUndef \<and> get event ''ignorable'' \<noteq> JBool True
      then Inl (BadEnvelope index)
      else if get event ''type'' \<in> set (map JStr checked_types) then assertCurrentLlmShape event
      else Inr ())"

section \<open>Session headers\<close>

definition SESSION_FORMAT_VERSION :: int where
  "SESSION_FORMAT_VERSION = 2"

definition is_natural :: "jsval \<Rightarrow> bool" where  \<comment> \<open>a safe integer that is not below zero\<close>
  "is_natural v = (case v of JNum n \<Rightarrow> is_safe_integer n \<and> \<not> int_of_number n < 0 | _ \<Rightarrow> False)"

text \<open>\<open>isAbsolute\<close> is the function of the path module of the platform.\<close>

definition validateSessionHeader :: "(string \<Rightarrow> bool) \<Rightarrow> string \<Rightarrow> jsval \<Rightarrow> session_error + jsval" where
  "validateSessionHeader isAbsolute sid h =
     (if \<not> isRecord h then Inl HeaderNotRecord
      else if ''seedLength'' \<in> set (keys h) then Inl HeaderSeedLength
      else if get h ''version'' \<noteq> JNum (js_int SESSION_FORMAT_VERSION) then Inl HeaderVersion
      else if get h ''id'' \<noteq> JStr sid then Inl HeaderId
      else if \<not> is_natural (get h ''createdAt'') then Inl HeaderCreatedAt
      else if get h ''cwd'' \<noteq> JUndef \<and>
          \<not> (case get h ''cwd'' of JStr p \<Rightarrow> isAbsolute p | _ \<Rightarrow> False) then Inl HeaderCwd
      else if get h ''parentSession'' \<noteq> JUndef \<and> \<not> is_string (get h ''parentSession'') then Inl HeaderParent
      else if get h ''isSeeded'' \<noteq> JBool True \<and> get h ''isSeeded'' \<noteq> JBool False then Inl HeaderSeeded
      else if get h ''origin'' \<noteq> JUndef \<and> get h ''origin'' \<noteq> JStr ''subagent'' then Inl HeaderOrigin
      else if get h ''delegationDepth'' \<noteq> JUndef \<and> \<not> is_natural (get h ''delegationDepth'') then Inl HeaderDepth
      else if get h ''agentPreset'' \<noteq> JUndef \<and> \<not> is_string (get h ''agentPreset'') then Inl HeaderPreset
      else Inr h)"

text \<open>The header of a session that was given none is synthesized from the identity and the clock.\<close>

definition snapshotSessionHeader ::
    "(string \<Rightarrow> bool) \<Rightarrow> int \<Rightarrow> string \<Rightarrow> jsval option \<Rightarrow> session_error + jsval" where
  "snapshotSessionHeader isAbsolute now sid source =
     (let input = (case source of
          None \<Rightarrow> JObj [(''version'', JNum (js_int SESSION_FORMAT_VERSION)), (''id'', JStr sid),
                        (''createdAt'', JNum (js_int now)), (''isSeeded'', JBool False)]
        | Some h \<Rightarrow> h)
      in case snapshotJsonValue input of
          None \<Rightarrow> Inl NotLossless
        | Some snapshot \<Rightarrow> validateSessionHeader isAbsolute sid snapshot)"

section \<open>The typed view\<close>

fun str_of :: "jsval \<Rightarrow> string" where
  "str_of (JStr s) = s"
| "str_of v = []"

fun int_of :: "jsval \<Rightarrow> int" where
  "int_of (JNum n) = int_of_number n"
| "int_of v = 0"

fun number_of :: "jsval \<Rightarrow> js_number" where
  "number_of (JNum n) = n"
| "number_of v = NaN"

fun elements :: "jsval \<Rightarrow> jsval list" where
  "elements (JArr vs) = vs"
| "elements v = []"

definition opt_value :: "jsval \<Rightarrow> jsval option" where
  "opt_value v = (if v = JUndef then None else Some v)"

definition view_block :: "jsval \<Rightarrow> content_block" where
  "view_block b = (if get b ''type'' = JStr ''tool-call'' then ToolCallBlock (str_of (get b ''id'')) else OtherBlock b)"

definition view_source :: "jsval \<Rightarrow> message_source" where
  "view_source s = (let kind = str_of (get s ''kind'') in
     if kind = ''user'' then SrcUser
     else if kind = ''plugin'' then SrcPlugin (str_of (get s ''plugin''))
     else if kind = ''goal'' then SrcGoal (get s ''goalId'') (get s ''revision'') (get s ''round'')
     else SrcOther kind)"

definition view_user :: "jsval \<Rightarrow> user_message" where
  "view_user m = \<lparr>um_id = str_of (get m ''id''), um_source = view_source (get m ''source''),
     um_content = get m ''content''\<rparr>"

definition view_result :: "jsval \<Rightarrow> tool_result" where
  "view_result d = (let m = get d ''message''; block = hd (elements (get m ''content'') @ [JUndef]) in
     \<lparr>tr_turn = int_of (get d ''turn''), tr_step = int_of (get d ''step''),
      tr_messageId = str_of (get m ''id''), tr_callId = str_of (get (get m ''source'') ''callId''),
      tr_toolCallId = str_of (get block ''toolCallId''),
      tr_isError = (case get block ''isError'' of JBool b \<Rightarrow> Some b | _ \<Rightarrow> None),
      tr_content = get block ''content'',
      tr_error = (if get d ''error'' = JUndef then None
         else Some (str_of (get (get d ''error'') ''name''), str_of (get (get d ''error'') ''code''))),
      tr_meta = opt_value (get d ''meta'')\<rparr>)"

definition view_reason :: "jsval \<Rightarrow> turn_end_reason" where
  "view_reason r = (let kind = str_of (get r ''kind'') in
     if kind = ''completed'' then Completed else if kind = ''aborted'' then Aborted
     else if kind = ''blocked'' then Blocked else if kind = ''error'' then ErrorEnd
     else if kind = ''max-tokens'' then MaxTokens else if kind = ''interrupted'' then Interrupted
     else OtherReason kind)"

definition view_splice :: "jsval \<Rightarrow> inbox_splice" where
  "view_splice d =
     \<lparr>sp_target = (if get d ''target'' = JStr ''next-turn'' then NextTurn else NextStep),
      sp_start = number_of (get d ''start''),
      sp_removedCount = map_option number_of (opt_value (get d ''removedCount'')),
      sp_inserted = map view_user (elements (get d ''inserted'')),
      sp_canceled = (get d ''outcome'' = JStr ''canceled'')\<rparr>"

definition view_retry :: "jsval \<Rightarrow> llm_retry" where
  "view_retry d = \<lparr>lr_retryId = get d ''retryId'', lr_turn = get d ''turn'', lr_step = get d ''step'',
     lr_provider = get d ''provider'', lr_mode = get d ''mode'', lr_policyKey = get d ''policyKey'',
     lr_retry = get d ''retry'', lr_maxRetries = get d ''maxRetries'', lr_delayMs = get d ''delayMs'',
     lr_failure = get d ''failure''\<rparr>"

definition view_data :: "string \<Rightarrow> jsval \<Rightarrow> event_data" where
  "view_data type d = (let turn = int_of (get d ''turn''); step = int_of (get d ''step'') in
     if type = ''turn/start'' then TurnStart turn
     else if type = ''turn/end'' then TurnEnd turn (view_reason (get d ''reason''))
     else if type = ''step/start'' then StepStart turn step
     else if type = ''step/end'' then StepEnd turn step
     else if type = ''user/message'' then UserMessage (view_user d)
     else if type = ''assistant/message'' then
       AssistantMessage turn step (map view_block (elements (get (get d ''message'') ''content'')))
     else if type = ''assistant/attempt'' then AssistantAttempt turn step
     else if type = ''tool/call'' then ToolCall turn step (str_of (get d ''callId''))
     else if type = ''tool/result'' then ToolResult (view_result d)
     else if type = ''request/header'' then
       RequestHeader (str_of (get (get (get d ''header'') ''config'') ''provider''))
     else if type = ''request/context'' then RequestContext
     else if type = ''session/end-seed'' then EndSeed
     else if type = ''agent/inbox/spliced'' then InboxSpliced (view_splice d)
     else if type = ''goal/change'' then GoalChange d
     else if type = ''todo/write'' then TodoWrite d
     else if type = ''llm/retry'' then LlmRetry (view_retry d)
     else if type = ''llm/retry-started'' then
       LlmRetryStarted \<lparr>ls_retryId = get d ''retryId'', ls_turn = get d ''turn'', ls_step = get d ''step'',
         ls_retry = get d ''retry''\<rparr>
     else if type = ''schedule/change'' then ScheduleChange d
     else OtherEvent type)"

definition view_event :: "jsval \<Rightarrow> session_event" where
  "view_event e =
     \<lparr>ev_seq = nat (int_of (get e ''seq'')), ev_time = int_of (get e ''time''),
      ev_data = view_data (str_of (get e ''type'')) (get e ''data''),
      ev_surfaceOp = get e ''surfaceOp'', ev_sources = get e ''sourceEventSeqs''\<rparr>"

section \<open>Facts on envelopes\<close>

lemma lossless_get: "lossless (JObj fs) \<Longrightarrow> map_of fs k = Some v \<Longrightarrow> lossless v"
proof (induction fs)
  case (Cons f fs)
  then show ?case by (cases f) (auto split: if_splits)
qed simp

lemma assertSessionEventEnvelope_seq:
  "assertSessionEventEnvelope event index = Inr () \<Longrightarrow>
     \<exists>n. get event ''seq'' = JNum (js_int (int n)) \<and> ev_seq (view_event event) = n"
  by (auto simp: assertSessionEventEnvelope_def is_count_def view_event_def is_safe_integer_def
      int_of_number_def js_int_def split: if_splits jsval.splits js_number.splits intro!: exI [of _ "nat \<lfloor>_\<rfloor>"])

end
