(* ===== verification/Session.thy ===== *)
theory Session
  imports Envelope Surface
begin

text \<open>
  The event-sourced session, class \<open>Session\<close> of \<^verbatim>\<open>packages/core/session/src/index.ts\<close>, with the
  request-header fold of \<^verbatim>\<open>packages/core/session/src/request-header.ts\<close>: an append-only log,
  the incremental surface over it, and three caches (snapshot, request header and context, derived
  messages). A log entry is the raw event; \<open>typed\<close> is the view that the folds read. A method that
  can throw after it changed the session returns the changed session with the error.

  The theorems: every reachable session holds a contiguous log whose surface is the replay of the
  log, and every cached read is the fresh computation.
\<close>

section \<open>State\<close>

record session =
  s_log :: "jsval list"
  s_surface :: manager
  s_header :: jsval
  s_inherited :: nat
  s_firstLive :: nat
  s_snapshot :: "jsval list option"   \<comment> \<open>\<open>eventsSnapshot\<close>\<close>
  s_headerFold :: "jsval option"
  s_headerFoldSeq :: nat
  s_contextFold :: "jsval option"
  s_contextFoldSeq :: nat
  s_derived :: "message list"
  s_derivedNodes :: nat
  s_derivedGeneration :: nat

definition typed :: "session \<Rightarrow> session_event list" where
  "typed s = map view_event (s_log s)"

definition blank_session :: session where
  "blank_session = \<lparr>s_log = [], s_surface = new_manager 0, s_header = JUndef, s_inherited = 0,
     s_firstLive = 0, s_snapshot = None, s_headerFold = None, s_headerFoldSeq = 0, s_contextFold = None,
     s_contextFoldSeq = 0, s_derived = [], s_derivedNodes = 0, s_derivedGeneration = 0\<rparr>"

section \<open>Append\<close>

definition surface_metadata :: "jsval \<Rightarrow> jsval \<Rightarrow> (string \<times> jsval) list" where
  "surface_metadata sources op =
     (if sources = JUndef then [] else [(''sourceEventSeqs'', sources)])
     @ (if op = JUndef then [] else [(''surfaceOp'', op)])"

definition raw_event :: "string \<Rightarrow> nat \<Rightarrow> int \<Rightarrow> jsval \<Rightarrow> (string \<times> jsval) list \<Rightarrow> jsval" where
  "raw_event type n now data metadata = JObj
     ([(''type'', JStr type), (''seq'', JNum (js_int (int n))), (''time'', JNum (js_int now)),
       (''data'', data)] @ metadata)"

text \<open>The part of \<open>append\<close> before the commit: the event, validated against the surface.
  \<open>reentrant\<close> says that the session is attached to a store entry that is already appending.\<close>

definition prepare_append ::
    "bool \<Rightarrow> int \<Rightarrow> string \<Rightarrow> jsval \<Rightarrow> jsval \<Rightarrow> jsval \<Rightarrow> session \<Rightarrow> session \<times> (session_error + jsval)" where
  "prepare_append reentrant now type data sources op s =
     (case snapshotJsonValue data of
        None \<Rightarrow> (s, Inl NotLossless)
      | Some dataSnapshot \<Rightarrow>
     (case snapshotJsonValue (JObj (surface_metadata sources op)) of
        None \<Rightarrow> (s, Inl BadSurfaceMetadata)
      | Some metadataSnapshot \<Rightarrow>
     (if reentrant then (s, Inl Reentrant)
      else
        let event = raw_event type (length (s_log s)) now dataSnapshot (surface_metadata sources op) in
        case validateNext (typed s) 0 (view_event event) (s_surface s) of
          (m, Some err) \<Rightarrow> (s\<lparr>s_surface := m\<rparr>, Inl SurfaceRejected)
        | (m, None) \<Rightarrow> (s\<lparr>s_surface := m\<rparr>, Inr event))))"

text \<open>The commit. \<open>veto\<close>: resolving the listeners of an attached session threw, which happens
  before the log changes; what listeners do afterwards is contained.\<close>

definition append ::
    "bool \<Rightarrow> bool \<Rightarrow> int \<Rightarrow> string \<Rightarrow> jsval \<Rightarrow> jsval \<Rightarrow> jsval \<Rightarrow> session
     \<Rightarrow> session \<times> (session_error + jsval)" where
  "append reentrant veto now type data sources op s =
     (case prepare_append reentrant now type data sources op s of
        (s', Inl err) \<Rightarrow> (s', Inl err)
      | (s', Inr event) \<Rightarrow>
          (if veto then (s', Inl Vetoed)
           else (s'\<lparr>s_log := s_log s' @ [event], s_snapshot := None\<rparr>, Inr event)))"

section \<open>Construction\<close>

datatype seed_mode = SnapshotMode | RestoreMode  \<comment> \<open>borrowed seed, or adopted restored events\<close>

text \<open>One iteration of the seed loop.\<close>

definition seed_event :: "seed_mode \<Rightarrow> session \<Rightarrow> jsval \<Rightarrow> session_error + session" where
  "seed_event mode s source = (let index = length (s_log s) in
     case (if mode = SnapshotMode then snapshotJsonValue source else Some source) of
       None \<Rightarrow> Inl NotLossless
     | Some snapshot \<Rightarrow>
         bind_res (assertSessionEventEnvelope snapshot index) (\<lambda>_.
           if get snapshot ''seq'' \<noteq> JNum (js_int (int index)) then Inl (NotContiguousSeed index)
           else case validateNext (typed s) 0 (view_event snapshot) (s_surface s) of
               (m, Some err) \<Rightarrow> Inl (InvalidSeedEvent index)
             | (m, None) \<Rightarrow> Inr (s\<lparr>s_surface := m, s_log := s_log s @ [snapshot]\<rparr>)))"

definition last_type :: "session \<Rightarrow> jsval" where
  "last_type s = (if s_log s = [] then JUndef else get (last (s_log s)) ''type'')"

definition end_seed :: "int \<Rightarrow> jsval \<Rightarrow> session \<Rightarrow> session_error + session" where
  "end_seed now data s = (case append False False now ''session/end-seed'' data JUndef JUndef s of
     (s', Inl err) \<Rightarrow> Inl err | (s', Inr event) \<Rightarrow> Inr s')"

text \<open>The constructor after the seed loop: the checks on the inherited prefix, and the marker.\<close>

definition finish_session ::
    "int \<Rightarrow> bool \<Rightarrow> seed_mode \<Rightarrow> nat option \<Rightarrow> jsval \<Rightarrow> session \<Rightarrow> session_error + session" where
  "finish_session now hasSeed mode suppliedInherited h s =
     (let isSeeded = (get h ''isSeeded'' = JBool True);
          inherited = (case suppliedInherited of None \<Rightarrow> 0 | Some n \<Rightarrow> n);
          s1 = s\<lparr>s_firstLive := length (s_log s), s_header := h, s_inherited := inherited\<rparr> in
      if isSeeded \<and> \<not> hasSeed then Inl SeedRequired
      else if isSeeded \<and> suppliedInherited = None then Inl InheritedRequired
      else if \<not> isSeeded \<and> inherited \<noteq> 0 then Inl InheritedNonzero
      else if inherited > length (s_log s) then Inl InheritedTooLarge
      else if mode = SnapshotMode \<and> isSeeded \<and> inherited \<noteq> length (s_log s) then Inl InheritedNotSeed
      else if hasSeed \<and> mode = SnapshotMode \<and> isSeeded then
        end_seed now (JObj [(''inherited'', JBool True)]) s1
      else if hasSeed \<and> last_type s1 \<noteq> JStr ''session/end-seed'' then end_seed now (JObj []) s1
      else Inr s1)"

definition new_session ::
    "(string \<Rightarrow> bool) \<Rightarrow> int \<Rightarrow> string \<Rightarrow> jsval list option \<Rightarrow> jsval option \<Rightarrow> seed_mode \<Rightarrow> nat option
     \<Rightarrow> session_error + session" where
  "new_session isAbsolute now sid seed header mode suppliedInherited =
     bind_res (if mode = SnapshotMode then Inr None
               else bind_res (validateSessionHeader isAbsolute sid (case header of None \<Rightarrow> JUndef | Some h \<Rightarrow> h))
                      (\<lambda>h. Inr (Some h))) (\<lambda>restored.
     bind_res (fold_res (seed_event mode) blank_session (case seed of None \<Rightarrow> [] | Some es \<Rightarrow> es)) (\<lambda>s.
     bind_res (case restored of Some h \<Rightarrow> Inr h
               | None \<Rightarrow> snapshotSessionHeader isAbsolute now sid header) (\<lambda>h.
     finish_session now (seed \<noteq> None) mode suppliedInherited h s)))"

definition create_session ::
    "(string \<Rightarrow> bool) \<Rightarrow> int \<Rightarrow> string \<Rightarrow> jsval list option \<Rightarrow> jsval option \<Rightarrow> nat option
     \<Rightarrow> session_error + session" where
  "create_session isAbsolute now sid seed header inherited =
     new_session isAbsolute now sid seed header SnapshotMode inherited"

definition fromRestore ::
    "(string \<Rightarrow> bool) \<Rightarrow> int \<Rightarrow> string \<Rightarrow> jsval list \<Rightarrow> jsval \<Rightarrow> nat \<Rightarrow> session_error + session" where
  "fromRestore isAbsolute now sid seed header inherited =
     new_session isAbsolute now sid (Some seed) (Some header) RestoreMode (Some inherited)"

section \<open>Reads\<close>

definition eventAt :: "session \<Rightarrow> nat \<Rightarrow> jsval option" where
  "eventAt s n = (if n < length (s_log s) then Some (s_log s ! n) else None)"

definition snapshotEvents :: "nat \<Rightarrow> nat \<Rightarrow> session \<Rightarrow> session \<times> jsval list" where
  "snapshotEvents fromSeq toSeq s =
     (if fromSeq = 0 \<and> toSeq = length (s_log s) then
        case s_snapshot s of
          Some es \<Rightarrow> (s, es) | None \<Rightarrow> (s\<lparr>s_snapshot := Some (s_log s)\<rparr>, s_log s)
      else (s, slice (s_log s) fromSeq toSeq))"

definition ownEvents :: "session \<Rightarrow> session \<times> jsval list" where
  "ownEvents s = snapshotEvents (s_inherited s) (length (s_log s)) s"

definition isOwnSeq :: "session \<Rightarrow> nat \<Rightarrow> bool" where
  "isOwnSeq s n \<longleftrightarrow> n \<ge> s_inherited s \<and> n < length (s_log s)"

definition is_nonempty :: "jsval \<Rightarrow> bool" where
  "is_nonempty v = (case v of JStr s \<Rightarrow> s \<noteq> [] | JArr vs \<Rightarrow> vs \<noteq> [] | _ \<Rightarrow> False)"

definition canonicalHeader :: "jsval \<Rightarrow> jsval" where
  "canonicalHeader h = (let adapterDefaults = get h ''adapterDefaults'' in JObj
     ([(''config'', get h ''config'')]
      @ (if get adapterDefaults ''reasoningEffort'' = JBool True \<or> get adapterDefaults ''maxTokens'' = JBool True
         then [(''adapterDefaults'', adapterDefaults)] else [])
      @ (if is_nonempty (get h ''system'') then [(''system'', get h ''system'')] else [])
      @ (if is_nonempty (get h ''tools'') then [(''tools'', get h ''tools'')] else [])))"

fun foldRequestHeader :: "jsval list \<Rightarrow> jsval option \<Rightarrow> jsval option" where
  "foldRequestHeader [] state = state"
| "foldRequestHeader (e # es) state = foldRequestHeader es
     (if get e ''type'' = JStr ''request/header'' then Some (canonicalHeader (get (get e ''data'') ''header''))
      else state)"

definition requestHeader :: "session \<Rightarrow> session \<times> jsval option" where
  "requestHeader s =
     (if s_headerFoldSeq s < length (s_log s) then
        let h = foldRequestHeader (drop (s_headerFoldSeq s) (s_log s)) (s_headerFold s) in
        (s\<lparr>s_headerFold := h, s_headerFoldSeq := length (s_log s)\<rparr>, h)
      else (s, s_headerFold s))"

fun fold_context :: "jsval list \<Rightarrow> jsval option \<Rightarrow> jsval option" where
  "fold_context [] state = state"
| "fold_context (e # es) state = fold_context es
     (if get e ''type'' = JStr ''request/context'' then Some (get e ''data'') else state)"

definition requestContext :: "session \<Rightarrow> session \<times> jsval option" where
  "requestContext s =
     (if s_contextFoldSeq s < length (s_log s) then
        let c = fold_context (drop (s_contextFoldSeq s) (s_log s)) (s_contextFold s) in
        (s\<lparr>s_contextFold := c, s_contextFoldSeq := length (s_log s)\<rparr>, c)
      else (s, s_contextFold s))"

definition derive_nodes :: "session_event list \<Rightarrow> nat list \<Rightarrow> message list" where
  "derive_nodes events ns = List.map_filter (\<lambda>n. deriveEventMessage (events ! n)) ns"

text \<open>The reads of the surface synchronize it; an error leaves the caches alone.\<close>

definition deriveMessages :: "session \<Rightarrow> session \<times> (surface_error + message list)" where
  "deriveMessages s =
     (case manager_nodes (typed s) 0 (s_surface s) of
        (m, Inl err) \<Rightarrow> (s\<lparr>s_surface := m\<rparr>, Inl err)
      | (m, Inr ns) \<Rightarrow>
     (case manager_replaceGeneration (typed s) 0 m of
        (m', Inl err) \<Rightarrow> (s\<lparr>s_surface := m'\<rparr>, Inl err)
      | (m', Inr gen) \<Rightarrow>
     (let fresh = (gen \<noteq> s_derivedGeneration s);
          start = (if fresh then 0 else s_derivedNodes s);
          derived = (if fresh then [] else s_derived s) @ derive_nodes (typed s) (drop start ns) in
      (s\<lparr>s_surface := m', s_derivedGeneration := gen, s_derived := derived, s_derivedNodes := length ns\<rparr>,
       Inr derived))))"

section \<open>Reachable sessions\<close>

datatype session_call =
    Append bool bool int string jsval jsval jsval
  | Snapshot nat nat
  | ReadOwn | ReadHeader | ReadContext | Derive

fun run_call :: "session_call \<Rightarrow> session \<Rightarrow> session" where
  "run_call (Append reentrant veto now type data sources op) s =
     fst (append reentrant veto now type data sources op s)"
| "run_call (Snapshot a b) s = fst (snapshotEvents a b s)"
| "run_call ReadOwn s = fst (ownEvents s)"
| "run_call ReadHeader s = fst (requestHeader s)"
| "run_call ReadContext s = fst (requestContext s)"
| "run_call Derive s = fst (deriveMessages s)"

text \<open>The sessions a program can hold: constructed in either mode, then used by any calls.\<close>

inductive reachable :: "session \<Rightarrow> bool" where
  constructed: "new_session isAbsolute now sid seed header mode inherited = Inr s \<Longrightarrow> reachable s"
| used: "reachable s \<Longrightarrow> reachable (run_call c s)"

inductive_cases reachable_cases: "reachable s"

section \<open>The surface of a session\<close>

definition surface_of :: "session_event list \<Rightarrow> fold_state" where
  "surface_of es = (case fold_window es 0 of Inr (st, rs) \<Rightarrow> st | Inl err \<Rightarrow> createFoldState)"

lemma synced_ok:
  assumes "manager_inv es 0 m" "returns (fold_window es 0)"
  shows "\<exists>m'. synced es 0 m = (m', None) \<and> manager_at es 0 (length es) m' \<and> mg_state m' = surface_of es"
proof -
  obtain m' err where s: "synced es 0 m = (m', err)" by fastforce
  with synced_replay [OF assms(1)] assms(2) have "err = None" "manager_at es 0 (length es) m'"
    by (auto simp: returns_iff split: option.splits)
  moreover from this obtain rs where "fold_window es 0 = Inr (mg_state m', rs)"
    by (auto simp: manager_at_def fold_prefix_window)
  ultimately show ?thesis using s by (simp add: surface_of_def)
qed

lemma validateNext_admits:
  assumes "manager_inv es 0 m" "returns (fold_window es 0)" "validateNext es 0 e m = (m', None)"
  shows "returns (fold_window (es @ [e]) 0) \<and> manager_inv (es @ [e]) 0 m' \<and>
    (\<exists>plan. surface_of (es @ [e]) = fst (applySurfacePlan (surface_of es) plan)) \<and> ev_seq e = length es"
proof -
  obtain m1 where m1: "synced es 0 m = (m1, None)" "manager_at es 0 (length es) m1" "mg_state m1 = surface_of es"
    using synced_ok [OF assms(1,2)] by blast
  with assms(3) obtain plan where plan: "planSurfaceEvent (surface_of es) e (length es) es 0 = Inr plan"
    by (auto simp: validateNext_def Let_def split: sum.splits)
  obtain rs where fw: "fold_window es 0 = Inr (surface_of es, rs)"
    using m1 by (auto simp: manager_at_def fold_prefix_window)
  have "planSurfaceEvent (surface_of es) e (length es) (es @ [e]) 0 = Inr plan"
    using plan_extend [OF manager_at_window [OF m1(2)]] plan m1(3) by simp
  then have "\<exists>rs'. fold_window (es @ [e]) 0 = Inr (fst (applySurfacePlan (surface_of es) plan), rs')"
    by (simp add: fold_window_snoc fw fold_index_def applySurfaceEvent_def case_prod_beta)
  moreover have "ev_seq e = length es" using plan by (auto simp: planSurfaceEvent_def split: if_splits)
  moreover have "manager_inv es 0 m'" using validateNext_inv [OF assms(1), of e] assms(3) by simp
  ultimately show ?thesis using manager_inv_extend by (auto simp: surface_of_def returns_iff)
qed

lemma validateNext_keeps: "manager_inv es 0 m \<Longrightarrow> validateNext es 0 e m = (m', r) \<Longrightarrow> manager_inv es 0 m'"
  using validateNext_inv by (metis fst_conv)

section \<open>The session invariant\<close>

definition log_ok :: "session \<Rightarrow> bool" where
  "log_ok s \<longleftrightarrow> manager_inv (typed s) 0 (s_surface s) \<and> returns (fold_window (typed s) 0)
     \<and> s_inherited s \<le> length (s_log s) \<and> s_firstLive s \<le> length (s_log s)"

definition reads_ok :: "session \<Rightarrow> bool" where
  "reads_ok s \<longleftrightarrow> (\<forall>es. s_snapshot s = Some es \<longrightarrow> es = s_log s)
     \<and> s_headerFoldSeq s \<le> length (s_log s)
     \<and> s_headerFold s = foldRequestHeader (take (s_headerFoldSeq s) (s_log s)) None
     \<and> s_contextFoldSeq s \<le> length (s_log s)
     \<and> s_contextFold s = fold_context (take (s_contextFoldSeq s) (s_log s)) None"

definition derived_ok :: "session \<Rightarrow> bool" where
  "derived_ok s \<longleftrightarrow> s_derivedGeneration s \<le> replaceGeneration (surface_of (typed s))
     \<and> (s_derivedGeneration s = replaceGeneration (surface_of (typed s)) \<longrightarrow>
          (\<exists>xs ys. nodes (surface_of (typed s)) = xs @ ys \<and> s_derivedNodes s = length xs
             \<and> s_derived s = derive_nodes (typed s) xs))"

definition session_inv :: "session \<Rightarrow> bool" where
  "session_inv s \<longleftrightarrow> log_ok s \<and> reads_ok s \<and> derived_ok s"

lemma foldRequestHeader_append:
  "foldRequestHeader (xs @ ys) h = foldRequestHeader ys (foldRequestHeader xs h)"
  by (induction xs arbitrary: h) simp_all

lemma fold_context_append: "fold_context (xs @ ys) c = fold_context ys (fold_context xs c)"
  by (induction xs arbitrary: c) simp_all

lemma nodes_in_log:
  assumes "returns (fold_window es 0)" "n \<in> set (nodes (surface_of es))"
  shows "n < length es"
proof -
  from assms(1) obtain st rs where fw: "fold_window es 0 = Inr (st, rs)" by (auto simp: returns_iff)
  then have "in_window 0 (length es) (nodes st)"
    using replay_inv_window [OF fold_prefix_inv, of es 0 "length es" "(st, rs)"] by (simp add: fold_prefix_window)
  with assms(2) fw show ?thesis by (simp add: surface_of_def in_window_def)
qed

lemma derive_nodes_extend:
  "(\<And>n. n \<in> set ns \<Longrightarrow> n < length es) \<Longrightarrow> derive_nodes (es @ xs) ns = derive_nodes es ns"
  by (induction ns) (simp_all add: derive_nodes_def List.map_filter_def nth_append)

lemma derive_nodes_append: "derive_nodes es (xs @ ys) = derive_nodes es xs @ derive_nodes es ys"
  by (simp add: derive_nodes_def List.map_filter_def)

lemma surface_of_snoc:
  assumes "returns (fold_window (es @ [e]) 0)"
  shows "\<exists>plan. surface_of (es @ [e]) = fst (applySurfacePlan (surface_of es) plan)"
  using assms
  by (auto simp: returns_iff fold_window_snoc res_simps fold_index_def applySurfaceEvent_def surface_of_def
      case_prod_beta) (metis fst_conv)+

text \<open>The push of an event that the surface admits keeps the invariant.\<close>

lemma push_inv:
  assumes inv: "session_inv s" and adm: "returns (fold_window (typed s @ [view_event event]) 0)"
  shows "session_inv (s\<lparr>s_log := s_log s @ [event], s_snapshot := None\<rparr>)" (is "session_inv ?s'")
proof -
  let ?es = "typed s" and ?e = "view_event event"
  have t: "typed ?s' = ?es @ [?e]" by (simp add: typed_def)
  from inv have mi: "manager_inv ?es 0 (s_surface s)" and ret: "returns (fold_window ?es 0)"
    by (simp_all add: session_inv_def log_ok_def)
  have "log_ok ?s'" using inv t adm manager_inv_extend [OF mi] by (simp add: session_inv_def log_ok_def)
  moreover have "reads_ok ?s'" using inv by (simp add: session_inv_def reads_ok_def)
  moreover have "derived_ok ?s'"
  proof -
    obtain plan where st: "surface_of (?es @ [?e]) = fst (applySurfacePlan (surface_of ?es) plan)"
      using surface_of_snoc [OF adm] by blast
    have same: "derive_nodes (?es @ [?e]) xs = derive_nodes ?es xs"
      if "nodes (surface_of ?es) = xs @ ys" for xs ys
      by (rule derive_nodes_extend) (use nodes_in_log [OF ret] that in auto)
    from inv have d: "derived_ok s" by (simp add: session_inv_def)
    show ?thesis
    proof (cases "(surface_of ?es, plan)" rule: applySurfacePlan.cases)
      case (3 st r i j)
      with st d show ?thesis by (simp add: derived_ok_def t)
    next
      case (2 st n)
      with st d same show ?thesis by (simp add: derived_ok_def t) (metis append_assoc)
    next
      case (1 st)
      with st d same show ?thesis by (simp add: derived_ok_def t) metis
    qed
  qed
  ultimately show ?thesis by (simp add: session_inv_def)
qed

lemma surface_update_inv:
  "session_inv s \<Longrightarrow> manager_inv (typed s) 0 m \<Longrightarrow> session_inv (s\<lparr>s_surface := m\<rparr>)"
  by (simp add: session_inv_def log_ok_def reads_ok_def derived_ok_def typed_def)

text \<open>Validation alone, and the commit of a validated event.\<close>

lemma prepare_append_inv:
  assumes "session_inv s" "prepare_append reentrant now type data sources op s = (s', r)"
  shows "session_inv s' \<and> s_log s' = s_log s \<and> s_header s' = s_header s \<and> s_inherited s' = s_inherited s
    \<and> (\<forall>event. r = Inr event \<longrightarrow> \<not> reentrant \<and> returns (fold_window (typed s @ [view_event event]) 0))"
proof -
  let ?event = "raw_event type (length (s_log s)) now data (surface_metadata sources op)"
  obtain m q where v: "validateNext (typed s) 0 (view_event ?event) (s_surface s) = (m, q)" by fastforce
  have mi: "manager_inv (typed s) 0 (s_surface s)" "returns (fold_window (typed s) 0)"
    using assms(1) by (simp_all add: session_inv_def log_ok_def)
  have "session_inv (s\<lparr>s_surface := m\<rparr>)"
    by (rule surface_update_inv [OF assms(1) validateNext_keeps [OF mi(1) v]])
  moreover have "q = None \<Longrightarrow> returns (fold_window (typed s @ [view_event ?event]) 0)"
    using validateNext_admits [OF mi] v by blast
  ultimately show ?thesis using assms v
    by (auto simp: prepare_append_def snapshotJsonValue_def Let_def split: option.splits if_splits)
qed

lemma commit_inv:
  assumes inv: "session_inv s" and v: "validateNext (typed s) 0 (view_event event) (s_surface s) = (m, None)"
  shows "session_inv (s\<lparr>s_surface := m, s_log := s_log s @ [event], s_snapshot := None\<rparr>)"
proof -
  have mi: "manager_inv (typed s) 0 (s_surface s)" "returns (fold_window (typed s) 0)"
    using inv by (simp_all add: session_inv_def log_ok_def)
  have "session_inv (s\<lparr>s_surface := m\<rparr>)"
    by (rule surface_update_inv [OF inv validateNext_keeps [OF mi(1) v]])
  moreover have "returns (fold_window (typed (s\<lparr>s_surface := m\<rparr>) @ [view_event event]) 0)"
    using validateNext_admits [OF mi v] by (simp add: typed_def)
  ultimately show ?thesis using push_inv by fastforce
qed

lemma append_inv:
  assumes "session_inv s"
  shows "session_inv (fst (append reentrant veto now type data sources op s))"
proof -
  obtain s' r where p: "prepare_append reentrant now type data sources op s = (s', r)" by fastforce
  note inv = prepare_append_inv [OF assms p]
  then have "typed s' = typed s" by (simp add: typed_def)
  with inv push_inv [of s'] p show ?thesis by (auto simp: append_def split: sum.split)
qed

lemma snapshotEvents_read:
  assumes "session_inv s"
  shows "session_inv (fst (snapshotEvents a b s)) \<and>
    snd (snapshotEvents a b s) = slice (s_log s) a b"
proof -
  have all: "slice xs 0 (length xs) = xs" for xs :: "jsval list" by (simp add: slice_def)
  show ?thesis using assms
    by (auto simp: snapshotEvents_def session_inv_def log_ok_def reads_ok_def derived_ok_def typed_def all
        split: option.split)
qed

lemma requestHeader_read:
  assumes "session_inv s"
  shows "session_inv (fst (requestHeader s)) \<and> snd (requestHeader s) = foldRequestHeader (s_log s) None"
proof -
  have "foldRequestHeader (drop n (s_log s)) (foldRequestHeader (take n (s_log s)) None) =
      foldRequestHeader (s_log s) None" for n
    by (simp flip: foldRequestHeader_append)
  with assms show ?thesis
    by (simp add: requestHeader_def session_inv_def log_ok_def reads_ok_def derived_ok_def typed_def Let_def)
qed

lemma requestContext_read:
  assumes "session_inv s"
  shows "session_inv (fst (requestContext s)) \<and> snd (requestContext s) = fold_context (s_log s) None"
proof -
  have "fold_context (drop n (s_log s)) (fold_context (take n (s_log s)) None) = fold_context (s_log s) None" for n
    by (simp flip: fold_context_append)
  with assms show ?thesis
    by (simp add: requestContext_def session_inv_def log_ok_def reads_ok_def derived_ok_def typed_def Let_def)
qed

lemma derive_from_cache:
  assumes "derived_ok s"
  shows "(if replaceGeneration (surface_of (typed s)) \<noteq> s_derivedGeneration s then [] else s_derived s) @
    derive_nodes (typed s) (drop (if replaceGeneration (surface_of (typed s)) \<noteq> s_derivedGeneration s then 0
      else s_derivedNodes s) (nodes (surface_of (typed s)))) = derive_nodes (typed s) (nodes (surface_of (typed s)))"
  using assms by (auto simp: derived_ok_def derive_nodes_append)

lemma deriveMessages_read:
  assumes "session_inv s"
  shows "session_inv (fst (deriveMessages s)) \<and>
    snd (deriveMessages s) = Inr (derive_nodes (typed s) (nodes (surface_of (typed s))))"
proof -
  from assms have mi: "manager_inv (typed s) 0 (s_surface s)" and ret: "returns (fold_window (typed s) 0)"
    by (simp_all add: session_inv_def log_ok_def)
  obtain m where m: "synced (typed s) 0 (s_surface s) = (m, None)" "manager_at (typed s) 0 (length (typed s)) m"
    "mg_state m = surface_of (typed s)" using synced_ok [OF mi ret] by blast
  then have mi': "manager_inv (typed s) 0 m" by (auto simp: manager_inv_def)
  obtain m' where m': "synced (typed s) 0 m = (m', None)" "mg_state m' = surface_of (typed s)"
    "manager_inv (typed s) 0 m'" using synced_ok [OF mi' ret] by (auto simp: manager_inv_def)
  let ?gen = "replaceGeneration (surface_of (typed s))" and ?ns = "nodes (surface_of (typed s))"
  let ?s' = "s\<lparr>s_surface := m', s_derivedGeneration := ?gen, s_derived := derive_nodes (typed s) ?ns,
    s_derivedNodes := length ?ns\<rparr>"
  have run: "deriveMessages s = (?s', Inr (derive_nodes (typed s) ?ns))"
    using derive_from_cache [of s] assms
    by (simp add: deriveMessages_def manager_nodes_def manager_replaceGeneration_def m m' Let_def session_inv_def)
  have "derived_ok ?s'" by (auto simp: derived_ok_def typed_def)
  then have "session_inv ?s'"
    using assms m'(3) by (simp add: session_inv_def log_ok_def reads_ok_def typed_def)
  with run show ?thesis by simp
qed

lemma run_call_inv: "session_inv s \<Longrightarrow> session_inv (run_call c s)"
  by (cases c) (simp_all add: append_inv snapshotEvents_read ownEvents_def requestHeader_read
      requestContext_read deriveMessages_read)

section \<open>Constructed sessions\<close>

lemma blank_inv: "session_inv blank_session"
  by (auto simp: session_inv_def log_ok_def reads_ok_def derived_ok_def blank_session_def typed_def derive_nodes_def
      List.map_filter_def manager_inv_def manager_at_def new_manager_def fold_prefix_0 fold_prefix_window surface_of_def createFoldState_def)

lemma seed_event_inv:
  assumes "session_inv s \<and> s_snapshot s = None" "seed_event mode s source = Inr s'"
  shows "session_inv s' \<and> s_snapshot s' = None \<and> s_log s' = s_log s @ [source] \<and>
    (mode = SnapshotMode \<longrightarrow> lossless source)"
proof -
  from assms(2) obtain m where v: "validateNext (typed s) 0 (view_event source) (s_surface s) = (m, None)"
    and s': "s' = s\<lparr>s_surface := m, s_log := s_log s @ [source]\<rparr>" and "mode = SnapshotMode \<longrightarrow> lossless source"
    by (auto simp: seed_event_def Let_def snapshotJsonValue_def res_simps split: option.splits if_splits prod.splits)
  moreover have "s' = s\<lparr>s_surface := m, s_log := s_log s @ [source], s_snapshot := None\<rparr>"
    using assms(1) s' by (cases s) simp
  ultimately show ?thesis using commit_inv [OF _ v] assms(1) by simp
qed

lemma seed_loop_inv:
  "session_inv s \<and> s_snapshot s = None \<Longrightarrow> fold_res (seed_event mode) s es = Inr s' \<Longrightarrow>
    session_inv s' \<and> s_snapshot s' = None \<and> s_log s' = s_log s @ es \<and>
    (mode = SnapshotMode \<longrightarrow> (\<forall>e \<in> set es. lossless e))"
proof (induction es arbitrary: s)
  case (Cons e es)
  then obtain s1 where "seed_event mode s e = Inr s1" "fold_res (seed_event mode) s1 es = Inr s'"
    by (auto simp: res_simps)
  with seed_event_inv [OF Cons.prems(1)] Cons.IH [of s1] show ?case by auto
qed simp

text \<open>The marker that \<open>end_seed\<close> adds at the end of the seed.\<close>

definition marker :: "nat \<Rightarrow> int \<Rightarrow> jsval \<Rightarrow> jsval" where
  "marker n now data = raw_event ''session/end-seed'' n now data []"

lemma end_seed_log:
  assumes "session_inv s" "end_seed now data s = Inr s'"
  shows "session_inv s' \<and> s_log s' = s_log s @ [marker (length (s_log s)) now data]
    \<and> s_firstLive s' = s_firstLive s \<and> s_inherited s' = s_inherited s \<and> s_header s' = s_header s"
proof -
  obtain s1 e where run: "append False False now ''session/end-seed'' data JUndef JUndef s = (s1, Inr e)" and "s' = s1"
    using assms(2) by (auto simp: end_seed_def split: prod.splits sum.splits)
  moreover have "session_inv s1" using append_inv [OF assms(1)] run by (metis fst_conv)
  ultimately show ?thesis
    by (auto simp: append_def prepare_append_def surface_metadata_def snapshotJsonValue_def marker_def Let_def
        split: option.splits if_splits prod.splits)
qed

text \<open>The session as the constructor leaves it before the marker.\<close>

definition seeded :: "session \<Rightarrow> jsval \<Rightarrow> nat \<Rightarrow> session" where
  "seeded s h inherited = s\<lparr>s_firstLive := length (s_log s), s_header := h, s_inherited := inherited\<rparr>"

lemma seeded_inv: "session_inv s \<Longrightarrow> inherited \<le> length (s_log s) \<Longrightarrow> session_inv (seeded s h inherited)"
  by (simp add: seeded_def session_inv_def log_ok_def reads_ok_def derived_ok_def typed_def)

lemma finish_session_cases:
  assumes "finish_session now hasSeed mode inherited h s0 = Inr s"
  shows "\<exists>n \<le> length (s_log s0).
    (s = seeded s0 h n \<or> (\<exists>data. end_seed now data (seeded s0 h n) = Inr s))
    \<and> (mode = SnapshotMode \<longrightarrow> get h ''isSeeded'' = JBool True \<longrightarrow> n = length (s_log s0) \<and>
       end_seed now (JObj [(''inherited'', JBool True)]) (seeded s0 h n) = Inr s)"
proof -
  let ?n = "case inherited of None \<Rightarrow> 0 | Some n \<Rightarrow> n"
  have "?n \<le> length (s_log s0)" using assms by (auto simp: finish_session_def Let_def split: if_splits)
  moreover have "s = seeded s0 h ?n \<or> (\<exists>data. end_seed now data (seeded s0 h ?n) = Inr s)"
    using assms unfolding finish_session_def Let_def seeded_def [symmetric] by (auto split: if_splits)
  moreover have "?n = length (s_log s0) \<and>
      end_seed now (JObj [(''inherited'', JBool True)]) (seeded s0 h ?n) = Inr s"
    if "mode = SnapshotMode" "get h ''isSeeded'' = JBool True"
    using assms that unfolding finish_session_def Let_def seeded_def [symmetric] by (simp split: if_splits)
  ultimately show ?thesis by blast
qed

lemma new_session_finish:
  "new_session isAbsolute now sid seed header mode inherited = Inr s \<Longrightarrow> \<exists>s0 h.
     fold_res (seed_event mode) blank_session (case seed of None \<Rightarrow> [] | Some es \<Rightarrow> es) = Inr s0 \<and>
     finish_session now (seed \<noteq> None) mode inherited h s0 = Inr s"
  unfolding new_session_def by (simp only: bind_res_eq_Inr) blast

lemma new_session_log:
  assumes "new_session isAbsolute now sid seed header mode inherited = Inr s"
  defines "es \<equiv> (case seed of None \<Rightarrow> [] | Some es \<Rightarrow> es)"
  shows "session_inv s" and "s_firstLive s = length es"
    and "s_log s = es \<or> (\<exists>data. s_log s = es @ [marker (length es) now data])"
    and "mode = SnapshotMode \<Longrightarrow> get (s_header s) ''isSeeded'' = JBool True \<Longrightarrow>
      s_inherited s = length es \<and> s_log s = es @ [marker (length es) now (JObj [(''inherited'', JBool True)])]"
proof -
  obtain s0 h where loop: "fold_res (seed_event mode) blank_session es = Inr s0"
    and fin: "finish_session now (seed \<noteq> None) mode inherited h s0 = Inr s"
    using new_session_finish [OF assms(1)] unfolding es_def by blast
  obtain n where n: "n \<le> length (s_log s0)"
    and last: "s = seeded s0 h n \<or> (\<exists>data. end_seed now data (seeded s0 h n) = Inr s)"
    and fork: "mode = SnapshotMode \<Longrightarrow> get h ''isSeeded'' = JBool True \<Longrightarrow> n = length (s_log s0) \<and>
       end_seed now (JObj [(''inherited'', JBool True)]) (seeded s0 h n) = Inr s"
    using finish_session_cases [OF fin] by blast
  have s0: "session_inv s0" "s_log s0 = es"
    using seed_loop_inv [OF _ loop] blank_inv by (simp_all add: blank_session_def)
  have sd: "session_inv (seeded s0 h n)" by (rule seeded_inv [OF s0(1) n])
  note marked = end_seed_log [OF sd]
  show "session_inv s" using last sd marked by blast
  show "s_firstLive s = length es" using last marked s0 by (auto simp: seeded_def)
  show "s_log s = es \<or> (\<exists>data. s_log s = es @ [marker (length es) now data])"
    using last marked s0 by (auto simp: seeded_def)
  have hd: "s_header s = h" using last marked by (auto simp: seeded_def)
  show "s_inherited s = length es \<and> s_log s = es @ [marker (length es) now (JObj [(''inherited'', JBool True)])]"
    if "mode = SnapshotMode" "get (s_header s) ''isSeeded'' = JBool True"
  proof -
    from fork that hd have "n = length es" "end_seed now (JObj [(''inherited'', JBool True)]) (seeded s0 h n) = Inr s"
      using s0 by auto
    with marked [of now "JObj [(''inherited'', JBool True)]" s] s0 show ?thesis by (simp add: seeded_def)
  qed
qed

lemma new_session_header:
  assumes "new_session isAbsolute now sid seed (Some h) SnapshotMode inherited = Inr s"
  shows "s_header s = h"
proof -
  have snap: "h' = h" if "snapshotSessionHeader isAbsolute now sid (Some h) = Inr h'" for h'
    using that by (auto simp: snapshotSessionHeader_def snapshotJsonValue_def validateSessionHeader_def split: if_splits)
  from assms obtain s0 h' where loop: "fold_res (seed_event SnapshotMode) blank_session (case seed of None \<Rightarrow> [] | Some es \<Rightarrow> es) = Inr s0"
    and h': "snapshotSessionHeader isAbsolute now sid (Some h) = Inr h'"
    and fin': "finish_session now (seed \<noteq> None) SnapshotMode inherited h' s0 = Inr s"
    unfolding new_session_def by (simp only: bind_res_eq_Inr if_True simp_thms sum.inject option.case) force
  note fin = fin' [unfolded snap [OF h']]
  have s0: "session_inv s0" using seed_loop_inv [OF _ loop] blank_inv by (simp add: blank_session_def)
  obtain n where n: "n \<le> length (s_log s0)" and last: "s = seeded s0 h n \<or> (\<exists>data. end_seed now data (seeded s0 h n) = Inr s)"
    using finish_session_cases [OF fin] by blast
  have "s_header (seeded s0 h n) = h" by (simp add: seeded_def)
  with last end_seed_log [OF seeded_inv [OF s0 n]] show ?thesis by metis
qed

lemma reachable_inv: "reachable s \<Longrightarrow> session_inv s"
  by (induction rule: reachable.induct) (auto dest: new_session_log(1) run_call_inv)

section \<open>What every session guarantees\<close>

text \<open>A session of three messages, built by appends with a vetoed and a malformed one in between; it is
  read, rewritten by a replacement, and read again.\<close>

definition sample_user :: "string \<Rightarrow> jsval" where
  "sample_user t = JObj [(''id'', JStr t), (''role'', JStr ''user''),
     (''source'', JObj [(''kind'', JStr ''user'')]), (''content'', JArr [])]"

definition sample_calls :: "session_call list" where
  "sample_calls = (let put = (\<lambda>veto t op src. Append False veto 7 ''user/message'' (sample_user t) src op) in
     [put False ''a'' (JStr ''append'') JUndef, put True ''b'' (JStr ''append'') JUndef,
      put False ''b'' (JStr ''append'') JUndef, Append False False 8 ''turn/start'' JUndef JUndef JUndef, Derive,
      put False ''c'' (JObj [(''op'', JStr ''replace''), (''start'', JNum (js_int 0)), (''end'', JNum (js_int 0))])
        (JArr [JNum (js_int 0)])])"

definition sample_start :: "session_error + session" where
  "sample_start = create_session (\<lambda>p. True) 5 ''s'' None None None"

definition sample_session :: session where
  "sample_session = (case sample_start of Inr s \<Rightarrow> fold run_call sample_calls s | Inl e \<Rightarrow> blank_session)"

lemma reachable_fold: "reachable s \<Longrightarrow> reachable (fold run_call cs s)"
  by (induction cs arbitrary: s) (simp_all add: used)

lemma reachable_sample: "reachable sample_session"
proof -
  have "returns sample_start" by code_simp
  then obtain s where "sample_start = Inr s" by (auto simp: returns_iff)
  then show ?thesis
    unfolding sample_session_def sample_start_def create_session_def
    by (auto intro: reachable_fold constructed)
qed

text \<open>C4: Every session that can be reached, from a borrowed or a restored seed, by any calls, with
  appends that fail, are vetoed or re-enter, holds a contiguous log that replays without error, and
  its surface is the one the replay gives; the inherited prefix and the constructor seed lie within
  the log.\<close>

theorem session_log_invariant:
  assumes "reachable s"
  shows "contiguous 0 (typed s)
    \<and> (\<exists>ns rs. foldSurface (typed s) = Inr (ns, rs)
         \<and> snd (manager_nodes (typed s) 0 (s_surface s)) = Inr ns)
    \<and> s_inherited s \<le> length (s_log s) \<and> s_firstLive s \<le> length (s_log s)"
proof -
  from reachable_inv [OF assms] have inv: "manager_inv (typed s) 0 (s_surface s)"
    "returns (fold_window (typed s) 0)" "s_inherited s \<le> length (s_log s)" "s_firstLive s \<le> length (s_log s)"
    by (simp_all add: session_inv_def log_ok_def)
  from inv(2) obtain st rs where fw: "fold_window (typed s) 0 = Inr (st, rs)" by (auto simp: returns_iff)
  then have fs: "foldSurface (typed s) = Inr (nodes st, rs)" by (simp add: foldSurface_def)
  with fw manager_nodes_replay [OF inv(1)] foldSurface_contiguous [OF fs] inv(3,4)
  show ?thesis by (simp add: replayed_nodes_def)
qed

theorem session_log_invariant_witness:
  "contiguous 0 (typed sample_session) \<and> foldSurface (typed sample_session) = Inr ([2, 1],
     [\<lparr>rp_seq = 2, rp_start = 0, rp_end = 0, rp_shadowed = [0]\<rparr>])"
proof -
  have "foldSurface (typed sample_session) = Inr ([2, 1],
     [\<lparr>rp_seq = 2, rp_start = 0, rp_end = 0, rp_shadowed = [0]\<rparr>])" by code_simp
  with session_log_invariant [OF reachable_sample] show ?thesis by simp
qed

text \<open>C7: No cache of a session is observable: in every reachable session, a snapshot is the slice of
  the log it names, the request header and context are the folds of the whole log, and the derived
  messages are the messages of the nodes of the replayed surface, in order.\<close>

theorem session_caches_unobservable:
  assumes "reachable s"
  shows "snd (snapshotEvents a b s) = slice (s_log s) a b
    \<and> snd (requestHeader s) = foldRequestHeader (s_log s) None
    \<and> snd (requestContext s) = fold_context (s_log s) None
    \<and> (\<exists>ns rs. foldSurface (typed s) = Inr (ns, rs)
         \<and> snd (deriveMessages s) = Inr (derive_nodes (typed s) ns))"
proof -
  have inv: "session_inv s" by (rule reachable_inv [OF assms])
  then obtain st rs where fw: "fold_window (typed s) 0 = Inr (st, rs)"
    by (auto simp: session_inv_def log_ok_def returns_iff)
  then have "foldSurface (typed s) = Inr (nodes st, rs)" "surface_of (typed s) = st"
    by (simp_all add: foldSurface_def surface_of_def)
  with snapshotEvents_read [OF inv] requestHeader_read [OF inv] requestContext_read [OF inv]
    deriveMessages_read [OF inv] show ?thesis by simp
qed

theorem session_caches_unobservable_witness:
  "snd (deriveMessages sample_session) = Inr [MsgUser (view_user (sample_user ''c'')), MsgUser (view_user (sample_user ''b''))]
   \<and> snd (requestHeader sample_session) = None"
proof -
  from session_caches_unobservable [OF reachable_sample] obtain ns rs where
    "foldSurface (typed sample_session) = Inr (ns, rs)"
    "snd (deriveMessages sample_session) = Inr (derive_nodes (typed sample_session) ns)"
    "snd (requestHeader sample_session) = foldRequestHeader (s_log sample_session) None" by blast
  moreover have "map_sum id fst (foldSurface (typed sample_session)) = Inr [2, 1]" by code_simp
  moreover have "derive_nodes (typed sample_session) [2, 1] =
    [MsgUser (view_user (sample_user ''c'')), MsgUser (view_user (sample_user ''b''))]" by code_simp
  moreover have "foldRequestHeader (s_log sample_session) None = None" by code_simp
  ultimately show ?thesis by simp
qed

lemma view_marker: "view_event (marker n now data) = log_event n now EndSeed"
  by (simp add: marker_def raw_event_def view_event_def view_data_def log_event_def Let_def)


definition sample_header :: jsval where
  "sample_header = JObj [(''version'', JNum (js_int 2)), (''id'', JStr ''s''), (''createdAt'', JNum (js_int 5)),
     (''isSeeded'', JBool False)]"


text \<open>A fresh seeded session (a fork child) inherits exactly its seed and owns exactly one event,
  the tagged marker at the inherited cut, even when the seed itself ends in a marker.\<close>

lemma seeded_child_owns_marker:
  assumes "create_session isAbsolute now sid (Some seed) header inherited = Inr s"
    and "get (s_header s) ''isSeeded'' = JBool True"
  shows "s_log s = seed @ [marker (length seed) now (JObj [(''inherited'', JBool True)])]
    \<and> s_inherited s = length seed \<and> snd (ownEvents s) = [marker (length seed) now (JObj [(''inherited'', JBool True)])]
    \<and> isOwnSeq s n = (n = length seed)"
proof -
  note new = new_session_log [OF assms(1) [unfolded create_session_def], simplified]
  from new(4) [OF assms(2)] have log: "s_inherited s = length seed"
    "s_log s = seed @ [marker (length seed) now (JObj [(''inherited'', JBool True)])]" by simp_all
  have "snd (ownEvents s) = slice (s_log s) (s_inherited s) (length (s_log s))"
    using snapshotEvents_read [OF new(1)] by (simp add: ownEvents_def)
  with log show ?thesis by (auto simp: slice_def isOwnSeq_def)
qed

end
