(* ===== verification/Session_Trace.thy ===== *)
theory Session_Trace
  imports Session_Log
begin

text \<open>
  The relational invariant of the session log, \<^verbatim>\<open>packages/core/session/src/invariant.ts\<close>. Each
  candidate event is validated against the trace of the committed log (\<open>validateEvent\<close>, which
  changes nothing) and the resulting transition is applied once the event commits
  (\<open>applyTransition\<close>). The lemmas show what the log of an accepted session looks like.
\<close>

section \<open>State\<close>

record session_trace =
  lastSeq :: int
  openTurn :: "int option"
  openStep :: "int option"
  nextTurn :: int
  nextStep :: int
  pendingCalls :: "string set"

datatype call_change = NoChange | AddCall string | DeleteCall string | ClearCalls

record trace_transition =
  tt_lastSeq :: int
  tt_openTurn :: "int option"
  tt_openStep :: "int option"
  tt_nextTurn :: int
  tt_nextStep :: int
  tt_pendingCalls :: call_change

datatype trace_error =
    SeqNotIncreasing | TurnStillOpen | UnexpectedTurn | TurnEndMismatch | TurnEndStepOpen
  | StepOutsideTurn | StepStillOpen | UnexpectedStep | NotOpenStep | ResultOutsideTurn
  | ResultWithoutCall | RequestOutsideTurn

definition freshTrace :: session_trace where
  "freshTrace = \<lparr>lastSeq = -1, openTurn = None, openStep = None, nextTurn = 1, nextStep = 1,
     pendingCalls = {}\<rparr>"

definition TOOL_NOT_STARTED :: string where
  "TOOL_NOT_STARTED = ''TOOL_NOT_STARTED''"

section \<open>Validation and commit\<close>

definition requireOpenStep :: "session_trace \<Rightarrow> int \<Rightarrow> int \<Rightarrow> trace_error + unit" where
  "requireOpenStep trace turn step =
     (if openTurn trace \<noteq> Some turn \<or> openStep trace \<noteq> Some step then Inl NotOpenStep else Inr ())"

text \<open>The transition that only advances the sequence number.\<close>

definition keep :: "session_trace \<Rightarrow> session_event \<Rightarrow> trace_transition" where
  "keep trace e = \<lparr>tt_lastSeq = int (ev_seq e), tt_openTurn = openTurn trace,
     tt_openStep = openStep trace, tt_nextTurn = nextTurn trace, tt_nextStep = nextStep trace,
     tt_pendingCalls = NoChange\<rparr>"

definition validateEvent :: "session_trace \<Rightarrow> session_event \<Rightarrow> trace_error + trace_transition" where
  "validateEvent trace e =
     (if int (ev_seq e) \<le> lastSeq trace then Inl SeqNotIncreasing
      else case ev_data e of
        TurnStart turn \<Rightarrow>
          (if openTurn trace \<noteq> None then Inl TurnStillOpen
           else if turn \<noteq> nextTurn trace then Inl UnexpectedTurn
           else Inr ((keep trace e)\<lparr>tt_openTurn := Some turn, tt_nextStep := 1\<rparr>))
      | TurnEnd turn reason \<Rightarrow>
          (if openTurn trace \<noteq> Some turn then Inl TurnEndMismatch
           else if openStep trace \<noteq> None then Inl TurnEndStepOpen
           else Inr ((keep trace e)\<lparr>tt_openTurn := None, tt_nextTurn := nextTurn trace + 1\<rparr>))
      | StepStart turn step \<Rightarrow>
          (if openTurn trace \<noteq> Some turn then Inl StepOutsideTurn
           else if openStep trace \<noteq> None then Inl StepStillOpen
           else if step \<noteq> nextStep trace then Inl UnexpectedStep
           else Inr ((keep trace e)\<lparr>tt_openStep := Some step\<rparr>))
      | StepEnd turn step \<Rightarrow>
          bind_res (requireOpenStep trace turn step) (\<lambda>_.
            Inr ((keep trace e)\<lparr>tt_openStep := None, tt_nextStep := nextStep trace + 1,
                                tt_pendingCalls := ClearCalls\<rparr>))
      | AssistantAttempt turn step \<Rightarrow>
          bind_res (requireOpenStep trace turn step) (\<lambda>_. Inr (keep trace e))
      | AssistantMessage turn step content \<Rightarrow>
          bind_res (requireOpenStep trace turn step) (\<lambda>_. Inr (keep trace e))
      | ToolCall turn step callId \<Rightarrow>
          bind_res (requireOpenStep trace turn step) (\<lambda>_.
            Inr ((keep trace e)\<lparr>tt_pendingCalls := AddCall callId\<rparr>))
      | ToolResult r \<Rightarrow>
          (if ev_surfaceOp e \<noteq> JStr ''append'' then
             if openTurn trace = None then Inl ResultOutsideTurn else Inr (keep trace e)
           else bind_res (requireOpenStep trace (tr_turn r) (tr_step r)) (\<lambda>_.
             let callId = tr_callId r;
                 syntheticNotStarted = (tr_isError r = Some True
                   \<and> map_option snd (tr_error r) = Some TOOL_NOT_STARTED)
             in if callId \<notin> pendingCalls trace \<and> \<not> syntheticNotStarted then Inl ResultWithoutCall
                else Inr ((keep trace e)\<lparr>tt_pendingCalls := DeleteCall callId\<rparr>)))
      | RequestHeader provider \<Rightarrow>
          (if openTurn trace = None then Inl RequestOutsideTurn else Inr (keep trace e))
      | RequestContext \<Rightarrow>
          (if openTurn trace = None then Inl RequestOutsideTurn else Inr (keep trace e))
      | _ \<Rightarrow> Inr (keep trace e))"

definition applyTransition :: "session_trace \<Rightarrow> trace_transition \<Rightarrow> session_trace" where
  "applyTransition trace t =
     \<lparr>lastSeq = tt_lastSeq t, openTurn = tt_openTurn t, openStep = tt_openStep t,
      nextTurn = tt_nextTurn t, nextStep = tt_nextStep t,
      pendingCalls = (case tt_pendingCalls t of
          NoChange \<Rightarrow> pendingCalls trace
        | AddCall c \<Rightarrow> insert c (pendingCalls trace)
        | DeleteCall c \<Rightarrow> pendingCalls trace - {c}
        | ClearCalls \<Rightarrow> {})\<rparr>"

definition trace_step :: "session_trace \<Rightarrow> session_event \<Rightarrow> trace_error + session_trace" where
  "trace_step trace e = bind_res (validateEvent trace e) (\<lambda>t. Inr (applyTransition trace t))"

definition seedSession :: "session_event list \<Rightarrow> trace_error + session_trace" where
  "seedSession events = fold_res trace_step freshTrace events"

section \<open>What an accepted step does\<close>

lemma keep_sel [simp]:
  "tt_lastSeq (keep t e) = int (ev_seq e)" "tt_openTurn (keep t e) = openTurn t"
  "tt_openStep (keep t e) = openStep t" "tt_nextTurn (keep t e) = nextTurn t"
  "tt_nextStep (keep t e) = nextStep t" "tt_pendingCalls (keep t e) = NoChange"
  by (simp_all add: keep_def)

lemmas trace_simps = trace_step_def validateEvent_def applyTransition_def requireOpenStep_def Let_def

definition trace_inv :: "session_trace \<Rightarrow> bool" where
  "trace_inv t \<longleftrightarrow> (openTurn t = None \<longrightarrow> openStep t = None)
     \<and> (openStep t = None \<longrightarrow> pendingCalls t = {})
     \<and> (\<forall>n. openTurn t = Some n \<longrightarrow> n = nextTurn t)
     \<and> (\<forall>n. openStep t = Some n \<longrightarrow> n = nextStep t)
     \<and> 1 \<le> nextTurn t \<and> 1 \<le> nextStep t \<and> -1 \<le> lastSeq t"

lemma trace_step_seq: "trace_step t e = Inr t' \<Longrightarrow> lastSeq t < int (ev_seq e) \<and> lastSeq t' = int (ev_seq e)"
  by (auto simp: trace_simps res_simps split: if_splits event_data.splits)

lemma trace_step_inv: "trace_inv t \<Longrightarrow> trace_step t e = Inr t' \<Longrightarrow> trace_inv t'"
  unfolding trace_inv_def
  by (cases "ev_data e") (auto simp: trace_simps res_simps split: if_splits)

interpretation trace_fold: event_fold freshTrace trace_step "\<lambda>_. True" trace_inv
proof unfold_locales
  show "trace_inv freshTrace" by (simp add: trace_inv_def freshTrace_def)
qed (auto intro: trace_step_inv)

section \<open>The shape of an accepted log\<close>

fun turn_starts :: "session_event list \<Rightarrow> int list" where
  "turn_starts [] = []"
| "turn_starts (e # es) = (case ev_data e of TurnStart n \<Rightarrow> n # turn_starts es | _ \<Rightarrow> turn_starts es)"

lemma turn_starts_append: "turn_starts (xs @ ys) = turn_starts xs @ turn_starts ys"
  by (induction xs) (simp_all split: event_data.split)

definition begun_turns :: "session_trace \<Rightarrow> int" where
  "begun_turns t = (case openTurn t of None \<Rightarrow> nextTurn t - 1 | Some n \<Rightarrow> n)"

lemma trace_step_turns:
  assumes "trace_inv t" "trace_step t e = Inr t'"
  shows "turn_starts [e] = [begun_turns t + 1..begun_turns t']"
  using assms
  by (cases "ev_data e")
    (auto simp: trace_simps res_simps begun_turns_def trace_inv_def split: if_splits option.splits)

lemma trace_step_turns_mono:
  assumes "trace_inv t" "trace_step t e = Inr t'"
  shows "begun_turns t \<le> begun_turns t'"
  using assms
  by (cases "ev_data e")
    (auto simp: trace_simps res_simps begun_turns_def trace_inv_def split: if_splits option.splits)

lemma accepted_turns:
  "trace_inv t \<Longrightarrow> fold_res trace_step t es = Inr t' \<Longrightarrow>
     turn_starts es = [begun_turns t + 1..begun_turns t'] \<and> begun_turns t \<le> begun_turns t'"
proof (induction es arbitrary: t)
  case (Cons e es)
  then obtain u where u: "trace_step t e = Inr u" "fold_res trace_step u es = Inr t'"
    by (auto simp: res_simps)
  have IH: "turn_starts es = [begun_turns u + 1..begun_turns t'] \<and> begun_turns u \<le> begun_turns t'"
    using Cons.IH [OF trace_step_inv [OF Cons.prems(1) u(1)] u(2)] .
  have e: "turn_starts [e] = [begun_turns t + 1..begun_turns u]" "begun_turns t \<le> begun_turns u"
    using trace_step_turns trace_step_turns_mono Cons.prems(1) u(1) by blast+
  have "turn_starts (e # es) = turn_starts [e] @ turn_starts es"
    using turn_starts_append [of "[e]" es] by simp
  also have "\<dots> = [begun_turns t + 1..begun_turns t']"
    using IH e by (simp add: upto_join)
  finally show ?case using IH e by simp
qed simp


text \<open>A sample log: one finished turn and a second turn with an open step.\<close>

definition sample_turns :: "session_event list" where
  "sample_turns =
     [log_event 0 0 (TurnStart 1), log_event 1 0 (StepStart 1 1), log_event 2 0 (StepEnd 1 1),
      log_event 3 0 (TurnEnd 1 Completed), log_event 4 0 (TurnStart 2), log_event 5 0 (StepStart 2 1)]"


end
