(* ===== verification/Repair.thy ===== *)
theory Repair
  imports Session_Trace Surface "HOL-Library.AList"
begin

text \<open>
  Crash recovery of a session log, \<^verbatim>\<open>packages/core/session/src/repair.ts\<close>.
  \<open>interruptedTurnClosers\<close> scans a log whose last turn may be open and returns the synthetic
  events that close it: an error result for every unanswered tool call, then the end of an open
  step, then an interrupted end of the turn. The theorems relate it to the two judges of a log: the
  session invariant accepts a repaired log, and the surface fold extends the view by the results.
\<close>

section \<open>The scan\<close>

definition TOOL_OUTCOME_UNKNOWN :: string where
  "TOOL_OUTCOME_UNKNOWN = ''TOOL_OUTCOME_UNKNOWN''"

text \<open>A pending call: the step that requested it, and the sequence of its \<open>tool/call\<close> event once one
  is recorded. The map keeps insertion order, and setting a present key keeps its position.\<close>

type_synonym pending_calls = "(string \<times> int \<times> nat option) list"

record repair_cursor =
  rc_openTurn :: "int option"
  rc_openStep :: "int option"
  rc_pendingCalls :: pending_calls

definition repair_init :: repair_cursor where
  "repair_init = \<lparr>rc_openTurn = None, rc_openStep = None, rc_pendingCalls = []\<rparr>"

definition repair_step :: "repair_cursor \<Rightarrow> session_event \<Rightarrow> repair_cursor" where
  "repair_step c e = (case ev_data e of
     TurnStart turn \<Rightarrow> \<lparr>rc_openTurn = Some turn, rc_openStep = None, rc_pendingCalls = []\<rparr>
   | TurnEnd turn reason \<Rightarrow> \<lparr>rc_openTurn = None, rc_openStep = None, rc_pendingCalls = []\<rparr>
   | StepStart turn step \<Rightarrow> c\<lparr>rc_openStep := Some step\<rparr>
   | StepEnd turn step \<Rightarrow> c\<lparr>rc_openStep := None, rc_pendingCalls := []\<rparr>
   | AssistantMessage turn step content \<Rightarrow>
       c\<lparr>rc_pendingCalls := fold (\<lambda>callId. AList.update callId (step, None))
                              (tool_call_ids content) (rc_pendingCalls c)\<rparr>
   | ToolCall turn step callId \<Rightarrow>
       (case map_of (rc_pendingCalls c) callId of
          None \<Rightarrow> c
        | Some entry \<Rightarrow> c\<lparr>rc_pendingCalls :=
            AList.update callId (fst entry, Some (ev_seq e)) (rc_pendingCalls c)\<rparr>)
   | ToolResult r \<Rightarrow> c\<lparr>rc_pendingCalls := AList.delete (tr_callId r) (rc_pendingCalls c)\<rparr>
   | _ \<Rightarrow> c)"

definition repair_scan :: "session_event list \<Rightarrow> repair_cursor" where
  "repair_scan events = foldl repair_step repair_init events"

section \<open>The closing events\<close>

definition outcome_unknown_text :: string where
  "outcome_unknown_text = ''The tool call was interrupted after it was recorded, but no result was durably recorded. Its outcome is unknown. Decide whether to retry from the tool semantics: retry only if the operation is read-only or idempotent; if it may have side effects, first verify external state or ask the user. Do not retry blindly.''"

definition not_started_text :: string where
  "not_started_text = ''The tool call was interrupted before the Harness recorded it as started. Retry it if it is still needed.''"

definition result_closer :: "int \<Rightarrow> int \<Rightarrow> string \<Rightarrow> int \<Rightarrow> nat option \<Rightarrow> nat \<Rightarrow> session_event" where
  "result_closer turn time callId step callSeq s =
     \<lparr>ev_seq = s, ev_time = time,
      ev_data = ToolResult
        \<lparr>tr_turn = turn, tr_step = step,
         tr_messageId = ''interrupted-tool-result-'' @ callId @ ''-'' @ nat_string s,
         tr_callId = callId, tr_toolCallId = callId, tr_isError = Some True,
         tr_content = JArr [JObj [(''type'', JStr ''text''),
           (''text'', JStr (if callSeq \<noteq> None then outcome_unknown_text else not_started_text))]],
         tr_error = Some (if callSeq \<noteq> None then (''ToolOutcomeUnknownError'', TOOL_OUTCOME_UNKNOWN)
                          else (''ToolNotStartedError'', TOOL_NOT_STARTED)),
         tr_meta = None\<rparr>,
      ev_surfaceOp = JStr ''append'',
      ev_sources = (case callSeq of None \<Rightarrow> JUndef | Some q \<Rightarrow> JArr [JNum (js_int (int q))])\<rparr>"

fun result_closers :: "int \<Rightarrow> int \<Rightarrow> nat \<Rightarrow> pending_calls \<Rightarrow> session_event list" where
  "result_closers turn time s [] = []"
| "result_closers turn time s ((callId, step, callSeq) # cs) =
     result_closer turn time callId step callSeq s # result_closers turn time (s + 1) cs"

definition boundary_closers :: "int \<Rightarrow> int option \<Rightarrow> int \<Rightarrow> nat \<Rightarrow> session_event list" where
  "boundary_closers turn step time s = (case step of
     None \<Rightarrow> [log_event s time (TurnEnd turn Interrupted)]
   | Some n \<Rightarrow> [log_event s time (StepEnd turn n), log_event (s + 1) time (TurnEnd turn Interrupted)])"

definition interruptedTurnClosers :: "session_event list \<Rightarrow> session_event list" where
  "interruptedTurnClosers events =
     (let c = repair_scan events in
      case rc_openTurn c of
        None \<Rightarrow> []
      | Some turn \<Rightarrow>
          (if events = [] then []
           else let s = ev_seq (last events) + 1;
                    time = ev_time (last events);
                    results = result_closers turn time s (rc_pendingCalls c)
                in results @ boundary_closers turn (rc_openStep c) time (s + length results)))"

section \<open>The repaired log is balanced\<close>

lemma length_result_closers [simp]: "length (result_closers turn time s cs) = length cs"
  by (induction cs arbitrary: s) auto

lemma repair_scan_snoc: "repair_scan (es @ [e]) = repair_step (repair_scan es) e"
  by (simp add: repair_scan_def)

lemma repair_scan_append: "repair_scan (xs @ ys) = foldl repair_step (repair_scan xs) ys"
  by (simp add: repair_scan_def)

lemma boundary_closers_end:
  "rc_openTurn (foldl repair_step c (xs @ boundary_closers turn step time s)) = None"
  by (simp add: boundary_closers_def repair_step_def split: option.split)

text \<open>Repair is complete and idempotent: the closers end the open turn, so a repaired log, of
  whatever log, needs no further closers; and a log without an open turn gets none.\<close>

lemma repair_idempotent:
  "interruptedTurnClosers (events @ interruptedTurnClosers events) = []"
proof (cases "interruptedTurnClosers events = []")
  case False
  then obtain turn xs step time s where
    "interruptedTurnClosers events = xs @ boundary_closers turn step time s"
    by (auto simp: interruptedTurnClosers_def Let_def split: option.splits if_splits)
  then have "rc_openTurn (repair_scan (events @ interruptedTurnClosers events)) = None"
    using boundary_closers_end [of "repair_scan events" xs] by (simp add: repair_scan_append)
  then show ?thesis by (simp add: interruptedTurnClosers_def)
qed simp

section \<open>The session invariant accepts the repaired log\<close>

definition pending_ok :: "session_trace \<Rightarrow> pending_calls \<Rightarrow> bool" where
  "pending_ok t cs \<longleftrightarrow> distinct (map fst cs) \<and>
     (\<forall>(callId, step, callSeq) \<in> set cs. openStep t = Some step \<and>
        (callSeq \<noteq> None \<longrightarrow> callId \<in> pendingCalls t \<and> int (the callSeq) \<le> lastSeq t))"

text \<open>The cursor of the scan and the trace of the validator agree on an accepted log.\<close>

definition agrees :: "session_trace \<Rightarrow> repair_cursor \<Rightarrow> bool" where
  "agrees t c \<longleftrightarrow> trace_inv t \<and> rc_openTurn c = openTurn t \<and> rc_openStep c = openStep t
     \<and> pending_ok t (rc_pendingCalls c)"

lemma in_set_update:
  "x \<in> set (AList.update k v al) \<Longrightarrow> x = (k, v) \<or> x \<in> set al"
  by (induction al) (auto split: if_splits)

lemma pending_ok_update:
  assumes "pending_ok t cs" "openStep t = Some step"
    "callSeq \<noteq> None \<longrightarrow> callId \<in> pendingCalls t \<and> int (the callSeq) \<le> lastSeq t"
  shows "pending_ok t (AList.update callId (step, callSeq) cs)"
  using assms unfolding pending_ok_def
  by (auto simp: distinct_update dest!: in_set_update)

lemma pending_ok_fold:
  "pending_ok t cs \<Longrightarrow> openStep t = Some step \<Longrightarrow>
     pending_ok t (fold (\<lambda>callId. AList.update callId (step, None)) ids cs)"
  by (induction ids arbitrary: cs) (simp_all add: pending_ok_update)

lemma pending_ok_delete: "pending_ok t cs \<Longrightarrow> pending_ok t (AList.delete k cs)"
  unfolding pending_ok_def using distinct_delete [of cs k] by (auto simp: AList.delete_eq)

lemma pending_ok_mono:
  assumes "pending_ok t cs" "openStep t' = openStep t" "lastSeq t \<le> lastSeq t'"
    "\<And>k. k \<in> fst ` set cs \<Longrightarrow> k \<in> pendingCalls t \<Longrightarrow> k \<in> pendingCalls t'"
  shows "pending_ok t' cs"
  using assms by (fastforce simp: pending_ok_def)

lemma agrees_step:
  assumes "agrees t c" "trace_step t e = Inr t'"
  shows "agrees t' (repair_step c e)"
proof -
  have inv: "trace_inv t" and ot: "rc_openTurn c = openTurn t" and os: "rc_openStep c = openStep t"
    and pend: "pending_ok t (rc_pendingCalls c)" using assms(1) by (auto simp: agrees_def)
  have inv': "trace_inv t'" using trace_step_inv [OF inv assms(2)] .
  have seq: "lastSeq t < int (ev_seq e)" "lastSeq t' = int (ev_seq e)"
    using trace_step_seq [OF assms(2)] by auto
  have frame: "pending_ok t' cs" if "pending_ok t cs" "openStep t' = openStep t"
    "\<And>k. k \<in> fst ` set cs \<Longrightarrow> k \<in> pendingCalls t \<Longrightarrow> k \<in> pendingCalls t'" for cs
    using pending_ok_mono [OF that(1,2) _ that(3)] seq by auto
  have nil: "pending_ok u []" for u by (simp add: pending_ok_def)
  have closed: "rc_pendingCalls c = []" if "openStep t = None"
    using pend that by (cases "rc_pendingCalls c") (auto simp: pending_ok_def)
  show ?thesis
  proof (cases "ev_data e")
    case (AssistantMessage turn step content)
    with assms(2) have "openStep t = Some step" "openStep t' = openStep t" "openTurn t' = openTurn t"
      "pendingCalls t' = pendingCalls t"
      by (auto simp: trace_simps res_simps split: if_splits)
    with AssistantMessage inv' ot os frame pending_ok_fold [OF pend] show ?thesis
      by (simp add: agrees_def repair_step_def)
  next
    case (ToolCall turn step callId)
    with assms(2) have st: "openStep t' = openStep t" "openTurn t' = openTurn t" "openStep t = Some step"
      "pendingCalls t' = insert callId (pendingCalls t)"
      by (auto simp: trace_simps res_simps split: if_splits)
    have base: "pending_ok t' (rc_pendingCalls c)" by (rule frame) (use pend st in auto)
    show ?thesis
    proof (cases "map_of (rc_pendingCalls c) callId")
      case None
      with ToolCall base st inv' ot os show ?thesis by (simp add: agrees_def repair_step_def)
    next
      case (Some entry)
      then have "openStep t = Some (fst entry)"
        using pend by (auto simp: pending_ok_def dest!: map_of_SomeD)
      then have "pending_ok t' (AList.update callId (fst entry, Some (ev_seq e)) (rc_pendingCalls c))"
        by (intro pending_ok_update base) (use st seq in auto)
      with Some ToolCall st inv' ot os show ?thesis by (simp add: agrees_def repair_step_def)
    qed
  next
    case (ToolResult r)
    with assms(2) have st: "openStep t' = openStep t" "openTurn t' = openTurn t"
      "pendingCalls t - {tr_callId r} \<subseteq> pendingCalls t'"
      by (auto simp: trace_simps res_simps split: if_splits)
    have "pending_ok t' (AList.delete (tr_callId r) (rc_pendingCalls c))"
      by (rule frame) (use pending_ok_delete [OF pend] st in \<open>auto simp: AList.delete_eq\<close>)
    with ToolResult st inv' ot os show ?thesis by (simp add: agrees_def repair_step_def)
  next
    case (TurnStart turn)
    with assms(2) inv have "openStep t' = None" "openTurn t' = Some turn"
      by (auto simp: trace_simps res_simps trace_inv_def split: if_splits)
    with TurnStart inv' nil show ?thesis by (simp add: agrees_def repair_step_def)
  next
    case (TurnEnd turn reason)
    with assms(2) inv have "openStep t' = None" "openTurn t' = None"
      by (auto simp: trace_simps res_simps trace_inv_def split: if_splits)
    with TurnEnd inv' nil show ?thesis by (simp add: agrees_def repair_step_def)
  next
    case (StepStart turn step)
    with assms(2) have "openStep t = None" "openStep t' = Some step" "openTurn t' = openTurn t"
      by (auto simp: trace_simps res_simps split: if_splits)
    with StepStart inv' closed nil ot show ?thesis by (simp add: agrees_def repair_step_def)
  next
    case (StepEnd turn step)
    with assms(2) have "openStep t' = None" "openTurn t' = openTurn t"
      by (auto simp: trace_simps res_simps split: if_splits)
    with StepEnd inv' nil ot show ?thesis by (simp add: agrees_def repair_step_def)
  qed (use assms(2) inv' ot os frame [OF pend] in
      \<open>auto simp: agrees_def repair_step_def trace_simps res_simps split: if_splits\<close>)
qed

lemma agrees_scan:
  "agrees t c \<Longrightarrow> fold_res trace_step t es = Inr t' \<Longrightarrow> agrees t' (foldl repair_step c es)"
  by (induction es arbitrary: t c) (auto simp: res_simps dest: agrees_step)

lemma agrees_init: "agrees freshTrace repair_init"
  using trace_fold.inv_init by (simp add: agrees_def repair_init_def pending_ok_def freshTrace_def)

lemma agrees_accepted: "seedSession es = Inr t \<Longrightarrow> agrees t (repair_scan es)"
  unfolding seedSession_def repair_scan_def by (rule agrees_scan [OF agrees_init])

text \<open>The validator accepts one result closer and leaves the remaining calls pending.\<close>

lemma result_closer_accepted:
  assumes "pending_ok t ((callId, step, callSeq) # cs)" "openTurn t = Some turn" "lastSeq t < int s"
  shows "\<exists>t'. trace_step t (result_closer turn time callId step callSeq s) = Inr t'
    \<and> openTurn t' = openTurn t \<and> openStep t' = openStep t \<and> nextTurn t' = nextTurn t
    \<and> lastSeq t' = int s \<and> pending_ok t' cs"
proof -
  let ?t' = "t\<lparr>lastSeq := int s, pendingCalls := pendingCalls t - {callId}\<rparr>"
  have "trace_step t (result_closer turn time callId step callSeq s) = Inr ?t'"
    using assms by (auto simp: trace_simps result_closer_def pending_ok_def)
  moreover have "pending_ok t cs" "callId \<notin> fst ` set cs"
    using assms(1) unfolding pending_ok_def by auto
  then have "pending_ok ?t' cs"
    by (elim pending_ok_mono) (use assms(3) in auto)
  ultimately show ?thesis by auto
qed

lemma result_closers_accepted:
  assumes "pending_ok t cs" "openTurn t = Some turn" "lastSeq t < int s"
  shows "\<exists>t'. fold_res trace_step t (result_closers turn time s cs) = Inr t'
    \<and> openTurn t' = openTurn t \<and> openStep t' = openStep t \<and> nextTurn t' = nextTurn t
    \<and> lastSeq t' < int (s + length cs)"
  using assms
proof (induction cs arbitrary: t s)
  case (Cons entry cs)
  obtain callId step callSeq where entry: "entry = (callId, step, callSeq)" by (cases entry)
  from result_closer_accepted [OF Cons.prems [unfolded entry], of time] obtain u where
    u: "trace_step t (result_closer turn time callId step callSeq s) = Inr u"
      "openTurn u = openTurn t" "openStep u = openStep t" "nextTurn u = nextTurn t"
      "lastSeq u = int s" "pending_ok u cs" by auto
  then have "\<exists>t'. fold_res trace_step u (result_closers turn time (s + 1) cs) = Inr t'
    \<and> openTurn t' = openTurn u \<and> openStep t' = openStep u \<and> nextTurn t' = nextTurn u
    \<and> lastSeq t' < int (s + 1 + length cs)"
    by (intro Cons.IH) (use Cons.prems(2) in auto)
  with u show ?case by (simp add: entry)
qed auto

lemma boundary_closers_accepted:
  assumes "openTurn t = Some turn" "openStep t = step" "lastSeq t < int s"
  shows "\<exists>t'. fold_res trace_step t (boundary_closers turn step time s) = Inr t'
    \<and> openTurn t' = None \<and> openStep t' = None \<and> nextTurn t' = nextTurn t + 1"
  using assms by (cases step) (simp_all add: boundary_closers_def trace_simps)

lemma accepted_last_seq:
  assumes "seedSession es = Inr t" "es \<noteq> []"
  shows "lastSeq t = int (ev_seq (last es))"
proof -
  from assms(2) obtain xs e where es: "es = xs @ [e]" by (metis rev_exhaust)
  with assms(1) obtain u where "trace_step u e = Inr t"
    by (auto simp: seedSession_def fold_res_snoc res_simps)
  with trace_step_seq es show ?thesis by auto
qed

text \<open>C25: Repair produces a log that the session invariant accepts: if a log is accepted (it may stop
  anywhere, as a crash leaves it), then so is the log with its closers appended, and afterwards
  neither a turn nor a step is open, so the session can start its next turn.\<close>

theorem repaired_log_accepted:
  assumes "seedSession events = Inr t"
  shows "\<exists>t'. seedSession (events @ interruptedTurnClosers events) = Inr t'
    \<and> openTurn t' = None \<and> openStep t' = None \<and> pendingCalls t' = {}
    \<and> nextTurn t' = (if openTurn t = None then nextTurn t else nextTurn t + 1)"
proof -
  have agr: "agrees t (repair_scan events)" by (rule agrees_accepted [OF assms])
  then have inv: "trace_inv t" and ot: "rc_openTurn (repair_scan events) = openTurn t"
    and os: "rc_openStep (repair_scan events) = openStep t"
    and pend: "pending_ok t (rc_pendingCalls (repair_scan events))" by (auto simp: agrees_def)
  show ?thesis
  proof (cases "openTurn t")
    case None
    then have "interruptedTurnClosers events = []" using ot by (simp add: interruptedTurnClosers_def)
    with assms None inv show ?thesis by (simp add: trace_inv_def)
  next
    case (Some turn)
    then have ne: "events \<noteq> []" using assms by (auto simp: seedSession_def freshTrace_def)
    let ?s = "ev_seq (last events) + 1" and ?time = "ev_time (last events)"
    let ?cs = "rc_pendingCalls (repair_scan events)"
    have "lastSeq t < int ?s" using accepted_last_seq [OF assms ne] by simp
    from result_closers_accepted [OF pend Some this, of ?time] obtain u where
      u: "fold_res trace_step t (result_closers turn ?time ?s ?cs) = Inr u" "openTurn u = Some turn"
        "openStep u = openStep t" "nextTurn u = nextTurn t" "lastSeq u < int (?s + length ?cs)"
      using Some by auto
    from boundary_closers_accepted [OF u(2,3,5), of ?time] obtain v where
      v: "fold_res trace_step u (boundary_closers turn (openStep t) ?time (?s + length ?cs)) = Inr v"
        "openTurn v = None" "openStep v = None" "nextTurn v = nextTurn t + 1"
      using u(4) by auto
    have "interruptedTurnClosers events = result_closers turn ?time ?s ?cs
        @ boundary_closers turn (openStep t) ?time (?s + length ?cs)"
      using Some ot os ne by (simp add: interruptedTurnClosers_def Let_def)
    then have "seedSession (events @ interruptedTurnClosers events) = Inr v"
      using assms u(1) v(1) by (simp add: seedSession_def fold_res_append)
    moreover from this have "trace_inv v" using trace_fold.replay_from_init unfolding seedSession_def by blast
    ultimately show ?thesis using v Some by (auto simp: trace_inv_def)
  qed
qed

text \<open>A log cut off in a step with two requested calls, the first of them recorded as started.\<close>

definition crash_log :: "session_event list" where
  "crash_log =
     [log_event 0 7 (TurnStart 1), log_event 1 7 (StepStart 1 1),
      sample_append 2 (AssistantMessage 1 1 [ToolCallBlock ''a'', OtherBlock JNull, ToolCallBlock ''b'']),
      log_event 3 8 (ToolCall 1 1 ''a'')]"

theorem repaired_log_accepted_witness:
  "\<exists>t t'. seedSession crash_log = Inr t \<and> openStep t = Some 1 \<and>
     seedSession (crash_log @ interruptedTurnClosers crash_log) = Inr t' \<and> openStep t' = None"
proof -
  have "(case seedSession crash_log of Inl e \<Rightarrow> False | Inr t \<Rightarrow> openStep t = Some 1)" by code_simp
  then obtain t where t: "seedSession crash_log = Inr t" "openStep t = Some 1"
    by (auto split: sum.splits)
  with repaired_log_accepted [OF t(1)] show ?thesis by blast
qed

section \<open>Exactly the unanswered calls are closed\<close>

text \<open>A call is unanswered at the end of a log when an assistant message requested it and since then
  neither a result for it nor a step end or turn boundary was logged.\<close>

definition settles :: "string \<Rightarrow> session_event \<Rightarrow> bool" where
  "settles callId e = (case ev_data e of
     ToolResult r \<Rightarrow> tr_callId r = callId
   | TurnStart turn \<Rightarrow> True | TurnEnd turn reason \<Rightarrow> True | StepEnd turn step \<Rightarrow> True | _ \<Rightarrow> False)"

definition requests :: "string \<Rightarrow> session_event \<Rightarrow> bool" where
  "requests callId e = (case ev_data e of
     AssistantMessage turn step content \<Rightarrow> callId \<in> set (tool_call_ids content) | _ \<Rightarrow> False)"

definition unanswered :: "session_event list \<Rightarrow> string \<Rightarrow> bool" where
  "unanswered events callId \<longleftrightarrow>
     (\<exists>xs e ys. events = xs @ e # ys \<and> requests callId e \<and> (\<forall>y \<in> set ys. \<not> settles callId y))"

lemma unanswered_snoc:
  "unanswered (es @ [e]) callId \<longleftrightarrow> requests callId e \<or> (unanswered es callId \<and> \<not> settles callId e)"
  (is "?l \<longleftrightarrow> ?r")
proof
  assume ?l
  then obtain xs d ys where l: "es @ [e] = xs @ d # ys" "requests callId d"
    "\<forall>y \<in> set ys. \<not> settles callId y" by (auto simp: unanswered_def)
  show ?r
  proof (cases ys rule: rev_cases)
    case Nil
    with l show ?thesis by simp
  next
    case (snoc zs z)
    with l have "es = xs @ d # zs" "z = e" by simp_all
    with l snoc show ?thesis by (auto simp: unanswered_def)
  qed
next
  assume ?r
  then show ?l
  proof
    assume "requests callId e"
    then show ?l unfolding unanswered_def by (intro exI [of _ es] exI [of _ e] exI [of _ "[]"]) simp
  next
    assume "unanswered es callId \<and> \<not> settles callId e"
    then obtain xs d ys where "es = xs @ d # ys" "requests callId d"
      "\<forall>y \<in> set (ys @ [e]). \<not> settles callId y" by (auto simp: unanswered_def)
    then show ?l unfolding unanswered_def
      by (intro exI [of _ xs] exI [of _ d] exI [of _ "ys @ [e]"]) simp
  qed
qed

lemma keys_fold_update:
  "fst ` set (fold (\<lambda>k. AList.update k v) ks al) = set ks \<union> fst ` set al"
  by (induction ks arbitrary: al) (auto simp: dom_update)

lemma distinct_fold_update:
  "distinct (map fst al) \<Longrightarrow> distinct (map fst (fold (\<lambda>k. AList.update k v) ks al))"
  by (induction ks arbitrary: al) (auto simp: distinct_update)

lemma keys_delete: "fst ` set (AList.delete k al) = fst ` set al - {k}"
  by (auto simp: AList.delete_eq image_iff)

lemma repair_step_keys:
  "callId \<in> fst ` set (rc_pendingCalls (repair_step c e)) \<longleftrightarrow>
     requests callId e \<or> (callId \<in> fst ` set (rc_pendingCalls c) \<and> \<not> settles callId e)"
  by (cases "ev_data e")
    (auto simp: repair_step_def requests_def settles_def keys_fold_update keys_delete dom_update
      split: option.splits dest!: map_of_SomeD intro: rev_image_eqI)

lemma pending_iff_unanswered:
  "callId \<in> fst ` set (rc_pendingCalls (repair_scan es)) \<longleftrightarrow> unanswered es callId"
proof (induction es rule: rev_induct)
  case Nil
  then show ?case by (simp add: repair_scan_def repair_init_def unanswered_def)
next
  case (snoc e es)
  then show ?case by (simp add: repair_scan_snoc repair_step_keys unanswered_snoc)
qed

lemma pending_distinct: "distinct (map fst (rc_pendingCalls (repair_scan es)))"
proof (induction es rule: rev_induct)
  case Nil
  then show ?case by (simp add: repair_scan_def repair_init_def)
next
  case (snoc e es)
  then show ?case
    by (auto simp: repair_scan_snoc repair_step_def distinct_fold_update distinct_update distinct_delete
        split: event_data.splits option.splits)
qed

fun answered_ids :: "session_event list \<Rightarrow> string list" where
  "answered_ids [] = []"
| "answered_ids (e # es) = (case ev_data e of
     ToolResult r \<Rightarrow> tr_callId r # answered_ids es | _ \<Rightarrow> answered_ids es)"

lemma answered_ids_append: "answered_ids (xs @ ys) = answered_ids xs @ answered_ids ys"
  by (induction xs) (simp_all split: event_data.split)

lemma answered_ids_result_closers: "answered_ids (result_closers turn time s cs) = map fst cs"
  by (induction cs arbitrary: s) (auto simp: result_closer_def)

lemma answered_ids_boundary: "answered_ids (boundary_closers turn step time s) = []"
  by (simp add: boundary_closers_def split: option.split)

text \<open>The closers answer each unanswered call of the log exactly once and no other call.\<close>

lemma closers_answer_unanswered:
  assumes "interruptedTurnClosers events \<noteq> []"
  shows "distinct (answered_ids (interruptedTurnClosers events))
    \<and> set (answered_ids (interruptedTurnClosers events)) = {callId. unanswered events callId}"
proof -
  from assms have "answered_ids (interruptedTurnClosers events)
      = map fst (rc_pendingCalls (repair_scan events))"
    by (auto simp: interruptedTurnClosers_def Let_def answered_ids_append answered_ids_result_closers
        answered_ids_boundary split: option.splits if_splits)
  moreover have "set (map fst (rc_pendingCalls (repair_scan events))) = {callId. unanswered events callId}"
    using pending_iff_unanswered [of _ events] by auto
  ultimately show ?thesis using pending_distinct by metis
qed

section \<open>The surface fold accepts the repaired log\<close>

lemma repair_call_seqs:
  "(callId, step, Some q) \<in> set (rc_pendingCalls (repair_scan es)) \<Longrightarrow> q \<in> ev_seq ` set es"
proof (induction es arbitrary: step rule: rev_induct)
  case Nil
  then show ?case by (simp add: repair_scan_def repair_init_def)
next
  case (snoc e es)
  have upd: "(callId, step, Some q) \<in> set (fold (\<lambda>k. AList.update k (st, None)) ks al) \<Longrightarrow>
      (callId, step, Some q) \<in> set al" for st ks and al :: pending_calls
    by (induction ks arbitrary: al) (auto dest: in_set_update)
  from snoc.prems have "(callId, step, Some q) \<in> set (rc_pendingCalls (repair_scan es)) \<or> q = ev_seq e"
    by (auto simp: repair_scan_snoc repair_step_def AList.delete_eq
        dest: in_set_update upd split: event_data.splits option.splits)
  with snoc.IH show ?case by auto
qed

lemma foldSurface_result_closers:
  assumes "foldSurface es = Inr (ns, rs)"
    and "\<forall>(callId, step, callSeq) \<in> set cs. \<forall>q. callSeq = Some q \<longrightarrow> q < length es \<and> safe_int (int q)"
  shows "foldSurface (es @ result_closers turn time (length es) cs)
    = Inr (ns @ [length es..<length es + length cs], rs)"
  using assms
proof (induction cs arbitrary: es ns)
  case (Cons entry cs)
  obtain callId step callSeq where entry: "entry = (callId, step, callSeq)" by (cases entry)
  let ?e = "result_closer turn time callId step callSeq (length es)"
  have e: "ev_seq ?e = length es" "is_surface_data (ev_data ?e)" "ev_surfaceOp ?e = JStr ''append''"
    by (simp_all add: result_closer_def is_surface_data_def)
  have "assertProvenance ?e [] = Inr ()"
    using Cons.prems(2)
    by (cases callSeq) (auto simp: entry result_closer_def assertProvenance_def checked_sources_def
        isEventSeq_def seq_of_def)
  then have "foldSurface (es @ [?e]) = Inr (ns @ [length es], rs)"
    by (intro foldSurface_snoc_append Cons.prems(1) e)
  then have "foldSurface ((es @ [?e]) @ result_closers turn time (length (es @ [?e])) cs)
      = Inr ((ns @ [length es]) @ [length (es @ [?e])..<length (es @ [?e]) + length cs], rs)"
    by (rule Cons.IH) (use Cons.prems(2) in force)
  moreover have "[length es..<length es + length (entry # cs)]
      = length es # [length (es @ [?e])..<length (es @ [?e]) + length cs]"
    by (simp add: upt_conv_Cons del: upt_Suc)
  ultimately show ?case by (simp add: entry del: upt_Suc)
qed simp

lemma foldSurface_boundary_closers:
  assumes "foldSurface es = Inr (ns, rs)"
  shows "foldSurface (es @ boundary_closers turn step time (length es)) = Inr (ns, rs)"
proof (cases step)
  case None
  with foldSurface_snoc_log [OF assms] show ?thesis
    by (simp add: boundary_closers_def is_surface_data_def)
next
  case (Some n)
  have "foldSurface (es @ [log_event (length es) time (StepEnd turn n)]) = Inr (ns, rs)"
    by (rule foldSurface_snoc_log [OF assms]) (simp add: is_surface_data_def)
  from foldSurface_snoc_log [OF this, of "TurnEnd turn Interrupted" time] Some show ?thesis
    by (simp add: boundary_closers_def is_surface_data_def)
qed

text \<open>Repair never invalidates the surface: if a log replays, the repaired log replays too, the
  surface keeps its nodes and gains, at its end, exactly the synthetic results. (Sequence numbers are
  JavaScript safe integers, so the log is not longer than that.)\<close>

lemma repaired_log_surface:
  assumes "foldSurface events = Inr (ns, rs)" and "int (length events) \<le> max_safe_integer"
  shows "foldSurface (events @ interruptedTurnClosers events) =
    Inr (ns @ [length events..<length events + length (answered_ids (interruptedTurnClosers events))], rs)"
proof (cases "interruptedTurnClosers events = []")
  case False
  let ?cs = "rc_pendingCalls (repair_scan events)"
  from False obtain turn where turn: "rc_openTurn (repair_scan events) = Some turn" and ne: "events \<noteq> []"
    by (auto simp: interruptedTurnClosers_def Let_def split: option.splits if_splits)
  have cont: "contiguous 0 events" by (rule foldSurface_contiguous [OF assms(1)])
  then have last: "ev_seq (last events) + 1 = length events"
    using ne by (simp add: contiguous_def last_conv_nth)
  have "q < length events \<and> safe_int (int q)" if "(callId, step, Some q) \<in> set ?cs" for callId step q
  proof -
    have "q < length events"
      using repair_call_seqs [OF that] cont by (auto simp: contiguous_def in_set_conv_nth)
    with assms(2) show ?thesis by (simp add: safe_int_def)
  qed
  then have "foldSurface (events @ result_closers turn (ev_time (last events)) (length events) ?cs)
      = Inr (ns @ [length events..<length events + length ?cs], rs)"
    by (intro foldSurface_result_closers [OF assms(1)]) auto
  from foldSurface_boundary_closers [OF this] turn ne last show ?thesis
    by (simp add: interruptedTurnClosers_def Let_def answered_ids_append answered_ids_result_closers
        answered_ids_boundary)
qed (use assms(1) in simp)

end
