(* ===== verification/Session_Store.thy ===== *)
theory Session_Store
  imports Session Repair
begin

text \<open>
  The live session store, class \<open>SessionStore\<close> of \<^verbatim>\<open>packages/core/session/src/index.ts\<close>:
  preparing, entering, announcing and detaching sessions, appends to attached sessions, and forks.

  Session and entry objects live in two heaps, so that identity tests are tests on references. Every
  callback boundary of the source (the creation announcement, the publication of an append) is split
  in an opening and a closing step, between which listeners may take any other steps, so that the
  reachable states cover every re-entrant use of the store.

  The theorems: the life cycle (a session is disposed exactly when it was announced, once, and never
  while it is being announced or appended to; a deferred detach is never lost), fresh identities, and
  what a fork inherits.
\<close>

section \<open>State\<close>

record entry =
  en_id :: string
  en_session :: nat
  en_announced :: bool
  en_announcing :: bool
  en_appending :: bool
  en_detachRequested :: bool
  en_entered :: bool                 \<comment> \<open>the flag of the detach closure that \<open>enter\<close> returns\<close>
  en_inflight :: "jsval option"      \<comment> \<open>the event between validation and the end of its append\<close>

datatype signal = Created nat | Disposed nat  \<comment> \<open>with the entry they announce\<close>

record store_state =
  ss_store :: "(string \<times> nat) list"
  ss_entries :: "entry list"
  ss_attachments :: "nat \<Rightarrow> nat option"
  ss_sessions :: "session list"
  ss_counter :: nat
  ss_signals :: "signal list"

definition empty_store :: store_state where
  "empty_store = \<lparr>ss_store = [], ss_entries = [], ss_attachments = (\<lambda>_. None), ss_sessions = [],
     ss_counter = 0, ss_signals = []\<rparr>"

datatype store_error =
    AlreadyExists | AlreadyAttached | NotLive | AlreadyAnnounced | BadSession session_error
  | ForkAlreadyExists | ForkNotFound | ForkNotLive | ForkBoundary | ForkOpenTurn

definition session_id :: "session \<Rightarrow> string" where
  "session_id s = str_of (get (s_header s) ''id'')"

section \<open>Identities\<close>

definition minted :: "nat \<Rightarrow> string" where
  "minted n = ''session-'' @ nat_string n"

lemma minted_inject: "minted m = minted n \<Longrightarrow> m = n"
  by (simp add: minted_def nat_string_inject)

lemma finite_minted: "finite {n. minted n \<in> set ids}"
proof -
  have "inj minted" by (rule injI) (rule minted_inject)
  then have "finite (minted -` set ids)" by (rule finite_vimageI [OF finite_set])
  then show ?thesis by (simp add: vimage_def)
qed

text \<open>The loop \<open>do id = `session-${++counter}` while (store.has(id))\<close>: the final counter.\<close>

function mint :: "string list \<Rightarrow> nat \<Rightarrow> nat" where
  "mint ids counter =
     (if minted (counter + 1) \<in> set ids then mint ids (counter + 1) else counter + 1)"
  by auto
termination
proof (relation "measure (\<lambda>(ids, counter). card {n. counter < n \<and> minted n \<in> set ids})")
  fix ids :: "string list" and counter
  assume taken: "minted (counter + 1) \<in> set ids"
  have "{n. counter + 1 < n \<and> minted n \<in> set ids} \<subset> {n. counter < n \<and> minted n \<in> set ids}"
    using taken by (auto intro: psubsetI)
  moreover have "finite {n. counter < n \<and> minted n \<in> set ids}"
    by (rule finite_subset [OF _ finite_minted [of ids]]) auto
  ultimately show "((ids, counter + 1), (ids, counter)) \<in>
      measure (\<lambda>(ids, counter). card {n. counter < n \<and> minted n \<in> set ids})"
    by (simp add: psubset_card_mono)
qed simp

declare mint.simps [simp del]

lemma mint_fresh: "minted (mint ids counter) \<notin> set ids \<and> counter < mint ids counter"
proof (induction ids counter rule: mint.induct)
  case (1 ids counter)
  then show ?case by (subst (1 2) mint.simps) (auto dest: less_trans)
qed

lemma mint_first:
  "counter < k \<Longrightarrow> k < mint ids counter \<Longrightarrow> minted k \<in> set ids"
proof (induction ids counter rule: mint.induct)
  case (1 ids counter)
  then show ?case by (cases "k = counter + 1") (auto simp: mint.simps [of ids counter] split: if_splits)
qed

section \<open>Preparing\<close>

datatype prepare_options =
    NoOptions
  | FreshOptions "jsval list option" jsval "nat option"  \<comment> \<open>seed, \<open>meta\<close>, inherited event count\<close>
  | RestoreOptions "jsval list" jsval nat

definition meta_field :: "string \<Rightarrow> jsval \<Rightarrow> (string \<times> jsval) list" where
  "meta_field k meta = (if get meta k = JUndef then [] else [(k, get meta k)])"

definition prepared_header :: "string \<Rightarrow> int \<Rightarrow> jsval \<Rightarrow> jsval" where
  "prepared_header sid now meta = JObj
     ([(''version'', JNum (js_int SESSION_FORMAT_VERSION)), (''id'', JStr sid),
       (''createdAt'', if get meta ''createdAt'' \<in> {JUndef, JNull} then JNum (js_int now) else get meta ''createdAt'')]
      @ meta_field ''cwd'' meta @ meta_field ''parentSession'' meta
      @ [(''isSeeded'', if get meta ''isSeeded'' \<in> {JUndef, JNull} then JBool False else get meta ''isSeeded'')]
      @ meta_field ''origin'' meta @ meta_field ''delegationDepth'' meta @ meta_field ''agentPreset'' meta)"

definition prepare_session ::
    "(string \<Rightarrow> bool) \<Rightarrow> int \<Rightarrow> string \<Rightarrow> prepare_options \<Rightarrow> session_error + session" where
  "prepare_session isAbsolute now sid options = (case options of
     RestoreOptions seed meta inherited \<Rightarrow> fromRestore isAbsolute now sid seed meta inherited
   | FreshOptions seed meta inherited \<Rightarrow>
       create_session isAbsolute now sid seed (Some (prepared_header sid now meta)) inherited
   | NoOptions \<Rightarrow> create_session isAbsolute now sid None (Some (prepared_header sid now JUndef)) None)"

definition prepare ::
    "(string \<Rightarrow> bool) \<Rightarrow> int \<Rightarrow> string option \<Rightarrow> prepare_options \<Rightarrow> store_state
     \<Rightarrow> store_state \<times> (store_error + nat)" where
  "prepare isAbsolute now sid options ss =
     (let counter = (case sid of None \<Rightarrow> mint (map fst (ss_store ss)) (ss_counter ss) | Some i \<Rightarrow> ss_counter ss);
          sessionId = (case sid of None \<Rightarrow> minted counter | Some i \<Rightarrow> i);
          ss1 = ss\<lparr>ss_counter := counter\<rparr> in
      if map_of (ss_store ss) sessionId \<noteq> None then (ss1, Inl AlreadyExists)
      else case prepare_session isAbsolute now sessionId options of
          Inl err \<Rightarrow> (ss1, Inl (BadSession err))
        | Inr s \<Rightarrow> (ss1\<lparr>ss_sessions := ss_sessions ss @ [s]\<rparr>, Inr (length (ss_sessions ss))))"

section \<open>Entering, announcing, detaching\<close>

definition enter :: "nat \<Rightarrow> store_state \<Rightarrow> store_state \<times> (store_error + nat)" where
  "enter obj ss =
     (let sid = session_id (ss_sessions ss ! obj); ref = length (ss_entries ss) in
      if map_of (ss_store ss) sid \<noteq> None then (ss, Inl AlreadyExists)
      else if ss_attachments ss obj \<noteq> None then (ss, Inl AlreadyAttached)
      else
       (ss\<lparr>ss_entries := ss_entries ss @
             [\<lparr>en_id = sid, en_session = obj, en_announced = False, en_announcing = False,
               en_appending = False, en_detachRequested = False, en_entered = True, en_inflight = None\<rparr>],
           ss_store := ss_store ss @ [(sid, ref)],
           ss_attachments := (ss_attachments ss)(obj := Some ref)\<rparr>, Inr ref))"

definition set_entry :: "nat \<Rightarrow> (entry \<Rightarrow> entry) \<Rightarrow> store_state \<Rightarrow> store_state" where
  "set_entry ref f ss = ss\<lparr>ss_entries := (ss_entries ss)[ref := f (ss_entries ss ! ref)]\<rparr>"

definition detachEntered :: "nat \<Rightarrow> store_state \<Rightarrow> store_state" where
  "detachEntered ref ss =
     (let ss1 = set_entry ref (\<lambda>en. en\<lparr>en_detachRequested := False\<rparr>) ss; en = ss_entries ss1 ! ref in
      if map_of (ss_store ss1) (en_id en) \<noteq> Some ref then ss1
      else ss1\<lparr>ss_store := filter (\<lambda>p. fst p \<noteq> en_id en) (ss_store ss1),
               ss_attachments := (ss_attachments ss1)(en_session en := None),
               ss_signals := ss_signals ss1 @ (if en_announced en then [Disposed ref] else [])\<rparr>)"

text \<open>The closure that \<open>enter\<close> returns.\<close>

definition detach :: "nat \<Rightarrow> store_state \<Rightarrow> store_state" where
  "detach ref ss =
     (if \<not> en_entered (ss_entries ss ! ref) then ss
      else let ss1 = set_entry ref (\<lambda>en. en\<lparr>en_entered := False\<rparr>) ss; en = ss_entries ss1 ! ref in
        if en_announcing en \<or> en_appending en
        then set_entry ref (\<lambda>en. en\<lparr>en_detachRequested := True\<rparr>) ss1
        else detachEntered ref ss1)"

definition liveEntryFor :: "nat \<Rightarrow> store_state \<Rightarrow> store_error + nat" where
  "liveEntryFor obj ss = (case ss_attachments ss obj of
     None \<Rightarrow> Inl NotLive
   | Some ref \<Rightarrow>
      (if map_of (ss_store ss) (en_id (ss_entries ss ! ref)) \<noteq> Some ref then Inl NotLive else Inr ref))"

text \<open>\<open>announce\<close> up to its listeners, and its \<open>finally\<close> block, which runs whether a listener vetoed
  or not.\<close>

definition announce_open :: "nat \<Rightarrow> store_state \<Rightarrow> store_error + (store_state \<times> nat)" where
  "announce_open obj ss = bind_res (liveEntryFor obj ss) (\<lambda>ref.
     if en_announced (ss_entries ss ! ref) \<or> en_announcing (ss_entries ss ! ref) then Inl AlreadyAnnounced
     else let ss1 = set_entry ref (\<lambda>en. en\<lparr>en_announced := True, en_announcing := True\<rparr>) ss in
       Inr (ss1\<lparr>ss_signals := ss_signals ss1 @ [Created ref]\<rparr>, ref))"

definition announce_close :: "nat \<Rightarrow> store_state \<Rightarrow> store_state" where
  "announce_close ref ss =
     (let ss1 = set_entry ref (\<lambda>en. en\<lparr>en_announcing := False\<rparr>) ss; en = ss_entries ss1 ! ref in
      if en_detachRequested en \<and> \<not> en_appending en then detachEntered ref ss1 else ss1)"

section \<open>Appends to sessions\<close>

definition set_session :: "nat \<Rightarrow> session \<Rightarrow> store_state \<Rightarrow> store_state" where
  "set_session obj s ss = ss\<lparr>ss_sessions := (ss_sessions ss)[obj := s]\<rparr>"

text \<open>An append to a detached session, in one step.\<close>

definition append_detached ::
    "nat \<Rightarrow> int \<Rightarrow> string \<Rightarrow> jsval \<Rightarrow> jsval \<Rightarrow> jsval \<Rightarrow> store_state \<Rightarrow> store_state" where
  "append_detached obj now type data sources op ss =
     set_session obj (fst (append False False now type data sources op (ss_sessions ss ! obj))) ss"

text \<open>An append to an attached session: validation and the \<open>appending\<close> flag; then, unless resolving
  the listeners threw, the push; then the listeners; then the \<open>finally\<close> block.\<close>

definition append_open ::
    "nat \<Rightarrow> nat \<Rightarrow> int \<Rightarrow> string \<Rightarrow> jsval \<Rightarrow> jsval \<Rightarrow> jsval \<Rightarrow> store_state \<Rightarrow> store_state" where
  "append_open obj ref now type data sources op ss =
     (case prepare_append (en_appending (ss_entries ss ! ref)) now type data sources op (ss_sessions ss ! obj) of
        (s, Inl err) \<Rightarrow> set_session obj s ss
      | (s, Inr event) \<Rightarrow>
          set_entry ref (\<lambda>en. en\<lparr>en_appending := True, en_inflight := Some event\<rparr>) (set_session obj s ss))"

definition push_event :: "jsval \<Rightarrow> session \<Rightarrow> session" where
  "push_event event s = s\<lparr>s_log := s_log s @ [event], s_snapshot := None\<rparr>"

definition append_push :: "nat \<Rightarrow> store_state \<Rightarrow> store_state" where
  "append_push ref ss = (let en = ss_entries ss ! ref in case en_inflight en of
     None \<Rightarrow> ss
   | Some event \<Rightarrow> set_entry ref (\<lambda>en. en\<lparr>en_inflight := None\<rparr>)
       (set_session (en_session en) (push_event event (ss_sessions ss ! en_session en)) ss))"

definition append_close :: "nat \<Rightarrow> store_state \<Rightarrow> store_state" where
  "append_close ref ss =
     (let ss1 = set_entry ref (\<lambda>en. en\<lparr>en_appending := False, en_inflight := None\<rparr>) ss; en = ss_entries ss1 ! ref in
      if en_detachRequested en \<and> \<not> en_announcing en then detachEntered ref ss1 else ss1)"

section \<open>Lookups and forks\<close>

definition get_session :: "string \<Rightarrow> store_state \<Rightarrow> nat option" where
  "get_session sid ss = map_option (\<lambda>ref. en_session (ss_entries ss ! ref)) (map_of (ss_store ss) sid)"

definition list_sessions :: "store_state \<Rightarrow> nat list" where
  "list_sessions ss = map (\<lambda>p. en_session (ss_entries ss ! snd p)) (ss_store ss)"

datatype fork_source = SourceObject nat | SourceId string

definition resolveForkSource :: "fork_source \<Rightarrow> store_state \<Rightarrow> store_error + nat" where
  "resolveForkSource source ss = (case source of
     SourceId sid \<Rightarrow> (case get_session sid ss of None \<Rightarrow> Inl ForkNotFound | Some obj \<Rightarrow> Inr obj)
   | SourceObject obj \<Rightarrow>
       (case get_session (session_id (ss_sessions ss ! obj)) ss of
          None \<Rightarrow> Inl ForkNotFound
        | Some live \<Rightarrow> (if live \<noteq> obj then Inl ForkNotLive else Inr obj)))"

definition is_turn_boundary :: "jsval \<Rightarrow> bool" where
  "is_turn_boundary e \<longleftrightarrow> get e ''type'' = JStr ''turn/start'' \<or> get e ''type'' = JStr ''turn/end''"

text \<open>\<open>boundary\<close> is the requested boundary, when one was given. The snapshots are of the session's
  log (the cache they update is not observable).\<close>

definition forkSeed :: "session \<Rightarrow> js_number option \<Rightarrow> store_error + jsval list" where
  "forkSeed s requested =
     (if requested = None \<and> s_log s = [] then Inr []
      else let b = (case requested of Some n \<Rightarrow> n | None \<Rightarrow> number_of (get (last (s_log s)) ''seq'')) in
        if \<not> is_safe_integer b \<or> int_of_number b < 0 then Inl ForkBoundary
        else let boundary = nat (int_of_number b) in
          if boundary \<ge> length (s_log s) then Inl ForkBoundary
          else if get (s_log s ! boundary) ''seq'' \<noteq> JNum (js_int (int boundary)) then Inl ForkBoundary
          else let events = slice (s_log s) 0 (boundary + 1) in
            case find is_turn_boundary (rev events) of
              None \<Rightarrow> Inr events
            | Some e \<Rightarrow> (if get e ''type'' = JStr ''turn/start'' then Inl ForkOpenTurn else Inr events))"

definition fork_options :: "session \<Rightarrow> jsval list \<Rightarrow> prepare_options" where
  "fork_options source seed = FreshOptions (Some seed)
     (JObj (meta_field ''cwd'' (s_header source) @
        [(''parentSession'', JStr (session_id source)), (''isSeeded'', JBool True)])) (Some (length seed))"

text \<open>\<open>fork\<close> up to the child session that \<open>create\<close> then enters and announces.\<close>

definition fork_prepare ::
    "(string \<Rightarrow> bool) \<Rightarrow> int \<Rightarrow> fork_source \<Rightarrow> js_number option \<Rightarrow> string option \<Rightarrow> store_state
     \<Rightarrow> store_state \<times> (store_error + nat)" where
  "fork_prepare isAbsolute now source boundary child ss =
     (if (case child of None \<Rightarrow> False | Some sid \<Rightarrow> get_session sid ss \<noteq> None) then (ss, Inl ForkAlreadyExists)
      else case resolveForkSource source ss of
          Inl err \<Rightarrow> (ss, Inl err)
        | Inr obj \<Rightarrow>
      (case forkSeed (ss_sessions ss ! obj) boundary of
          Inl err \<Rightarrow> (ss, Inl err)
        | Inr seed \<Rightarrow> prepare isAbsolute now child (fork_options (ss_sessions ss ! obj) seed) ss))"

text \<open>\<open>create\<close>: the effect enters the prepared session and announces it; when a creation listener
  throws, the effect runs the detach that it has already yielded.\<close>

definition publish_open :: "nat \<Rightarrow> store_state \<Rightarrow> store_error + (store_state \<times> nat)" where
  "publish_open obj ss = (case enter obj ss of
     (ss1, Inl err) \<Rightarrow> Inl err | (ss1, Inr ref) \<Rightarrow> announce_open obj ss1)"

definition publish_close :: "bool \<Rightarrow> nat \<Rightarrow> store_state \<Rightarrow> store_state" where
  "publish_close thrown ref ss =
     (let ss1 = announce_close ref ss in if thrown then detach ref ss1 else ss1)"

section \<open>Steps and reachable states\<close>

inductive store_step :: "store_state \<Rightarrow> store_state \<Rightarrow> bool" where
  st_prepare: "store_step ss (fst (prepare isAbsolute now sid options ss))"
| st_enter: "obj < length (ss_sessions ss) \<Longrightarrow> store_step ss (fst (enter obj ss))"
| st_announce: "announce_open obj ss = Inr (ss', ref) \<Longrightarrow> store_step ss ss'"
| st_announced: "ref < length (ss_entries ss) \<Longrightarrow> en_announcing (ss_entries ss ! ref) \<Longrightarrow>
    store_step ss (announce_close ref ss)"
| st_detach: "ref < length (ss_entries ss) \<Longrightarrow> store_step ss (detach ref ss)"
| st_append_detached: "obj < length (ss_sessions ss) \<Longrightarrow> ss_attachments ss obj = None \<Longrightarrow>
    store_step ss (append_detached obj now type data sources op ss)"
| st_append_open: "ss_attachments ss obj = Some ref \<Longrightarrow>
    store_step ss (append_open obj ref now type data sources op ss)"
| st_append_push: "ref < length (ss_entries ss) \<Longrightarrow> store_step ss (append_push ref ss)"
| st_append_close: "ref < length (ss_entries ss) \<Longrightarrow> en_appending (ss_entries ss ! ref) \<Longrightarrow>
    store_step ss (append_close ref ss)"
| st_read: "obj < length (ss_sessions ss) \<Longrightarrow> c \<in> {ReadOwn, ReadHeader, ReadContext, Derive} \<union> range (\<lambda>(a, b). Snapshot a b) \<Longrightarrow>
    store_step ss (set_session obj (run_call c (ss_sessions ss ! obj)) ss)"

inductive store_reachable :: "store_state \<Rightarrow> bool" where
  sr_empty: "store_reachable empty_store"
| sr_step: "store_reachable ss \<Longrightarrow> store_step ss ss' \<Longrightarrow> store_reachable ss'"

section \<open>The invariant\<close>

definition busy :: "entry \<Rightarrow> bool" where
  "busy en \<longleftrightarrow> en_announcing en \<or> en_appending en"

text \<open>The part of the signals that concerns one entry.\<close>

fun about :: "nat \<Rightarrow> signal \<Rightarrow> bool" where
  "about ref (Created r) = (r = ref)"
| "about ref (Disposed r) = (r = ref)"

definition signals_of :: "nat \<Rightarrow> entry \<Rightarrow> signal list" where
  "signals_of ref en = (if en_announced en
     then Created ref # (if en_entered en \<or> busy en then [] else [Disposed ref]) else [])"

definition named :: "session list \<Rightarrow> string \<Rightarrow> nat \<Rightarrow> bool" where
  "named sessions sid obj \<longleftrightarrow> sid = session_id (sessions ! obj)"

lemma named_update: "s_header s = s_header (xs ! obj) \<Longrightarrow> named (xs[obj := s]) sid o' = named xs sid o'"
  by (cases "obj < length xs"; cases "o' = obj") (simp_all add: named_def session_id_def list_update_beyond)

text \<open>An entry is in the store and attached exactly while its detach was not called or it is busy.\<close>

definition entry_ok :: "store_state \<Rightarrow> nat \<Rightarrow> entry \<Rightarrow> bool" where
  "entry_ok ss ref en \<longleftrightarrow> en_session en < length (ss_sessions ss)
     \<and> (map_of (ss_store ss) (en_id en) = Some ref \<longleftrightarrow> en_entered en \<or> busy en)
     \<and> (ss_attachments ss (en_session en) = Some ref \<longleftrightarrow> en_entered en \<or> busy en)
     \<and> (en_announcing en \<longrightarrow> en_announced en)
     \<and> (en_detachRequested en \<longleftrightarrow> \<not> en_entered en \<and> busy en)
     \<and> (\<forall>event. en_inflight en = Some event \<longrightarrow> en_appending en \<and>
          returns (fold_window (typed (ss_sessions ss ! en_session en) @ [view_event event]) 0))
     \<and> filter (about ref) (ss_signals ss) = signals_of ref en
     \<and> named (ss_sessions ss) (en_id en) (en_session en)"

definition store_inv :: "store_state \<Rightarrow> bool" where
  "store_inv ss \<longleftrightarrow> (\<forall>ref < length (ss_entries ss). entry_ok ss ref (ss_entries ss ! ref))
     \<and> distinct (map fst (ss_store ss))
     \<and> (\<forall>(sid, ref) \<in> set (ss_store ss). ref < length (ss_entries ss) \<and> en_id (ss_entries ss ! ref) = sid)
     \<and> (\<forall>obj ref. ss_attachments ss obj = Some ref \<longrightarrow>
          ref < length (ss_entries ss) \<and> en_session (ss_entries ss ! ref) = obj)
     \<and> (\<forall>ref \<ge> length (ss_entries ss). filter (about ref) (ss_signals ss) = [])
     \<and> (\<forall>s \<in> set (ss_sessions ss). session_inv s)"

lemma store_inv_entry: "store_inv ss \<Longrightarrow> ref < length (ss_entries ss) \<Longrightarrow> entry_ok ss ref (ss_entries ss ! ref)"
  by (simp add: store_inv_def)

lemma store_inv_session: "store_inv ss \<Longrightarrow> obj < length (ss_sessions ss) \<Longrightarrow> session_inv (ss_sessions ss ! obj)"
  by (simp add: store_inv_def)

lemma store_inv_attached:
  assumes "store_inv ss" "ss_attachments ss obj = Some ref"
  shows "ref < length (ss_entries ss) \<and> en_session (ss_entries ss ! ref) = obj \<and> obj < length (ss_sessions ss)
     \<and> (en_entered (ss_entries ss ! ref) \<or> busy (ss_entries ss ! ref))"
proof -
  have ref: "ref < length (ss_entries ss)" "en_session (ss_entries ss ! ref) = obj"
    using assms by (simp_all add: store_inv_def)
  with store_inv_entry [OF assms(1) ref(1)] assms(2) show ?thesis by (auto simp: entry_ok_def)
qed

text \<open>An update of one entry that does not change whether it is live or what it has signalled.\<close>

lemma set_entry_inv:
  assumes "store_inv ss" "ref < length (ss_entries ss)"
    and same: "en_id (f en) = en_id en" "en_session (f en) = en_session en"
      "en_entered (f en) \<or> busy (f en) \<longleftrightarrow> en_entered en \<or> busy en"
      "en_announced (f en) = en_announced en"
    and "en_announcing (f en) \<longrightarrow> en_announced (f en)"
      "en_detachRequested (f en) \<longleftrightarrow> \<not> en_entered (f en) \<and> busy (f en)"
      "\<And>event. en_inflight (f en) = Some event \<Longrightarrow> en_appending (f en) \<and>
          returns (fold_window (typed (ss_sessions ss ! en_session en) @ [view_event event]) 0)"
    and en: "en = ss_entries ss ! ref"
  shows "store_inv (set_entry ref f ss)"
proof -
  have ok: "entry_ok ss r (ss_entries ss ! r)" if "r < length (ss_entries ss)" for r
    by (rule store_inv_entry [OF assms(1) that])
  have "signals_of ref (f en) = signals_of ref en" using same by (simp add: signals_of_def)
  then have "entry_ok (set_entry ref f ss) ref (f en)"
    using ok [OF assms(2)] assms(3-9) en
    by (simp add: entry_ok_def set_entry_def)
  moreover have "entry_ok (set_entry ref f ss) r (ss_entries ss ! r)" if "r < length (ss_entries ss)" for r
    using ok [OF that] by (simp add: entry_ok_def set_entry_def)
  ultimately have "entry_ok (set_entry ref f ss) r (ss_entries (set_entry ref f ss) ! r)"
    if "r < length (ss_entries ss)" for r
    using that en by (cases "r = ref") (simp_all add: set_entry_def)
  then show ?thesis
    using assms(1,2) same en unfolding store_inv_def
    by (auto simp: set_entry_def nth_list_update)
qed

lemma set_session_inv:
  assumes "store_inv ss" "obj < length (ss_sessions ss)" "session_inv s"
    and "s_header s = s_header (ss_sessions ss ! obj)"
    and "\<And>ref. ss_attachments ss obj = Some ref \<Longrightarrow> en_inflight (ss_entries ss ! ref) \<noteq> None \<Longrightarrow>
      s_log s = s_log (ss_sessions ss ! obj)"
  shows "store_inv (set_session obj s ss)"
proof -
  have "entry_ok (set_session obj s ss) ref (ss_entries ss ! ref)" if r: "ref < length (ss_entries ss)" for ref
  proof -
    have ok: "entry_ok ss ref (ss_entries ss ! ref)" by (rule store_inv_entry [OF assms(1) r])
    show ?thesis
    proof (cases "en_session (ss_entries ss ! ref) = obj")
      case True
      have "typed s = typed (ss_sessions ss ! obj)" if "en_inflight (ss_entries ss ! ref) = Some event" for event
        using ok that assms(5) [of ref] True by (auto simp: entry_ok_def typed_def busy_def)
      with ok True assms(2,4) show ?thesis
        by (simp add: entry_ok_def set_session_def named_update)
    next
      case False
      with ok assms(4) show ?thesis by (simp add: entry_ok_def set_session_def named_update)
    qed
  qed
  moreover have "\<forall>x \<in> set ((ss_sessions ss)[obj := s]). session_inv x"
    using assms(1,3) set_update_subset_insert [of "ss_sessions ss" obj s] unfolding store_inv_def by blast
  ultimately show ?thesis using assms(1) by (simp add: store_inv_def set_session_def)
qed

text \<open>What is left of a state when an entry is removed.\<close>

definition removed :: "nat \<Rightarrow> store_state \<Rightarrow> store_state" where
  "removed ref ss = (let en = ss_entries ss ! ref in
     ss\<lparr>ss_entries := (ss_entries ss)[ref := en\<lparr>en_entered := False, en_announcing := False,
          en_appending := False, en_detachRequested := False, en_inflight := None\<rparr>],
        ss_store := filter (\<lambda>p. fst p \<noteq> en_id en) (ss_store ss),
        ss_attachments := (ss_attachments ss)(en_session en := None),
        ss_signals := ss_signals ss @ (if en_announced en then [Disposed ref] else [])\<rparr>)"

lemma map_of_filter_key: "map_of (filter (\<lambda>p. fst p \<noteq> k) xs) j = (if j = k then None else map_of xs j)"
  by (induction xs) auto

lemma removed_inv:
  assumes inv: "store_inv ss" and ref: "ref < length (ss_entries ss)"
    and live: "en_entered (ss_entries ss ! ref) \<or> busy (ss_entries ss ! ref)"
  shows "store_inv (removed ref ss)"
proof -
  let ?en = "ss_entries ss ! ref"
  have ok: "entry_ok ss r (ss_entries ss ! r)" if "r < length (ss_entries ss)" for r
    by (rule store_inv_entry [OF inv that])
  have mine: "map_of (ss_store ss) (en_id ?en) = Some ref" "ss_attachments ss (en_session ?en) = Some ref"
    using ok [OF ref] live by (auto simp: entry_ok_def)
  have self: "entry_ok (removed ref ss) ref (ss_entries (removed ref ss) ! ref)"
    using ok [OF ref] live ref
    by (auto simp: entry_ok_def removed_def Let_def map_of_filter_key busy_def signals_of_def)
  have other: "entry_ok (removed ref ss) r (ss_entries ss ! r)" if r: "r < length (ss_entries ss)" "r \<noteq> ref" for r
  proof -
    have "filter (about r) (ss_signals (removed ref ss)) = filter (about r) (ss_signals ss)"
      using r(2) by (simp add: removed_def Let_def)
    moreover have "(map_of (ss_store (removed ref ss)) k = Some r) = (map_of (ss_store ss) k = Some r)" for k
      using mine(1) r(2) by (simp add: removed_def Let_def map_of_filter_key)
    moreover have "(ss_attachments (removed ref ss) ob = Some r) = (ss_attachments ss ob = Some r)" for ob
      using mine(2) r(2) by (simp add: removed_def Let_def)
    moreover have "ss_sessions (removed ref ss) = ss_sessions ss" by (simp add: removed_def Let_def)
    ultimately show ?thesis using ok [OF r(1)] by (simp add: entry_ok_def)
  qed
  have "\<forall>r < length (ss_entries ss). entry_ok (removed ref ss) r (ss_entries (removed ref ss) ! r)"
    using self other ref by (auto simp: removed_def Let_def nth_list_update)
  moreover have "distinct (map fst (filter (\<lambda>p. fst p \<noteq> k) xs))" if "distinct (map fst xs)" for k and xs :: "(string \<times> nat) list"
    using that by (induction xs) auto
  ultimately show ?thesis using inv ref unfolding store_inv_def
    by (auto simp: removed_def Let_def nth_list_update split: if_splits)
qed

section \<open>Every step keeps the invariant\<close>

lemma entry_eqI:
  "en_id x = en_id y \<Longrightarrow> en_session x = en_session y \<Longrightarrow> en_announced x = en_announced y \<Longrightarrow>
   en_announcing x = en_announcing y \<Longrightarrow> en_appending x = en_appending y \<Longrightarrow>
   en_detachRequested x = en_detachRequested y \<Longrightarrow> en_entered x = en_entered y \<Longrightarrow>
   en_inflight x = en_inflight y \<Longrightarrow> x = (y :: entry)"
  by (cases x; cases y) simp

lemma detachEntered_removed:
  assumes "store_inv ss" "ref < length (ss_entries ss)"
    and "en_entered (ss_entries ss ! ref) \<or> busy (ss_entries ss ! ref)"
    and ss1: "ss1 = ss\<lparr>ss_entries := (ss_entries ss)[ref := en]\<rparr>"
    and "en\<lparr>en_detachRequested := False\<rparr> = (ss_entries ss ! ref)\<lparr>en_entered := False, en_announcing := False,
          en_appending := False, en_detachRequested := False, en_inflight := None\<rparr>"
  shows "detachEntered ref ss1 = removed ref ss"
proof -
  have "map_of (ss_store ss) (en_id (ss_entries ss ! ref)) = Some ref"
    using store_inv_entry [OF assms(1,2)] assms(3) by (simp add: entry_ok_def)
  with assms(2,5) show ?thesis
    by (simp add: detachEntered_def set_entry_def removed_def Let_def ss1)
qed

lemma detach_inv:
  assumes inv: "store_inv ss" and ref: "ref < length (ss_entries ss)"
  shows "store_inv (detach ref ss)"
proof (cases "en_entered (ss_entries ss ! ref)")
  case True
  let ?en = "ss_entries ss ! ref"
  note ok = store_inv_entry [OF inv ref]
  show ?thesis
  proof (cases "busy ?en")
    case busy: True
    have "detach ref ss = set_entry ref (\<lambda>en. en\<lparr>en_entered := False, en_detachRequested := True\<rparr>) ss"
      using True busy ref by (simp add: detach_def set_entry_def Let_def busy_def)
    moreover have "store_inv \<dots>"
      by (rule set_entry_inv [OF inv ref]) (use ok True busy in \<open>auto simp: entry_ok_def busy_def\<close>)
    ultimately show ?thesis by simp
  next
    case False
    then have "detach ref ss = detachEntered ref (set_entry ref (\<lambda>en. en\<lparr>en_entered := False\<rparr>) ss)"
      using True ref by (simp add: detach_def set_entry_def Let_def busy_def)
    also have "\<dots> = removed ref ss"
      by (rule detachEntered_removed [OF inv ref])
        (use ok True False in \<open>auto simp: set_entry_def entry_ok_def busy_def intro!: entry_eqI\<close>)
    finally show ?thesis using removed_inv [OF inv ref] True by simp
  qed
qed (use inv in \<open>simp add: detach_def\<close>)

lemma announce_close_inv:
  assumes inv: "store_inv ss" and ref: "ref < length (ss_entries ss)" and ann: "en_announcing (ss_entries ss ! ref)"
  shows "store_inv (announce_close ref ss)"
proof -
  let ?en = "ss_entries ss ! ref"
  note ok = store_inv_entry [OF inv ref]
  show ?thesis
  proof (cases "en_detachRequested ?en \<and> \<not> en_appending ?en")
    case True
    then have "announce_close ref ss = detachEntered ref (set_entry ref (\<lambda>en. en\<lparr>en_announcing := False\<rparr>) ss)"
      using ref by (simp add: announce_close_def set_entry_def Let_def)
    also have "\<dots> = removed ref ss"
      by (rule detachEntered_removed [OF inv ref])
        (use ok True ann in \<open>auto simp: set_entry_def entry_ok_def busy_def intro!: entry_eqI\<close>)
    finally show ?thesis using removed_inv [OF inv ref] ann by (simp add: busy_def)
  next
    case False
    then have "announce_close ref ss = set_entry ref (\<lambda>en. en\<lparr>en_announcing := False\<rparr>) ss"
      using ref by (auto simp: announce_close_def set_entry_def Let_def)
    moreover have "store_inv \<dots>"
      by (rule set_entry_inv [OF inv ref]) (use ok False ann in \<open>auto simp: entry_ok_def busy_def\<close>)
    ultimately show ?thesis by simp
  qed
qed

lemma append_close_inv:
  assumes inv: "store_inv ss" and ref: "ref < length (ss_entries ss)" and app: "en_appending (ss_entries ss ! ref)"
  shows "store_inv (append_close ref ss)"
proof -
  let ?en = "ss_entries ss ! ref"
  note ok = store_inv_entry [OF inv ref]
  show ?thesis
  proof (cases "en_detachRequested ?en \<and> \<not> en_announcing ?en")
    case True
    then have "append_close ref ss =
        detachEntered ref (set_entry ref (\<lambda>en. en\<lparr>en_appending := False, en_inflight := None\<rparr>) ss)"
      using ref by (simp add: append_close_def set_entry_def Let_def)
    also have "\<dots> = removed ref ss"
      by (rule detachEntered_removed [OF inv ref])
        (use ok True app in \<open>auto simp: set_entry_def entry_ok_def busy_def intro!: entry_eqI\<close>)
    finally show ?thesis using removed_inv [OF inv ref] app by (simp add: busy_def)
  next
    case False
    then have "append_close ref ss = set_entry ref (\<lambda>en. en\<lparr>en_appending := False, en_inflight := None\<rparr>) ss"
      using ref by (auto simp: append_close_def set_entry_def Let_def)
    moreover have "store_inv \<dots>"
      by (rule set_entry_inv [OF inv ref]) (use ok False app in \<open>auto simp: entry_ok_def busy_def\<close>)
    ultimately show ?thesis by simp
  qed
qed

lemma announce_open_inv:
  assumes inv: "store_inv ss" and run: "announce_open obj ss = Inr (ss', ref)"
  shows "store_inv ss'"
proof -
  from run have at: "ss_attachments ss obj = Some ref" and new: "\<not> en_announced (ss_entries ss ! ref)"
    and ss': "ss' = (let ss1 = set_entry ref (\<lambda>en. en\<lparr>en_announced := True, en_announcing := True\<rparr>) ss in
      ss1\<lparr>ss_signals := ss_signals ss1 @ [Created ref]\<rparr>)"
    by (auto simp: announce_open_def liveEntryFor_def res_simps Let_def split: option.splits if_splits)
  note a = store_inv_attached [OF inv at]
  note ok = store_inv_entry [OF inv]
  have "entry_ok ss' r (ss_entries ss' ! r)" if r: "r < length (ss_entries ss)" for r
    using ok [OF r] r a new
    by (cases "r = ref") (auto simp: ss' Let_def set_entry_def entry_ok_def signals_of_def busy_def)
  with inv a show ?thesis
    by (auto simp: store_inv_def ss' Let_def set_entry_def nth_list_update)
qed

lemma enter_inv:
  assumes inv: "store_inv ss" and obj: "obj < length (ss_sessions ss)"
  shows "store_inv (fst (enter obj ss))"
proof (cases "map_of (ss_store ss) (session_id (ss_sessions ss ! obj)) = None \<and> ss_attachments ss obj = None")
  case True
  let ?ref = "length (ss_entries ss)" and ?sid = "session_id (ss_sessions ss ! obj)"
  let ?ss' = "fst (enter obj ss)"
  have ss': "?ss' = ss\<lparr>ss_entries := ss_entries ss @
             [\<lparr>en_id = ?sid, en_session = obj, en_announced = False, en_announcing = False,
               en_appending = False, en_detachRequested = False, en_entered = True, en_inflight = None\<rparr>],
           ss_store := ss_store ss @ [(?sid, ?ref)],
           ss_attachments := (ss_attachments ss)(obj := Some ?ref)\<rparr>"
    using True by (simp add: enter_def Let_def)
  have mapping: "map_of (ss_store ss @ [(?sid, ?ref)]) k = (if k = ?sid then Some ?ref else map_of (ss_store ss) k)" for k
    using True by (auto simp: map_add_def split: option.split)
  have old: "entry_ok ?ss' r (ss_entries ss ! r)" if r: "r < length (ss_entries ss)" for r
    using store_inv_entry [OF inv r] r True unfolding entry_ok_def ss'
    by (simp add: mapping del: map_of_append) (metis option.distinct(1) option.inject less_irrefl)
  have new: "entry_ok ?ss' ?ref (ss_entries ?ss' ! ?ref)"
    using inv obj unfolding entry_ok_def ss'
    by (simp add: mapping busy_def signals_of_def store_inv_def named_def del: map_of_append)
  have "entry_ok ?ss' r (ss_entries ?ss' ! r)" if "r < Suc ?ref" for r
    using old [of r] new that by (cases "r = ?ref") (simp_all add: ss' nth_append)
  moreover have "?sid \<notin> fst ` set (ss_store ss)" using True by (simp add: map_of_eq_None_iff)
  moreover have "ref < ?ref" if "ss_attachments ss o' = Some ref" for o' ref
    using store_inv_attached [OF inv that] by simp
  ultimately show ?thesis using inv unfolding store_inv_def
    by (auto simp: ss' nth_append Suc_le_eq less_Suc_eq)
qed (use inv in \<open>auto simp: enter_def Let_def\<close>)

lemma prepare_session_inv:
  assumes "prepare_session isAbsolute now sid options = Inr s"
  shows "session_inv s"
proof -
  have "\<exists>seed header mode inherited. new_session isAbsolute now sid seed header mode inherited = Inr s"
    using assms unfolding prepare_session_def fromRestore_def create_session_def
    by (cases options) (simp_all, blast+)
  then show ?thesis by (blast intro: new_session_log(1))
qed

lemma add_session_inv:
  assumes "store_inv ss" "session_inv s"
  shows "store_inv (ss\<lparr>ss_counter := c, ss_sessions := ss_sessions ss @ [s]\<rparr>)"
proof -
  have "entry_ok (ss\<lparr>ss_counter := c, ss_sessions := ss_sessions ss @ [s]\<rparr>) ref en" if "entry_ok ss ref en" for ref en
    using that by (auto simp: entry_ok_def named_def nth_append)
  with assms show ?thesis by (simp add: store_inv_def)
qed

lemma prepare_inv:
  assumes "store_inv ss"
  shows "store_inv (fst (prepare isAbsolute now sid options ss))"
proof -
  have "entry_ok (ss\<lparr>ss_counter := c\<rparr>) ref en = entry_ok ss ref en" for c ref en
    by (simp add: entry_ok_def)
  then have c: "store_inv (ss\<lparr>ss_counter := c\<rparr>)" for c
    using assms by (simp add: store_inv_def)
  show ?thesis using c add_session_inv [OF assms prepare_session_inv]
    by (auto simp: prepare_def Let_def split: sum.split)
qed

lemma session_read_inv:
  assumes "session_inv s" "c \<in> {ReadOwn, ReadHeader, ReadContext, Derive} \<union> range (\<lambda>(a, b). Snapshot a b)"
  shows "session_inv (run_call c s) \<and> s_header (run_call c s) = s_header s \<and> s_log (run_call c s) = s_log s"
  using assms run_call_inv [OF assms(1), of c]
  by (auto simp: snapshotEvents_def ownEvents_def requestHeader_def requestContext_def deriveMessages_def Let_def
      split: option.split prod.split sum.split)

lemma append_keeps:
  assumes "session_inv s"
  shows "s_header (fst (append reentrant veto now type data sources op s)) = s_header s
    \<and> (\<exists>added. s_log (fst (append reentrant veto now type data sources op s)) = s_log s @ added)"
proof -
  obtain s' r where p: "prepare_append reentrant now type data sources op s = (s', r)" by fastforce
  show ?thesis using prepare_append_inv [OF assms p] p by (auto simp: append_def split: sum.split)
qed

lemma append_open_inv:
  assumes inv: "store_inv ss" and at: "ss_attachments ss obj = Some ref"
  shows "store_inv (append_open obj ref now type data sources op ss)"
proof -
  note a = store_inv_attached [OF inv at]
  obtain s r where p: "prepare_append (en_appending (ss_entries ss ! ref)) now type data sources op (ss_sessions ss ! obj) = (s, r)"
    by fastforce
  note pi = prepare_append_inv [OF store_inv_session [OF inv] p]
  have "store_inv (set_session obj s ss)"
    by (rule set_session_inv [OF inv]) (use a pi in auto)
  moreover have "store_inv (set_entry ref (\<lambda>en. en\<lparr>en_appending := True, en_inflight := Some event\<rparr>) (set_session obj s ss))"
    if "r = Inr event" for event
  proof (rule set_entry_inv [OF calculation])
    have "entry_ok ss ref (ss_entries ss ! ref)" using store_inv_entry [OF inv] a by blast
    then show "en_detachRequested ((ss_entries (set_session obj s ss) ! ref)\<lparr>en_appending := True, en_inflight := Some event\<rparr>) =
      (\<not> en_entered ((ss_entries (set_session obj s ss) ! ref)\<lparr>en_appending := True, en_inflight := Some event\<rparr>) \<and>
       busy ((ss_entries (set_session obj s ss) ! ref)\<lparr>en_appending := True, en_inflight := Some event\<rparr>))"
      using a by (auto simp: entry_ok_def set_session_def busy_def)
    show "en_announcing ((ss_entries (set_session obj s ss) ! ref)\<lparr>en_appending := True, en_inflight := Some event\<rparr>) \<longrightarrow>
      en_announced ((ss_entries (set_session obj s ss) ! ref)\<lparr>en_appending := True, en_inflight := Some event\<rparr>)"
      using \<open>entry_ok ss ref _\<close> by (simp add: entry_ok_def set_session_def)
  qed (use a pi that in \<open>auto simp: set_session_def busy_def typed_def\<close>)
  ultimately show ?thesis by (simp add: append_open_def p split: sum.split)
qed

lemma append_push_inv:
  assumes inv: "store_inv ss" and ref: "ref < length (ss_entries ss)"
  shows "store_inv (append_push ref ss)"
proof (cases "en_inflight (ss_entries ss ! ref)")
  case (Some event)
  let ?en = "ss_entries ss ! ref" and ?f = "\<lambda>en. en\<lparr>en_inflight := None\<rparr>"
  let ?s = "push_event event (ss_sessions ss ! en_session ?en)"
  note ok = store_inv_entry [OF inv ref]
  have i1: "store_inv (set_entry ref ?f ss)"
    by (rule set_entry_inv [OF inv ref]) (use ok in \<open>auto simp: entry_ok_def busy_def\<close>)
  have "session_inv ?s"
    unfolding push_event_def
    by (rule push_inv) (use ok Some inv in \<open>auto simp: entry_ok_def store_inv_session\<close>)
  moreover have "ss_attachments ss (en_session ?en) = Some ref"
    using ok Some by (auto simp: entry_ok_def busy_def)
  ultimately have "store_inv (set_session (en_session ?en) ?s (set_entry ref ?f ss))"
    by (intro set_session_inv [OF i1]) (use ok ref in \<open>auto simp: entry_ok_def set_entry_def push_event_def\<close>)
  moreover have "append_push ref ss = set_session (en_session ?en) ?s (set_entry ref ?f ss)"
    using Some by (simp add: append_push_def set_entry_def set_session_def Let_def)
  ultimately show ?thesis by simp
qed (use inv in \<open>simp add: append_push_def\<close>)

lemma store_step_inv: "store_step ss ss' \<Longrightarrow> store_inv ss \<Longrightarrow> store_inv ss'"
proof (induction rule: store_step.induct)
  case (st_append_detached obj ss now type data sources op)
  let ?s = "fst (append False False now type data sources op (ss_sessions ss ! obj))"
  have si: "session_inv (ss_sessions ss ! obj)" using st_append_detached by (simp add: store_inv_session)
  show ?case unfolding append_detached_def
    by (rule set_session_inv) (use st_append_detached append_inv [OF si] append_keeps [OF si] in auto)
next
  case (st_read obj ss c)
  then show ?case using session_read_inv [OF store_inv_session [OF st_read(3,1)] st_read(2)]
    by (intro set_session_inv) auto
qed (simp_all add: prepare_inv enter_inv announce_open_inv announce_close_inv detach_inv append_open_inv
    append_push_inv append_close_inv)

lemma empty_store_inv: "store_inv empty_store"
  by (simp add: store_inv_def empty_store_def)

lemma store_reachable_inv: "store_reachable ss \<Longrightarrow> store_inv ss"
  by (induction rule: store_reachable.induct) (auto intro: empty_store_inv store_step_inv)

section \<open>What the store guarantees\<close>

text \<open>C9: The life cycle of every session that was entered, under every interleaving of listeners,
  appends and detach calls: it is announced at most once and disposed exactly once if it was announced
  and has left the store, after its announcement; it is in the store and attached exactly while
  nobody has detached it or it is being announced or appended to; a deferred detach is pending
  only then, so it is never lost.\<close>

theorem store_lifecycle:
  assumes "store_reachable ss" and "ref < length (ss_entries ss)"
  shows "let en = ss_entries ss ! ref; live = (map_of (ss_store ss) (en_id en) = Some ref) in
      filter (about ref) (ss_signals ss) =
        (if en_announced en then if live then [Created ref] else [Created ref, Disposed ref] else [])
    \<and> live = (en_entered en \<or> en_announcing en \<or> en_appending en)
    \<and> (ss_attachments ss (en_session en) = Some ref) = live
    \<and> en_detachRequested en = (\<not> en_entered en \<and> live)"
  using store_inv_entry [OF store_reachable_inv [OF assms(1)] assms(2)]
  by (auto simp: entry_ok_def signals_of_def busy_def Let_def)

text \<open>A life cycle: a session is entered and announced; its detach is called while it is being
  announced and again later.\<close>

definition sample_store :: "store_state list" where
  "sample_store =
     (let s1 = fst (prepare (\<lambda>p. True) 5 None NoOptions empty_store);
          s2 = fst (enter 0 s1);
          s3 = (case announce_open 0 s2 of Inr (ss, ref) \<Rightarrow> ss | Inl e \<Rightarrow> s2);
          s4 = detach 0 s3;
          s5 = announce_close 0 s4 in [s1, s2, s3, s4, s5])"

lemma sample_store_reachable: "store_reachable (last sample_store)"
proof -
  define s1 where "s1 = fst (prepare (\<lambda>p. True) 5 None NoOptions empty_store)"
  define s2 where "s2 = fst (enter 0 s1)"
  define s3 where "s3 = (case announce_open 0 s2 of Inr (ss, ref) \<Rightarrow> ss | Inl e \<Rightarrow> s2)"
  define s4 where "s4 = detach 0 s3"
  note defs = s1_def s2_def s3_def s4_def
  have "store_reachable s1" unfolding s1_def by (rule sr_step [OF sr_empty st_prepare])
  moreover have "0 < length (ss_sessions s1)" unfolding defs by code_simp
  ultimately have "store_reachable s2" unfolding s2_def by (rule sr_step [OF _ st_enter])
  moreover have "returns (announce_open 0 s2)" unfolding defs by code_simp
  ultimately have "store_reachable s3"
    unfolding s3_def returns_iff by (auto intro: sr_step [OF _ st_announce])
  moreover have "0 < length (ss_entries s3)" unfolding defs by code_simp
  ultimately have "store_reachable s4" unfolding s4_def by (rule sr_step [OF _ st_detach])
  moreover have "0 < length (ss_entries s4)" "en_announcing (ss_entries s4 ! 0)" unfolding defs by code_simp+
  ultimately have "store_reachable (announce_close 0 s4)" by (rule sr_step [OF _ st_announced])
  then show ?thesis unfolding sample_store_def defs by (simp only: Let_def last.simps list.simps if_False if_True simp_thms)
qed

theorem store_lifecycle_witness:
  "ss_signals (last sample_store) = [Created 0, Disposed 0] \<and> \<not> en_detachRequested (ss_entries (last sample_store) ! 0)"
proof -
  have len: "0 < length (ss_entries (last sample_store))" by code_simp
  have "en_announced (ss_entries (last sample_store) ! 0)" "ss_store (last sample_store) = []"
    "list_all (about 0) (ss_signals (last sample_store))" by code_simp+
  with store_lifecycle [OF sample_store_reachable len] show ?thesis
    by (auto simp: Let_def list_all_iff filter_id_conv)
qed

lemma get_session_iff:
  assumes inv: "store_inv ss"
  shows "get_session sid ss = Some obj \<longleftrightarrow> returns (liveEntryFor obj ss) \<and> session_id (ss_sessions ss ! obj) = sid"
proof -
  have ent: "ref < length (ss_entries ss) \<and> en_id (ss_entries ss ! ref) = k" if "map_of (ss_store ss) k = Some ref" for k ref
    using inv that by (auto simp: store_inv_def dest!: map_of_SomeD)
  show ?thesis
  proof
    assume "get_session sid ss = Some obj"
    then obtain ref where ref: "map_of (ss_store ss) sid = Some ref" "en_session (ss_entries ss ! ref) = obj"
      by (auto simp: get_session_def)
    with ent [OF ref(1)] store_inv_entry [OF inv, of ref] show
      "returns (liveEntryFor obj ss) \<and> session_id (ss_sessions ss ! obj) = sid"
      by (auto simp: entry_ok_def named_def liveEntryFor_def)
  next
    assume r: "returns (liveEntryFor obj ss) \<and> session_id (ss_sessions ss ! obj) = sid"
    then obtain ref where ref: "ss_attachments ss obj = Some ref" "map_of (ss_store ss) (en_id (ss_entries ss ! ref)) = Some ref"
      by (auto simp: liveEntryFor_def split: option.splits if_splits)
    with store_inv_attached [OF inv ref(1)] store_inv_entry [OF inv, of ref] r show "get_session sid ss = Some obj"
      by (auto simp: entry_ok_def named_def get_session_def)
  qed
qed

text \<open>The store and the attachments agree, whatever was interleaved: looking a session up by its
  identity finds exactly the session that is attached, no identity and no session is listed twice, and
  an identity that the store mints is unused; it is the first unused one after the counter.\<close>

lemma store_lookup:
  assumes "store_reachable ss"
  shows "(get_session sid ss = Some obj \<longleftrightarrow> returns (liveEntryFor obj ss) \<and> session_id (ss_sessions ss ! obj) = sid)
    \<and> distinct (list_sessions ss)
    \<and> (let n = mint (map fst (ss_store ss)) (ss_counter ss) in
         get_session (minted n) ss = None \<and> (\<forall>k. ss_counter ss < k \<longrightarrow> k < n \<longrightarrow> get_session (minted k) ss \<noteq> None))"
proof -
  note inv = store_reachable_inv [OF assms]
  have ent: "ref < length (ss_entries ss) \<and> en_id (ss_entries ss ! ref) = k" if "map_of (ss_store ss) k = Some ref" for k ref
    using inv that by (auto simp: store_inv_def dest!: map_of_SomeD)
  have "inj_on (\<lambda>p. en_session (ss_entries ss ! snd p)) (set (ss_store ss))"
  proof (rule inj_onI)
    fix p q assume p: "p \<in> set (ss_store ss)" "q \<in> set (ss_store ss)"
      and eq: "en_session (ss_entries ss ! snd p) = en_session (ss_entries ss ! snd q)"
    have "distinct (map fst (ss_store ss))" using inv by (simp add: store_inv_def)
    then have m: "map_of (ss_store ss) (fst p) = Some (snd p)" "map_of (ss_store ss) (fst q) = Some (snd q)"
      using p by (simp_all add: map_of_eq_Some_iff)
    with ent store_inv_entry [OF inv, of "snd p"] store_inv_entry [OF inv, of "snd q"] eq
    have "snd p = snd q" by (auto simp: entry_ok_def)
    with ent [OF m(1)] ent [OF m(2)] show "p = q" by (simp add: prod_eq_iff)
  qed
  moreover have "distinct (ss_store ss)" using inv by (simp add: store_inv_def distinct_map)
  ultimately have "distinct (list_sessions ss)" by (simp add: list_sessions_def distinct_map)
  moreover have "get_session k ss = None \<longleftrightarrow> k \<notin> set (map fst (ss_store ss))" for k
    by (simp add: get_session_def map_of_eq_None_iff)
  ultimately show ?thesis
    using get_session_iff [OF inv] mint_fresh [of "map fst (ss_store ss)" "ss_counter ss"]
      mint_first [of "ss_counter ss" _ "map fst (ss_store ss)"] by (simp add: Let_def)
qed

text \<open>What a step does to the session objects.\<close>

definition grows :: "store_state \<Rightarrow> store_state \<Rightarrow> bool" where
  "grows ss ss' \<longleftrightarrow> length (ss_sessions ss) \<le> length (ss_sessions ss') \<and>
     (\<forall>obj < length (ss_sessions ss). s_header (ss_sessions ss' ! obj) = s_header (ss_sessions ss ! obj)
        \<and> (\<exists>added. s_log (ss_sessions ss' ! obj) = s_log (ss_sessions ss ! obj) @ added))"

lemma nth_list_update_if: "xs[i := x] ! j = (if i = j \<and> i < length xs then x else xs ! j)"
  by (cases "i < length xs"; cases "i = j") (simp_all add: list_update_beyond)

lemma grows_same: "ss_sessions ss' = ss_sessions ss \<Longrightarrow> grows ss ss'"
  by (simp add: grows_def)

lemma grows_set_session:
  "s_header s = s_header (ss_sessions ss ! obj) \<Longrightarrow> \<exists>added. s_log s = s_log (ss_sessions ss ! obj) @ added \<Longrightarrow>
     ss_sessions ss' = (ss_sessions ss)[obj := s] \<Longrightarrow> grows ss ss'"
  using nth_list_update_if [of "ss_sessions ss" obj s] by (auto simp: grows_def)

lemma detachEntered_sessions [simp]: "ss_sessions (detachEntered ref ss) = ss_sessions ss"
  by (simp add: detachEntered_def set_entry_def Let_def)

lemma detach_sessions [simp]: "ss_sessions (detach ref ss) = ss_sessions ss"
  by (simp add: detach_def set_entry_def Let_def)

text \<open>C12: Every session is append-only under everything the store allows: no step removes, replaces or
  reorders an event of any session, or changes its header.\<close>

theorem sessions_append_only:
  assumes "store_reachable ss" and "store_step ss ss'"
  shows "grows ss ss'"
  using assms(2,1)
proof (induction rule: store_step.induct)
  case (st_prepare ss isAbsolute now sid options)
  show ?case by (auto simp: grows_def prepare_def Let_def nth_append split: sum.split)
next
  case (st_append_detached obj ss now type data sources op)
  have "session_inv (ss_sessions ss ! obj)"
    using store_inv_session [OF store_reachable_inv] st_append_detached by blast
  with append_keeps show ?case by (intro grows_set_session) (auto simp: append_detached_def set_session_def)
next
  case (st_append_open ss obj ref now type data sources op)
  note inv = store_reachable_inv [OF st_append_open(2)]
  obtain s r where p: "prepare_append (en_appending (ss_entries ss ! ref)) now type data sources op (ss_sessions ss ! obj) = (s, r)"
    by fastforce
  have "session_inv (ss_sessions ss ! obj)"
    using store_inv_session [OF inv] store_inv_attached [OF inv st_append_open(1)] by blast
  from prepare_append_inv [OF this p] p show ?case
    by (intro grows_set_session [of s _ obj])
      (auto simp: append_open_def set_session_def set_entry_def split: sum.split)
next
  case (st_append_push ref ss)
  show ?case
  proof (cases "en_inflight (ss_entries ss ! ref)")
    case None
    then show ?thesis by (intro grows_same) (simp add: append_push_def)
  next
    case (Some event)
    let ?obj = "en_session (ss_entries ss ! ref)"
    show ?thesis
      by (rule grows_set_session [of "push_event event (ss_sessions ss ! ?obj)" ss ?obj])
        (simp_all add: Some append_push_def set_entry_def set_session_def push_event_def Let_def)
  qed
next
  case (st_read obj ss c)
  have "session_inv (ss_sessions ss ! obj)"
    using store_inv_session [OF store_reachable_inv] st_read by blast
  from session_read_inv [OF this st_read(2)] show ?case
    by (intro grows_set_session) (auto simp: set_session_def)
qed (auto intro!: grows_same simp: enter_def announce_open_def announce_close_def append_close_def set_entry_def
    res_simps Let_def split: if_splits)

theorem sessions_append_only_witness:
  "grows (last sample_store) (fst (enter 0 (last sample_store)))"
proof -
  have "0 < length (ss_sessions (last sample_store))" by code_simp
  from sessions_append_only [OF sample_store_reachable st_enter [OF this]] show ?thesis .
qed

section \<open>Forks\<close>

lemma if_neqI: "x \<noteq> z \<Longrightarrow> y \<noteq> z \<Longrightarrow> (if b then x else y) \<noteq> z"
  by simp

lemma view_data_other:
  assumes "type \<noteq> ''turn/start''" "type \<noteq> ''turn/end''"
  shows "view_data type d \<noteq> TurnStart t" "view_data type d \<noteq> TurnEnd t r"
proof -
  note other = view_data_def [of type d, unfolded Let_def if_not_P [OF assms(1)] if_not_P [OF assms(2)]]
  show "view_data type d \<noteq> TurnStart t"
    by (subst other) ((rule if_neqI, rule event_data.distinct)+, rule event_data.distinct)
  show "view_data type d \<noteq> TurnEnd t r"
    by (subst other) ((rule if_neqI, rule event_data.distinct)+, rule event_data.distinct)
qed

lemma str_of_type: "k \<noteq> [] \<Longrightarrow> str_of v = k \<longleftrightarrow> v = JStr k"
  by (cases v) auto

lemma session_contiguous:
  assumes "session_inv s"
  shows "contiguous 0 (typed s)"
proof -
  from assms obtain st rs where "fold_window (typed s) 0 = Inr (st, rs)"
    by (auto simp: session_inv_def log_ok_def returns_iff)
  then have "foldSurface (typed s) = Inr (nodes st, rs)" by (simp add: foldSurface_def)
  then show ?thesis by (rule foldSurface_contiguous)
qed

lemma view_turn_data:
  "ev_data (view_event e) = TurnStart t \<longleftrightarrow> get e ''type'' = JStr ''turn/start'' \<and> t = int_of (get (get e ''data'') ''turn'')"
  "(\<exists>t r. ev_data (view_event e) = TurnEnd t r) \<longleftrightarrow> get e ''type'' = JStr ''turn/end''"
proof -
  have other: "get e ''type'' \<noteq> JStr ''turn/start'' \<Longrightarrow> get e ''type'' \<noteq> JStr ''turn/end'' \<Longrightarrow>
      ev_data (view_event e) \<noteq> TurnStart t \<and> ev_data (view_event e) \<noteq> TurnEnd u r" for u r
    using view_data_other [of "str_of (get e ''type'')"] str_of_type [of _ "get e ''type''"]
    by (auto simp: view_event_def)
  have start: "get e ''type'' = JStr ''turn/start'' \<Longrightarrow> ev_data (view_event e) = TurnStart (int_of (get (get e ''data'') ''turn''))"
    and stop: "get e ''type'' = JStr ''turn/end'' \<Longrightarrow> \<exists>u r. ev_data (view_event e) = TurnEnd u r"
    by (simp_all add: view_event_def view_data_def Let_def)
  show "ev_data (view_event e) = TurnStart t \<longleftrightarrow> get e ''type'' = JStr ''turn/start'' \<and> t = int_of (get (get e ''data'') ''turn'')"
    using other start stop by fastforce
  show "(\<exists>t r. ev_data (view_event e) = TurnEnd t r) \<longleftrightarrow> get e ''type'' = JStr ''turn/end''"
    using other start stop by (metis event_data.distinct(1))
qed

lemma repair_step_other:
  assumes "\<not> is_turn_boundary e"
  shows "rc_openTurn (repair_step c (view_event e)) = rc_openTurn c"
proof -
  have "\<forall>t. ev_data (view_event e) \<noteq> TurnStart t" "\<forall>t r. ev_data (view_event e) \<noteq> TurnEnd t r"
    using assms view_turn_data [of e] by (auto simp: is_turn_boundary_def)
  then show ?thesis
    by (cases "ev_data (view_event e)") (simp_all add: repair_step_def split: option.split)
qed

lemma repair_scan_boundary:
  "rc_openTurn (repair_scan (map view_event es)) = (case find is_turn_boundary (rev es) of
     None \<Rightarrow> None
   | Some e \<Rightarrow> (if get e ''type'' = JStr ''turn/start'' then Some (int_of (get (get e ''data'') ''turn'')) else None))"
proof (induction es rule: rev_induct)
  case (snoc e es)
  show ?case
  proof (cases "is_turn_boundary e")
    case True
    then consider "get e ''type'' = JStr ''turn/start''" | "get e ''type'' = JStr ''turn/end''"
      by (auto simp: is_turn_boundary_def)
    then show ?thesis
    proof cases
      case 1
      then have "ev_data (view_event e) = TurnStart (int_of (get (get e ''data'') ''turn''))"
        by (simp add: view_turn_data)
      with 1 True show ?thesis by (simp add: repair_scan_snoc repair_step_def)
    next
      case 2
      then obtain t r where "ev_data (view_event e) = TurnEnd t r" using view_turn_data(2) by blast
      with 2 True show ?thesis by (simp add: repair_scan_snoc repair_step_def)
    qed
  next
    case False
    with snoc show ?thesis by (simp add: repair_scan_snoc repair_step_other)
  qed
qed (simp add: repair_scan_def repair_init_def)

lemma repair_scan_marker:
  "rc_openTurn (repair_scan (es @ [log_event n now EndSeed])) = rc_openTurn (repair_scan es)"
  by (simp add: repair_scan_snoc repair_step_def)

lemma forkSeed_prefix:
  assumes inv: "session_inv s" and run: "forkSeed s requested = Inr seed"
  shows "seed = take (length seed) (s_log s)"
    and "case requested of None \<Rightarrow> length seed = length (s_log s) | Some n \<Rightarrow> int (length seed) = int_of_number n + 1"
    and "rc_openTurn (repair_scan (map view_event seed)) = None"
proof -
  have "seed = take (length seed) (s_log s)
    \<and> (case requested of None \<Rightarrow> length seed = length (s_log s) | Some n \<Rightarrow> int (length seed) = int_of_number n + 1)
    \<and> rc_openTurn (repair_scan (map view_event seed)) = None"
  proof (cases "requested = None \<and> s_log s = []")
    case True
    with run show ?thesis by (simp add: forkSeed_def repair_scan_def repair_init_def)
  next
    case False
    define b where "b = (case requested of Some n \<Rightarrow> n | None \<Rightarrow> number_of (get (last (s_log s)) ''seq''))"
    have run': "0 \<le> int_of_number b" "is_safe_integer b" "nat (int_of_number b) < length (s_log s)"
      and seed: "seed = slice (s_log s) 0 (nat (int_of_number b) + 1)"
      and tb: "case find is_turn_boundary (rev seed) of None \<Rightarrow> True | Some e \<Rightarrow> get e ''type'' \<noteq> JStr ''turn/start''"
      using run False by (auto simp: forkSeed_def b_def Let_def not_le not_less split: if_splits option.splits)
    have "requested = None \<Longrightarrow> nat (int_of_number b) = length (s_log s) - 1"
    proof -
      assume none: "requested = None"
      with False have ne: "s_log s \<noteq> []" by simp
      have "ev_seq (typed s ! (length (s_log s) - 1)) = length (s_log s) - 1"
        using ne session_contiguous [OF inv] by (simp add: contiguous_def typed_def)
      moreover have "typed s ! (length (s_log s) - 1) = view_event (last (s_log s))"
        using ne by (simp add: typed_def last_conv_nth)
      moreover have "int_of (get (last (s_log s)) ''seq'') = int_of_number b"
        using none run'(2) by (cases "get (last (s_log s)) ''seq''") (auto simp: b_def is_safe_integer_def)
      ultimately show ?thesis by (simp add: view_event_def)
    qed
    moreover have "seed = take (nat (int_of_number b) + 1) (s_log s)" "length seed = nat (int_of_number b) + 1"
      using seed run' by (auto simp: slice_def)
    moreover have "rc_openTurn (repair_scan (map view_event seed)) = None"
      using tb by (cases "find is_turn_boundary (rev seed)") (simp_all add: repair_scan_boundary)
    ultimately show ?thesis using run' by (auto simp: b_def split: option.split)
  qed
  then show "seed = take (length seed) (s_log s)"
    and "case requested of None \<Rightarrow> length seed = length (s_log s) | Some n \<Rightarrow> int (length seed) = int_of_number n + 1"
    and "rc_openTurn (repair_scan (map view_event seed)) = None" by simp_all
qed

lemma map_of_meta_field: "j \<noteq> k \<Longrightarrow> map_of (meta_field k m @ xs) j = map_of xs j"
  by (simp add: meta_field_def)

lemma get_fork_header:
  "get (prepared_header sid now (JObj (meta_field ''cwd'' h @
      [(''parentSession'', JStr p), (''isSeeded'', JBool True)]))) ''isSeeded'' = JBool True"
  "get (prepared_header sid now (JObj (meta_field ''cwd'' h @
      [(''parentSession'', JStr p), (''isSeeded'', JBool True)]))) ''parentSession'' = JStr p"
  by (simp_all add: prepared_header_def map_of_meta_field meta_field_def)

text \<open>C30: A fork inherits exactly the prefix of its parent up to the boundary (all of it, by default):
  the child's log is that prefix and one tagged marker, the inherited count is the length of the
  prefix, its header names the parent, and no turn is open in it, so it needs no repair.\<close>

theorem fork_inherits_closed_prefix:
  assumes "store_reachable ss"
    and "fork_prepare isAbsolute now source boundary child ss = (ss', Inr obj)"
  shows "\<exists>parent n. resolveForkSource source ss = Inr parent
    \<and> (case boundary of None \<Rightarrow> n = length (s_log (ss_sessions ss ! parent)) | Some b \<Rightarrow> int n = int_of_number b + 1)
    \<and> s_log (ss_sessions ss' ! obj) = take n (s_log (ss_sessions ss ! parent)) @ [marker n now (JObj [(''inherited'', JBool True)])]
    \<and> s_inherited (ss_sessions ss' ! obj) = n
    \<and> get (s_header (ss_sessions ss' ! obj)) ''parentSession'' = JStr (session_id (ss_sessions ss ! parent))
    \<and> interruptedTurnClosers (typed (ss_sessions ss' ! obj)) = []"
proof -
  note inv = store_reachable_inv [OF assms(1)]
  from assms(2) obtain parent seed where res: "resolveForkSource source ss = Inr parent"
    and fs: "forkSeed (ss_sessions ss ! parent) boundary = Inr seed"
    and prep: "prepare isAbsolute now child (fork_options (ss_sessions ss ! parent) seed) ss = (ss', Inr obj)"
    by (auto simp: fork_prepare_def split: if_splits sum.splits)
  have "parent < length (ss_sessions ss)"
  proof -
    have "\<exists>sid. get_session sid ss = Some parent"
      using res by (auto simp: resolveForkSource_def split: fork_source.splits option.splits if_splits)
    then show ?thesis using get_session_iff [OF inv] store_inv_attached [OF inv]
      by (auto simp: liveEntryFor_def split: option.splits)
  qed
  note pre = forkSeed_prefix [OF store_inv_session [OF inv this] fs]
  let ?h = "\<lambda>sid. prepared_header sid now (JObj (meta_field ''cwd'' (s_header (ss_sessions ss ! parent)) @
        [(''parentSession'', JStr (session_id (ss_sessions ss ! parent))), (''isSeeded'', JBool True)]))"
  from prep obtain sid s where new: "new_session isAbsolute now sid (Some seed) (Some (?h sid)) SnapshotMode (Some (length seed)) = Inr s"
    and s: "ss_sessions ss' ! obj = s"
    by (auto simp: prepare_def prepare_session_def fork_options_def create_session_def Let_def
        split: if_splits sum.splits)
  note hd = new_session_header [OF new]
  have log: "s_inherited s = length seed"
    "s_log s = seed @ [marker (length seed) now (JObj [(''inherited'', JBool True)])]"
    using new_session_log(4) [OF new refl] hd get_fork_header(1) by simp_all
  have "rc_openTurn (repair_scan (typed s)) = None"
    using pre(3) log(2) by (simp add: typed_def view_marker repair_scan_marker)
  then have "interruptedTurnClosers (typed s) = []" by (simp add: interruptedTurnClosers_def Let_def)
  with res pre(1,2) log hd s get_fork_header(2) show ?thesis
    by (intro exI [of _ parent] exI [of _ "length seed"]) (auto split: option.splits)
qed

definition fork_store :: store_state where
  "fork_store = fst (enter 0 (fst (prepare (\<lambda>p. True) 5 (Some ''s'')
     (FreshOptions (Some (s_log sample_session)) JUndef None) empty_store)))"

lemma fork_store_reachable: "store_reachable fork_store"
proof -
  define s1 where "s1 = fst (prepare (\<lambda>p. True) 5 (Some ''s'') (FreshOptions (Some (s_log sample_session)) JUndef None) empty_store)"
  have "store_reachable s1" unfolding s1_def by (rule sr_step [OF sr_empty st_prepare])
  moreover have "0 < length (ss_sessions s1)" unfolding s1_def by code_simp
  ultimately show ?thesis unfolding fork_store_def s1_def [symmetric] by (rule sr_step [OF _ st_enter])
qed

theorem fork_inherits_closed_prefix_witness:
  "\<exists>ss' obj. fork_prepare (\<lambda>p. True) 9 (SourceId ''s'') (Some (js_int 1)) None fork_store = (ss', Inr obj)
     \<and> s_inherited (ss_sessions ss' ! obj) = 2 \<and> interruptedTurnClosers (typed (ss_sessions ss' ! obj)) = []"
proof -
  let ?r = "fork_prepare (\<lambda>p. True) 9 (SourceId ''s'') (Some (js_int 1)) None fork_store"
  have "returns (snd ?r)" by code_simp
  then obtain ss' obj where r: "?r = (ss', Inr obj)" by (cases ?r) (auto simp: returns_iff)
  from fork_inherits_closed_prefix [OF fork_store_reachable r] r show ?thesis by auto
qed

end
