(* ===== verification/Inbox.thy ===== *)
theory Inbox
  imports Envelope "HOL-Library.Multiset"
begin

text \<open>
  The durable agent inbox, \<^verbatim>\<open>packages/core/agent-loop/src/inbox.ts\<close>: two lists of pending messages,
  kept as a strict fold over the splices in the session log, and the command facade that writes those
  splices. The state is never stored apart from the log: every command reads the fold, appends one
  normalized splice, and publishes its notifications.

  Arrays have at most \<open>2^32 - 1\<close> elements; a splice that would exceed this throws.
\<close>

section \<open>The projection\<close>

record inbox_state =
  next_turn :: "user_message list"
  next_step :: "user_message list"

datatype inbox_error =
    InvalidPersistedSplice nat | AlreadyPending string | ArrayTooLong | SpliceNotLossless | AppendRejected

definition max_array_length :: int where
  "max_array_length = 4294967295"

definition inbox_init :: inbox_state where
  "inbox_init = \<lparr>next_turn = [], next_step = []\<rparr>"

definition slot :: "inbox_state \<Rightarrow> inbox_target \<Rightarrow> user_message list" where
  "slot st target = (case target of NextTurn \<Rightarrow> next_turn st | NextStep \<Rightarrow> next_step st)"

definition put_slot :: "inbox_state \<Rightarrow> inbox_target \<Rightarrow> user_message list \<Rightarrow> inbox_state" where
  "put_slot st target xs =
     (case target of NextTurn \<Rightarrow> st\<lparr>next_turn := xs\<rparr> | NextStep \<Rightarrow> st\<lparr>next_step := xs\<rparr>)"

definition pending :: "inbox_state \<Rightarrow> user_message list" where
  "pending st = next_turn st @ next_step st"

text \<open>The loop over the identities, with the set of those seen so far.\<close>

fun find_duplicate :: "string set \<Rightarrow> user_message list \<Rightarrow> string option" where
  "find_duplicate ids [] = None"
| "find_duplicate ids (m # ms) =
     (if um_id m \<in> ids then Some (um_id m) else find_duplicate (insert (um_id m) ids) ms)"

definition apply_splice :: "inbox_state \<Rightarrow> inbox_splice \<Rightarrow> inbox_state option" where
  "apply_splice st sp =
     (let inbox = slot st (sp_target sp);
          removed = (case sp_removedCount sp of None \<Rightarrow> js_int 0 | Some n \<Rightarrow> n) in
      if \<not> is_safe_integer (sp_start sp) \<or> int_of_number (sp_start sp) < 0
        \<or> int_of_number (sp_start sp) > int (length inbox)
        \<or> \<not> is_safe_integer removed \<or> int_of_number removed < 0
        \<or> int_of_number (sp_start sp) + int_of_number removed > int (length inbox)
      then None
      else let upd = toSpliced inbox (nat (int_of_number (sp_start sp))) (nat (int_of_number removed)) (sp_inserted sp) in
        if int (length upd) > max_array_length then None
        else let st' = put_slot st (sp_target sp) upd in
          if find_duplicate {} (pending st') \<noteq> None then None else Some st')"

definition apply_inbox :: "inbox_state \<Rightarrow> session_event \<Rightarrow> inbox_error + inbox_state" where
  "apply_inbox st e = (case ev_data e of
     InboxSpliced sp \<Rightarrow>
       (case apply_splice st sp of None \<Rightarrow> Inl (InvalidPersistedSplice (ev_seq e)) | Some st' \<Rightarrow> Inr st')
   | _ \<Rightarrow> Inr st)"

section \<open>Splice arithmetic\<close>

definition js_trunc :: "js_number \<Rightarrow> js_number" where
  "js_trunc n = (case n of
     Num r \<Rightarrow> (if - 1 < r \<and> r < 0 then NegZero else js_int (if r < 0 then \<lceil>r\<rceil> else \<lfloor>r\<rfloor>))
   | _ \<Rightarrow> n)"

text \<open>\<open>actualStart\<close>: a fraction between -1 and 0 truncates to the negative zero, which stays one.\<close>

definition actual_start :: "nat \<Rightarrow> js_number \<Rightarrow> js_number" where
  "actual_start len start = (case js_trunc start of
     NaN \<Rightarrow> js_int 0
   | NegZero \<Rightarrow> NegZero
   | PosInf \<Rightarrow> js_int (int len)
   | NegInf \<Rightarrow> js_int 0
   | Num r \<Rightarrow> (let offset = \<lfloor>r\<rfloor> in
       if offset < 0 then js_int (max (int len + offset) 0) else js_int (min offset (int len))))"

definition actual_delete :: "nat \<Rightarrow> nat \<Rightarrow> js_number \<Rightarrow> nat" where
  "actual_delete len start deleteCount = (case js_trunc deleteCount of
     PosInf \<Rightarrow> len - start
   | Num r \<Rightarrow> min (nat \<lfloor>r\<rfloor>) (len - start)
   | _ \<Rightarrow> 0)"

section \<open>Commands\<close>

datatype inbox_signal = Claimed user_message int | Discarded user_message | Inserted user_message

text \<open>What a command works on: the session log and the notifications sent. The clock, and whether
  \<open>session.append\<close> accepts a payload for reasons of its own (re-entrance, vetoing listeners), come from
  outside.\<close>

record inbox_session =
  ib_log :: "session_event list"
  ib_signals :: "inbox_signal list"

record inbox_env =
  env_now :: int
  env_admits :: "session_event list \<Rightarrow> inbox_splice \<Rightarrow> bool"

definition current :: "inbox_session \<Rightarrow> inbox_error + inbox_state" where
  "current s = fold_res apply_inbox inbox_init (ib_log s)"

fun lossless_source :: "message_source \<Rightarrow> bool" where
  "lossless_source (SrcGoal a b c) = (lossless a \<and> lossless b \<and> lossless c)"
| "lossless_source _ = True"

definition lossless_splice :: "inbox_splice \<Rightarrow> bool" where
  "lossless_splice sp \<longleftrightarrow> sp_start sp \<noteq> NegZero
     \<and> list_all (\<lambda>m. lossless (um_content m) \<and> lossless_source (um_source m)) (sp_inserted sp)"

definition mutate ::
    "inbox_env \<Rightarrow> inbox_target \<Rightarrow> js_number \<Rightarrow> js_number \<Rightarrow> user_message list \<Rightarrow> bool \<Rightarrow> inbox_session
     \<Rightarrow> inbox_session \<times> (inbox_error + user_message list)" where
  "mutate env target start deleteCount inserted discardRemoved s = (case current s of
     Inl err \<Rightarrow> (s, Inl err)
   | Inr st \<Rightarrow>
      (let inbox = slot st target;
           actualStart = actual_start (length inbox) start;
           index = nat (int_of_number actualStart);
           actualDeleteCount = actual_delete (length inbox) index deleteCount in
       if actualDeleteCount = 0 \<and> inserted = [] then (s, Inr [])
       else let candidate = toSpliced inbox index actualDeleteCount inserted in
         if int (length candidate) > max_array_length then (s, Inl ArrayTooLong)
         else case find_duplicate {} (pending (put_slot st target candidate)) of
             Some i \<Rightarrow> (s, Inl (AlreadyPending i))
           | None \<Rightarrow>
              (let splice = \<lparr>sp_target = target, sp_start = actualStart,
                     sp_removedCount = (if actualDeleteCount = 0 then None else Some (js_int (int actualDeleteCount))),
                     sp_inserted = inserted, sp_canceled = (discardRemoved \<and> actualDeleteCount > 0)\<rparr>;
                   removed = slice inbox index (index + actualDeleteCount) in
               if \<not> lossless_splice splice then (s, Inl SpliceNotLossless)
               else if \<not> env_admits env (ib_log s) splice then (s, Inl AppendRejected)
               else (s\<lparr>ib_log := ib_log s @ [log_event (length (ib_log s)) (env_now env) (InboxSpliced splice)],
                       ib_signals := ib_signals s @ (if discardRemoved then map Discarded removed else [])
                                       @ map Inserted inserted\<rparr>,
                     Inr removed))))"

definition splice ::
    "inbox_env \<Rightarrow> inbox_target \<Rightarrow> js_number \<Rightarrow> js_number \<Rightarrow> user_message list \<Rightarrow> inbox_session
     \<Rightarrow> inbox_session \<times> (inbox_error + user_message list)" where
  "splice env target start deleteCount inserted s = mutate env target start deleteCount inserted True s"

definition read_length :: "inbox_target \<Rightarrow> inbox_session \<Rightarrow> inbox_session \<times> (inbox_error + js_number)" where
  "read_length target s = (case current s of
     Inl err \<Rightarrow> (s, Inl err) | Inr st \<Rightarrow> (s, Inr (js_int (int (length (slot st target))))))"

definition hasPending :: "inbox_session \<Rightarrow> inbox_error + bool" where
  "hasPending s = bind_res (current s) (\<lambda>st. Inr (length (next_turn st) > 0 \<or> length (next_step st) > 0))"

definition clear_inbox :: "inbox_env \<Rightarrow> inbox_session \<Rightarrow> inbox_session \<times> (inbox_error + user_message list)" where
  "clear_inbox env s =
     then_run (then_run (read_length NextStep s) (\<lambda>n. splice env NextStep (js_int 0) n []))
       (\<lambda>_ s1. then_run (read_length NextTurn s1) (\<lambda>n. splice env NextTurn (js_int 0) n []))"

definition claim ::
    "inbox_env \<Rightarrow> inbox_target \<Rightarrow> int \<Rightarrow> inbox_session \<Rightarrow> inbox_session \<times> (inbox_error + user_message list)" where
  "claim env target turn s =
     then_run (then_run (read_length NextStep s) (\<lambda>n. mutate env NextStep (js_int 0) n [] False))
       (\<lambda>first s1. then_run
          (if target = NextTurn then mutate env NextTurn (js_int 0) (js_int 1) [] False s1 else (s1, Inr []))
          (\<lambda>second s2. (s2\<lparr>ib_signals := ib_signals s2 @ map (\<lambda>m. Claimed m turn) (first @ second)\<rparr>,
                        Inr (first @ second))))"

definition append_message :: "inbox_env \<Rightarrow> inbox_target \<Rightarrow> user_message \<Rightarrow> inbox_session
     \<Rightarrow> inbox_session \<times> (inbox_error + user_message list)" where
  "append_message env target m s =
     then_run (read_length target s) (\<lambda>n. splice env target n (js_int 0) [m])"

definition prepend_message :: "inbox_env \<Rightarrow> inbox_target \<Rightarrow> user_message \<Rightarrow> inbox_session
     \<Rightarrow> inbox_session \<times> (inbox_error + user_message list)" where
  "prepend_message env target m s = splice env target (js_int 0) (js_int 0) [m] s"

definition locate :: "string \<Rightarrow> inbox_state \<Rightarrow> (inbox_target \<times> nat) option" where
  "locate i st = (case findIndex (\<lambda>m. um_id m = i) (next_turn st) of
     Some k \<Rightarrow> Some (NextTurn, k)
   | None \<Rightarrow> map_option (\<lambda>k. (NextStep, k)) (findIndex (\<lambda>m. um_id m = i) (next_step st)))"

text \<open>\<open>replace\<close> with the new message, and \<open>remove\<close> with none.\<close>

definition edit_message :: "inbox_env \<Rightarrow> string \<Rightarrow> user_message list \<Rightarrow> inbox_session
     \<Rightarrow> inbox_session \<times> (inbox_error + bool)" where
  "edit_message env i new s = (case current s of
     Inl err \<Rightarrow> (s, Inl err)
   | Inr st \<Rightarrow> (case locate i st of
       None \<Rightarrow> (s, Inr False)
     | Some (target, index) \<Rightarrow>
         then_run (splice env target (js_int (int index)) (js_int 1) new s) (\<lambda>_ s1. (s1, Inr True))))"

definition replace_message :: "inbox_env \<Rightarrow> string \<Rightarrow> user_message \<Rightarrow> inbox_session
     \<Rightarrow> inbox_session \<times> (inbox_error + bool)" where
  "replace_message env i m s = edit_message env i [m] s"

definition remove_message :: "inbox_env \<Rightarrow> string \<Rightarrow> inbox_session \<Rightarrow> inbox_session \<times> (inbox_error + bool)" where
  "remove_message env i s = edit_message env i [] s"

section \<open>The strict fold\<close>

lemma find_duplicate_None:
  "find_duplicate ids ms = None \<longleftrightarrow> distinct (map um_id ms) \<and> set (map um_id ms) \<inter> ids = {}"
  by (induction ms arbitrary: ids) auto

definition inbox_inv :: "inbox_state \<Rightarrow> bool" where
  "inbox_inv st \<longleftrightarrow> distinct (map um_id (pending st))
     \<and> int (length (next_turn st)) \<le> max_array_length \<and> int (length (next_step st)) \<le> max_array_length"

lemma slot_put [simp]: "slot (put_slot st t xs) t = xs" "put_slot (put_slot st t xs) t ys = put_slot st t ys"
  by (cases t; simp add: slot_def put_slot_def)+

lemma slot_length: "inbox_inv st \<Longrightarrow> int (length (slot st t)) \<le> max_array_length"
  by (cases t) (simp_all add: inbox_inv_def slot_def)

lemma put_slot_inv:
  assumes "inbox_inv st" "int (length xs) \<le> max_array_length" "find_duplicate {} (pending (put_slot st t xs)) = None"
  shows "inbox_inv (put_slot st t xs)"
  using assms by (cases t) (simp_all add: inbox_inv_def put_slot_def find_duplicate_None)

lemma apply_splice_inv: "inbox_inv st \<Longrightarrow> apply_splice st sp = Some st' \<Longrightarrow> inbox_inv st'"
  by (auto simp: apply_splice_def Let_def not_less intro!: put_slot_inv split: if_splits)

definition is_splice :: "session_event \<Rightarrow> bool" where
  "is_splice e = (case ev_data e of InboxSpliced sp \<Rightarrow> True | _ \<Rightarrow> False)"

interpretation inbox_fold: event_fold inbox_init apply_inbox is_splice inbox_inv
proof unfold_locales
  show "inbox_inv inbox_init" by (simp add: inbox_inv_def inbox_init_def pending_def max_array_length_def)
  show "inbox_inv s \<Longrightarrow> apply_inbox s e = Inr s' \<Longrightarrow> inbox_inv s'" for s e s'
    by (auto simp: apply_inbox_def split: event_data.splits option.splits intro: apply_splice_inv)
  show "inbox_inv s \<Longrightarrow> \<not> is_splice e \<Longrightarrow> apply_inbox s e = Inr s" for s e
    by (auto simp: apply_inbox_def is_splice_def split: event_data.splits)
qed

section \<open>One command\<close>

lemma toSpliced_parts:
  assumes "i + del \<le> length xs"
  obtains A C where "xs = A @ slice xs i (i + del) @ C" "\<And>ins. toSpliced xs i del ins = A @ ins @ C" "length A = i"
  using slice_parts [OF assms] assms by (auto simp: toSpliced_def intro!: that [of "take i xs" "drop (i + del) xs"])

lemma pending_put:
  "mset (pending (put_slot st t ys)) + mset (slot st t) = mset (pending st) + mset ys"
  by (cases t) (simp_all add: pending_def put_slot_def slot_def)

lemma distinct_splice_out:
  assumes "inbox_inv st" "i + del \<le> length (slot st t)"
  shows "find_duplicate {} (pending (put_slot st t (toSpliced (slot st t) i del []))) = None"
proof -
  obtain A M C where xs: "slot st t = A @ M @ C" and sp: "toSpliced (slot st t) i del [] = A @ C"
    using toSpliced_parts [OF assms(2)] by (metis append_Nil)
  have "distinct (map um_id (pending st))" using assms(1) by (simp add: inbox_inv_def)
  then show ?thesis
    using xs unfolding sp find_duplicate_None
    by (cases t) (auto simp: pending_def put_slot_def slot_def)
qed

lemma js_trunc_Num: "js_trunc n = Num r \<Longrightarrow> \<exists>i. r = of_int i"
  by (auto simp: js_trunc_def js_int_def split: js_number.splits if_splits)

lemma actual_start_range:
  obtains (zero) "actual_start len n = NegZero"
  | (index) i where "actual_start len n = js_int (int i)" "i \<le> len"
proof (cases "js_trunc n")
  case (Num r)
  show ?thesis
  proof (cases "\<lfloor>r\<rfloor> < 0")
    case True
    with Num show ?thesis
      by (intro index [of "nat (max (int len + \<lfloor>r\<rfloor>) 0)"]) (simp_all add: actual_start_def Let_def, linarith)
  next
    case False
    with Num show ?thesis
      by (intro index [of "nat (min \<lfloor>r\<rfloor> (int len))"]) (auto simp: actual_start_def Let_def)
  qed
next
  case NegZero
  then show ?thesis by (intro zero) (simp add: actual_start_def)
qed (auto simp: actual_start_def intro: index [of 0] index [of len])

lemma actual_delete_le: "actual_delete len i n \<le> len - i"
  by (auto simp: actual_delete_def split: js_number.split)

lemma apply_splice_commit:
  assumes "inbox_inv st" "start + del \<le> length (slot st t)"
    and "find_duplicate {} (pending (put_slot st t (toSpliced (slot st t) start del ins))) = None"
    and "int (length (toSpliced (slot st t) start del ins)) \<le> max_array_length"
  shows "apply_splice st \<lparr>sp_target = t, sp_start = js_int (int start),
      sp_removedCount = (if del = 0 then None else Some (js_int (int del))), sp_inserted = ins, sp_canceled = c\<rparr>
    = Some (put_slot st t (toSpliced (slot st t) start del ins))"
proof -
  have "int (length (slot st t)) \<le> max_safe_integer"
    using slot_length [OF assms(1), of t] by (simp add: max_array_length_def max_safe_integer_def)
  with assms show ?thesis
    by (cases "del = 0") (simp_all add: apply_splice_def Let_def safe_int_def not_less)
qed

text \<open>The outcomes of a mutation on a session whose log replays.\<close>

lemma mutate_cases:
  assumes cur: "current s = Inr st" and inv: "inbox_inv st"
  obtains (error) err where "mutate env t a d ins dis s = (s, Inl err)"
      "ins = [] \<Longrightarrow> actual_start (length (slot st t)) a \<noteq> NegZero \<Longrightarrow> err = AppendRejected"
  | (idle) "mutate env t a d ins dis s = (s, Inr [])" "ins = []"
      "actual_delete (length (slot st t)) (nat (int_of_number (actual_start (length (slot st t)) a))) d = 0"
  | (commit) s' i del where "mutate env t a d ins dis s = (s', Inr (slice (slot st t) i (i + del)))"
      "actual_start (length (slot st t)) a = js_int (int i)" "del = actual_delete (length (slot st t)) i d"
      "i + del \<le> length (slot st t)"
      "current s' = Inr (put_slot st t (toSpliced (slot st t) i del ins))"
      "inbox_inv (put_slot st t (toSpliced (slot st t) i del ins))"
      "\<exists>e. ib_log s' = ib_log s @ [e]"
      "ib_signals s' = ib_signals s @ (if dis then map Discarded (slice (slot st t) i (i + del)) else []) @ map Inserted ins"
proof -
  let ?inbox = "slot st t"
  let ?a = "actual_start (length ?inbox) a"
  define i where "i = nat (int_of_number ?a)"
  define del where "del = actual_delete (length ?inbox) i d"
  define cand where "cand = toSpliced ?inbox i del ins"
  have i: "i \<le> length ?inbox"
    by (rule actual_start_range [of "length ?inbox" a]) (simp_all add: i_def int_of_number_def [of NegZero])
  have del: "i + del \<le> length ?inbox" using actual_delete_le [of "length ?inbox" i d] i by (simp add: del_def)
  have dup: "find_duplicate {} (pending (put_slot st t cand)) = None" if "ins = []"
    using distinct_splice_out [OF inv del] that by (simp add: cand_def)
  show ?thesis
  proof (cases "\<exists>err. mutate env t a d ins dis s = (s, Inl err)")
    case True
    then obtain err where err: "mutate env t a d ins dis s = (s, Inl err)" by blast
    have short: "int (length cand) \<le> max_array_length" if "ins = []"
      using slot_length [OF inv, of t] del that by (simp add: cand_def length_toSpliced)
    have rej: "err = AppendRejected" if "ins = []" "?a \<noteq> NegZero"
      using err dup [OF that(1)] short [OF that(1)] that unfolding cand_def
      by (auto simp: mutate_def cur Let_def i_def [symmetric] del_def [symmetric] lossless_splice_def
          split: if_splits option.splits)
    show ?thesis by (rule error [OF err]) (rule rej)
  next
    case False
    show ?thesis
    proof (cases "del = 0 \<and> ins = []")
      case True
      with idle show ?thesis by (simp add: mutate_def cur Let_def i_def del_def)
    next
      case busy: False
      from False busy have ok: "int (length cand) \<le> max_array_length" "find_duplicate {} (pending (put_slot st t cand)) = None"
        "?a \<noteq> NegZero"
        by (auto simp: mutate_def cur Let_def cand_def i_def del_def lossless_splice_def split: if_splits option.splits)
      have a: "?a = js_int (int i)"
        by (rule actual_start_range [of "length ?inbox" a]) (use ok(3) in \<open>simp_all add: i_def\<close>)
      let ?sp = "\<lparr>sp_target = t, sp_start = js_int (int i),
        sp_removedCount = (if del = 0 then None else Some (js_int (int del))), sp_inserted = ins,
        sp_canceled = (dis \<and> del > 0)\<rparr>"
      let ?e = "log_event (length (ib_log s)) (env_now env) (InboxSpliced ?sp)"
      define s' where "s' = s\<lparr>ib_log := ib_log s @ [?e],
        ib_signals := ib_signals s @ (if dis then map Discarded (slice ?inbox i (i + del)) else []) @ map Inserted ins\<rparr>"
      have "mutate env t a d ins dis s = (s', Inr (slice ?inbox i (i + del)))"
        using False busy ok a
        by (auto simp: mutate_def cur Let_def cand_def [symmetric] i_def [symmetric] del_def [symmetric] s'_def
            split: if_splits option.splits)
      moreover have "current s' = Inr (put_slot st t cand)"
        using cur apply_splice_commit [OF inv del] ok(1,2)
        by (simp add: current_def s'_def fold_res_snoc apply_inbox_def cand_def)
      moreover have "inbox_inv (put_slot st t cand)" by (rule put_slot_inv [OF inv ok(1,2)])
      ultimately show ?thesis
        using commit [of s' i del] a del by (simp add: s'_def cand_def del_def)
    qed
  qed
qed

section \<open>Sessions of commands\<close>

datatype inbox_call =
    ClearCall | ClaimCall inbox_target int | AppendCall inbox_target user_message
  | PrependCall inbox_target user_message | ReplaceCall string user_message | RemoveCall string
  | SpliceCall inbox_target js_number js_number "user_message list"

fun run_inbox :: "inbox_env \<Rightarrow> inbox_session \<Rightarrow> inbox_call \<Rightarrow> inbox_session" where
  "run_inbox env s ClearCall = fst (clear_inbox env s)"
| "run_inbox env s (ClaimCall target turn) = fst (claim env target turn s)"
| "run_inbox env s (AppendCall target m) = fst (append_message env target m s)"
| "run_inbox env s (PrependCall target m) = fst (prepend_message env target m s)"
| "run_inbox env s (ReplaceCall i m) = fst (replace_message env i m s)"
| "run_inbox env s (RemoveCall i) = fst (remove_message env i s)"
| "run_inbox env s (SpliceCall target a d ins) = fst (splice env target a d ins s)"

text \<open>Two kinds of predicate are kept by every command: those that single mutations and
  \<open>Claimed\<close> notifications keep.\<close>

definition replays :: "session_event list \<Rightarrow> inbox_session \<Rightarrow> bool" where
  "replays base s \<longleftrightarrow> (\<exists>st. current s = Inr st \<and> inbox_inv st) \<and> (\<exists>added. ib_log s = base @ added)"

lemma mutate_replays: "replays base s \<Longrightarrow> replays base (fst (mutate env t a d ins dis s))"
proof -
  assume r: "replays base s"
  then obtain st where cur: "current s = Inr st" "inbox_inv st" by (auto simp: replays_def)
  show "replays base (fst (mutate env t a d ins dis s))"
    by (rule mutate_cases [OF cur, of env t a d ins dis]) (use r in \<open>auto simp: replays_def\<close>)
qed

lemma then_run_fst:
  "P (fst r) \<Longrightarrow> (\<And>a s. P s \<Longrightarrow> P (fst (f a s))) \<Longrightarrow> P (fst (then_run r f))"
  by (cases r; cases "snd r") (auto simp: then_run_def)

lemma read_length_fst [simp]: "fst (read_length t s) = s"
  by (simp add: read_length_def split: sum.split)

lemma claim_keeps:
  assumes mut: "\<And>t a d ins dis s. P s \<Longrightarrow> P (fst (mutate env t a d ins dis s))"
    and sig: "\<And>s sigs. P s \<Longrightarrow> P (s\<lparr>ib_signals := sigs\<rparr>)"
    and P: "P s"
  shows "P (fst (claim env t turn s))"
  unfolding claim_def
proof (rule then_run_fst [where P = P, OF then_run_fst [where P = P]])
  fix first s1 assume "P s1"
  then have "P (fst (if t = NextTurn then mutate env NextTurn (js_int 0) (js_int 1) [] False s1 else (s1, Inr [])))"
    by (simp add: mut)
  then show "P (fst (then_run (if t = NextTurn then mutate env NextTurn (js_int 0) (js_int 1) [] False s1 else (s1, Inr []))
      (\<lambda>second s2. (s2\<lparr>ib_signals := ib_signals s2 @ map (\<lambda>m. Claimed m turn) (first @ second)\<rparr>, Inr (first @ second)))))"
    by (rule then_run_fst [where P = P]) (simp add: sig)
qed (simp_all add: P mut)

lemma command_keeps:
  assumes spl: "\<And>t a d ins s. P s \<Longrightarrow> P (fst (splice env t a d ins s))"
    and clm: "\<And>t turn s. P s \<Longrightarrow> P (fst (claim env t turn s))"
    and P: "P s"
  shows "P (run_inbox env s c)"
proof -
  note run = then_run_fst [where P = P]
  have read: "P s \<Longrightarrow> P (fst (read_length t s))" for t s by simp
  have edit: "P (fst (edit_message env i new s))" for i new
  proof -
    have "P (fst (then_run (splice env t (js_int (int k)) (js_int 1) new s) (\<lambda>_ s1. (s1, Inr True))))" for t k
      by (rule run [OF spl [OF P]]) simp
    with P show ?thesis by (auto simp: edit_message_def split: sum.split option.split)
  qed
  show ?thesis
  proof (cases c)
    case ClearCall
    show ?thesis unfolding ClearCall run_inbox.simps clear_inbox_def
      by (rule run [OF run [OF read [OF P] spl]]) (auto intro: run [OF read spl])
  next
    case (AppendCall t m)
    show ?thesis unfolding AppendCall run_inbox.simps append_message_def by (rule run [OF read [OF P] spl])
  qed (simp_all add: P spl clm edit prepend_message_def replace_message_def remove_message_def)
qed

lemma run_inbox_replays: "replays base s \<Longrightarrow> replays base (run_inbox env s c)"
proof (rule command_keeps)
  have sig: "replays base (s\<lparr>ib_signals := sigs\<rparr>)" if "replays base s" for s sigs
    using that by (simp add: replays_def current_def)
  show "replays base (fst (claim env t turn s))" if "replays base s" for t turn s
    by (rule claim_keeps [where P = "replays base"]) (simp_all add: mutate_replays sig that)
qed (simp_all add: splice_def mutate_replays)

text \<open>C20: The inbox never writes a splice that its own strict fold rejects: starting from any log that
  replays, after any commands with any arguments (fractional, negative, infinite or NaN positions,
  repeated identities, rejected appends), the grown log still replays, and the pending identities are
  distinct across both lists.\<close>

theorem inbox_writes_replayable:
  assumes "current s = Inr st0"
  shows "let s' = foldl (run_inbox env) s calls in
    \<exists>st added. current s' = Inr st \<and> distinct (map um_id (pending st)) \<and> ib_log s' = ib_log s @ added"
proof -
  have "inbox_inv st0" using assms unfolding current_def by (rule inbox_fold.replay_from_init)
  with assms have "replays (ib_log s) s" by (simp add: replays_def)
  then have "replays (ib_log s) (foldl (run_inbox env) s' calls)" if "replays (ib_log s) s'" for s'
    using that by (induction calls arbitrary: s') (simp_all add: run_inbox_replays)
  from this [OF \<open>replays (ib_log s) s\<close>] show ?thesis
    by (auto simp: replays_def inbox_inv_def Let_def)
qed

definition sample_message :: "string \<Rightarrow> user_message" where
  "sample_message i = \<lparr>um_id = i, um_source = SrcUser, um_content = JArr []\<rparr>"

definition sample_env :: inbox_env where
  "sample_env = \<lparr>env_now = 3, env_admits = (\<lambda>es sp. True)\<rparr>"

definition sample_inbox :: "inbox_call list \<Rightarrow> inbox_session" where
  "sample_inbox calls = foldl (run_inbox sample_env) \<lparr>ib_log = [], ib_signals = []\<rparr> calls"

definition sample_inbox_calls :: "inbox_call list" where
  "sample_inbox_calls = [AppendCall NextTurn (sample_message ''a''), PrependCall NextStep (sample_message ''b''),
     AppendCall NextTurn (sample_message ''b''), SpliceCall NextTurn (Num (- 1 / 2)) NaN [sample_message ''c''],
     SpliceCall NextTurn NegInf PosInf [sample_message ''d'', sample_message ''e''], RemoveCall ''d'']"

theorem inbox_writes_replayable_witness:
  "\<exists>st. current (sample_inbox sample_inbox_calls) = Inr st \<and> distinct (map um_id (pending st))
     \<and> map um_id (pending st) = [''e'', ''b'']"
proof -
  have "current (\<lparr>ib_log = [], ib_signals = []\<rparr> :: inbox_session) = Inr inbox_init" by code_simp
  from inbox_writes_replayable [OF this, of sample_env sample_inbox_calls]
  obtain st where st: "current (sample_inbox sample_inbox_calls) = Inr st" "distinct (map um_id (pending st))"
    by (auto simp: Let_def sample_inbox_def)
  have "map_sum id (map um_id \<circ> pending) (current (sample_inbox sample_inbox_calls)) = Inr [''e'', ''b'']"
    by code_simp
  with st show ?thesis by simp
qed

section \<open>Conservation\<close>

text \<open>The messages that notifications of each kind carry.\<close>

fun inserted_in :: "inbox_signal list \<Rightarrow> user_message list" where
  "inserted_in [] = []"
| "inserted_in (Inserted m # ss) = m # inserted_in ss"
| "inserted_in (_ # ss) = inserted_in ss"

fun taken_in :: "inbox_signal list \<Rightarrow> user_message list" where
  "taken_in [] = []"
| "taken_in (Inserted m # ss) = taken_in ss"
| "taken_in (Claimed m turn # ss) = m # taken_in ss"
| "taken_in (Discarded m # ss) = m # taken_in ss"

lemma in_append [simp]:
  "inserted_in (xs @ ys) = inserted_in xs @ inserted_in ys" "taken_in (xs @ ys) = taken_in xs @ taken_in ys"
  by (induction xs rule: inserted_in.induct; simp) (induction xs rule: taken_in.induct; simp)

lemma in_map [simp]:
  "inserted_in (map Inserted ms) = ms" "taken_in (map Inserted ms) = []"
  "inserted_in (map Discarded ms) = []" "taken_in (map Discarded ms) = ms"
  "inserted_in (map (\<lambda>m. Claimed m turn) ms) = []" "taken_in (map (\<lambda>m. Claimed m turn) ms) = ms"
  by (induction ms) simp_all

text \<open>What was announced as inserted is pending, or announced as taken, or in hand.\<close>

definition balanced :: "user_message multiset \<Rightarrow> inbox_session \<Rightarrow> bool" where
  "balanced hand s \<longleftrightarrow> (\<exists>st. current s = Inr st \<and> inbox_inv st \<and>
     mset (inserted_in (ib_signals s)) = mset (pending st) + mset (taken_in (ib_signals s)) + hand)"

lemma mset_splice:
  "i + del \<le> length xs \<Longrightarrow> mset (toSpliced xs i del ins) + mset (slice xs i (i + del)) = mset xs + mset ins"
  by (rule toSpliced_parts [of i del xs], assumption) (simp, metis mset_append union_assoc union_commute)

lemma mset_exchange:
  fixes a b c d e f :: "'a multiset"
  assumes "a + b = c + d" "d + e = b + f"
  shows "a + e = c + f"
proof -
  have "(a + e) + (b + d) = (a + b) + (d + e)" by (simp add: ac_simps)
  also have "\<dots> = (c + f) + (b + d)" by (simp add: assms ac_simps)
  finally show ?thesis by simp
qed

lemma splice_balanced:
  assumes "balanced hand s"
  shows "balanced hand (fst (splice env t a d ins s))"
proof -
  from assms obtain st where cur: "current s = Inr st" "inbox_inv st" and
    bal: "mset (inserted_in (ib_signals s)) = mset (pending st) + mset (taken_in (ib_signals s)) + hand"
    by (auto simp: balanced_def)
  show ?thesis
  proof (rule mutate_cases [OF cur, of env t a d ins True])
    fix s' i del
    assume run: "mutate env t a d ins True s = (s', Inr (slice (slot st t) i (i + del)))"
      and le: "i + del \<le> length (slot st t)"
      and cur': "current s' = Inr (put_slot st t (toSpliced (slot st t) i del ins))"
        "inbox_inv (put_slot st t (toSpliced (slot st t) i del ins))"
      and sig: "ib_signals s' = ib_signals s @ (if True then map Discarded (slice (slot st t) i (i + del)) else []) @ map Inserted ins"
    have "mset (pending (put_slot st t (toSpliced (slot st t) i del ins))) + mset (slice (slot st t) i (i + del))
        = mset (pending st) + mset ins"
      using pending_put [of st t "toSpliced (slot st t) i del ins"] mset_splice [OF le, of ins]
      by (rule mset_exchange)
    with bal sig have "mset (inserted_in (ib_signals s')) =
        mset (pending (put_slot st t (toSpliced (slot st t) i del ins))) + mset (taken_in (ib_signals s')) + hand"
      by (simp add: ac_simps)
    with run cur' show ?thesis by (simp add: balanced_def splice_def)
  qed (use assms in \<open>auto simp: splice_def\<close>)
qed

section \<open>Claims\<close>

definition admits_all :: "inbox_env \<Rightarrow> bool" where
  "admits_all env \<longleftrightarrow> (\<forall>es sp. env_admits env es sp)"

lemma mutate_not_rejected:
  "current s = Inr st \<Longrightarrow> admits_all env \<Longrightarrow> snd (mutate env t a d ins dis s) \<noteq> Inl AppendRejected"
  by (auto simp: mutate_def admits_all_def Let_def split: option.split)

lemma actual_zero: "actual_start len (js_int 0) = js_int 0" "actual_delete len 0 (js_int (int n)) = min n len"
  by (simp_all add: actual_start_def actual_delete_def js_trunc_def js_int_def Let_def)

text \<open>Taking the first messages of a list, as \<open>claim\<close> does.\<close>

lemma mutate_take:
  assumes cur: "current s = Inr st" and inv: "inbox_inv st" and adm: "admits_all env"
  shows "\<exists>s'. mutate env t (js_int 0) (js_int (int n)) [] False s = (s', Inr (take n (slot st t)))
    \<and> current s' = Inr (put_slot st t (drop n (slot st t))) \<and> inbox_inv (put_slot st t (drop n (slot st t)))
    \<and> ib_signals s' = ib_signals s"
proof (rule mutate_cases [OF cur inv, of env t "js_int 0" "js_int (int n)" "[]" False])
  fix err assume "mutate env t (js_int 0) (js_int (int n)) [] False s = (s, Inl err)"
    "[] = [] \<Longrightarrow> actual_start (length (slot st t)) (js_int 0) \<noteq> NegZero \<Longrightarrow> err = AppendRejected"
  with mutate_not_rejected [OF cur adm, of t "js_int 0" "js_int (int n)" "[]" False] show ?thesis
    by (simp add: actual_zero)
next
  have same: "put_slot st t (slot st t) = st" by (cases t) (simp_all add: put_slot_def slot_def)
  then have none: "put_slot st t [] = st" if "slot st t = []" using that by simp
  assume "mutate env t (js_int 0) (js_int (int n)) [] False s = (s, Inr [])"
    "actual_delete (length (slot st t)) (nat (int_of_number (actual_start (length (slot st t)) (js_int 0)))) (js_int (int n)) = 0"
  then have "n = 0 \<or> slot st t = []" by (auto simp: actual_zero min_def split: if_splits)
  with \<open>mutate _ _ _ _ _ _ _ = _\<close> cur inv same none show ?thesis by auto
next
  fix s' i del
  assume run: "mutate env t (js_int 0) (js_int (int n)) [] False s = (s', Inr (slice (slot st t) i (i + del)))"
    and start: "actual_start (length (slot st t)) (js_int 0) = js_int (int i)"
    and del: "del = actual_delete (length (slot st t)) i (js_int (int n))"
    and cur': "current s' = Inr (put_slot st t (toSpliced (slot st t) i del []))"
      "inbox_inv (put_slot st t (toSpliced (slot st t) i del []))"
      "ib_signals s' = ib_signals s @ (if False then map Discarded (slice (slot st t) i (i + del)) else []) @ map Inserted []"
  have i: "i = 0" using start by (simp add: actual_zero)
  have "take (min n (length xs)) xs = take n xs" "drop (min n (length xs)) xs = drop n xs" for xs :: "user_message list"
    by (simp_all add: min_def)
  then have "slice (slot st t) i (i + del) = take n (slot st t)" "toSpliced (slot st t) i del [] = drop n (slot st t)"
    unfolding del i actual_zero by (simp_all add: slice_def toSpliced_def)
  with run cur' show ?thesis by simp
qed

lemma claim_effect:
  assumes cur: "current s = Inr st" and adm: "admits_all env"
  shows "\<exists>s'. let batch = next_step st @ (if target = NextTurn then take 1 (next_turn st) else []) in
    claim env target turn s = (s', Inr batch)
    \<and> current s' = Inr \<lparr>next_turn = (if target = NextTurn then drop 1 (next_turn st) else next_turn st), next_step = []\<rparr>
    \<and> ib_signals s' = ib_signals s @ map (\<lambda>m. Claimed m turn) batch"
proof -
  have inv: "inbox_inv st" using cur unfolding current_def by (rule inbox_fold.replay_from_init)
  obtain s1 where s1: "mutate env NextStep (js_int 0) (js_int (int (length (next_step st)))) [] False s = (s1, Inr (next_step st))"
    and c1: "current s1 = Inr (put_slot st NextStep [])" "inbox_inv (put_slot st NextStep [])" "ib_signals s1 = ib_signals s"
    using mutate_take [OF cur inv adm, of NextStep "length (next_step st)"] by (auto simp: slot_def)
  have sel: "current (x\<lparr>ib_signals := y\<rparr>) = current x" for x y by (simp add: current_def)
  show ?thesis
  proof (cases "target = NextTurn")
    case True
    obtain s2 where "mutate env NextTurn (js_int 0) (js_int 1) [] False s1 = (s2, Inr (take 1 (next_turn st)))"
      "current s2 = Inr (put_slot (put_slot st NextStep []) NextTurn (drop 1 (next_turn st)))" "ib_signals s2 = ib_signals s"
      using mutate_take [OF c1(1,2) adm, of NextTurn 1] c1(3) by (auto simp: slot_def put_slot_def)
    with True cur s1 show ?thesis
      by (simp add: claim_def read_length_def then_run_def slot_def sel put_slot_def)
  next
    case False
    with cur s1 c1 show ?thesis
      by (cases st) (simp add: claim_def read_length_def then_run_def slot_def sel put_slot_def Let_def)
  qed
qed

text \<open>A claim at a step boundary takes exactly what is due: all pending next-step input in order,
  followed, at a turn boundary, by the first queued turn; it returns them, announces each of them once
  in that order for the turn, and leaves the rest of the queue as it was.\<close>

lemma claim_takes_boundary_batch:
  assumes "current s = Inr st" and "admits_all env"
  shows "\<exists>s'. let batch = next_step st @ (if target = NextTurn then take 1 (next_turn st) else []) in
    claim env target turn s = (s', Inr batch)
    \<and> current s' = Inr \<lparr>next_turn = (if target = NextTurn then drop 1 (next_turn st) else next_turn st), next_step = []\<rparr>
    \<and> ib_signals s' = ib_signals s @ map (\<lambda>m. Claimed m turn) batch"
  by (rule claim_effect [OF assms])



end
