(* ===== verification/Consumed_Work.thy ===== *)
theory Consumed_Work
  imports Session_Trace
begin

text \<open>
  How an agent log accounts for the work it consumed,
  \<^verbatim>\<open>packages/core/agent/src/consumed-work.ts\<close>: one pass over the log with the turns that entered a
  step, the turns that claimed input, and the open turn. The result names the last turn end that
  accounts for work, and whether accepted input was dropped unrun after it.
\<close>

section \<open>The fold\<close>

record consumed_scan =
  cs_stepped :: "int set"
  cs_claimed :: "int set"
  cs_open :: "int option"
  cs_end :: "session_event option"
  cs_droppedUnrun :: bool

record consumed_work =
  cw_end :: "session_event option"
  cw_droppedUnrun :: bool

fun accountsForClaim :: "turn_end_reason \<Rightarrow> bool" where
  "accountsForClaim Completed = False"
| "accountsForClaim _ = True"

definition consumed_init :: consumed_scan where
  "consumed_init = \<lparr>cs_stepped = {}, cs_claimed = {}, cs_open = None, cs_end = None, cs_droppedUnrun = False\<rparr>"

text \<open>The splice case, the turn-end case with its short-circuit deletions, and the loop body.\<close>

definition consume_splice :: "consumed_scan \<Rightarrow> inbox_splice \<Rightarrow> consumed_scan" where
  "consume_splice s sp =
     (if sp_removedCount sp = None then s
      else if sp_canceled sp then s\<lparr>cs_droppedUnrun := (cs_droppedUnrun s \<or> sp_inserted sp = [])\<rparr>
      else case cs_open s of None \<Rightarrow> s | Some n \<Rightarrow> s\<lparr>cs_claimed := insert n (cs_claimed s)\<rparr>)"

definition consume_end :: "consumed_scan \<Rightarrow> session_event \<Rightarrow> int \<Rightarrow> turn_end_reason \<Rightarrow> consumed_scan" where
  "consume_end s e turn reason =
     (let s = s\<lparr>cs_open := None\<rparr> in
      if turn \<in> cs_stepped s
      then s\<lparr>cs_stepped := cs_stepped s - {turn}, cs_end := Some e, cs_droppedUnrun := False\<rparr>
      else if turn \<in> cs_claimed s
      then (let s = s\<lparr>cs_claimed := cs_claimed s - {turn}\<rparr> in
            if accountsForClaim reason then s\<lparr>cs_end := Some e, cs_droppedUnrun := False\<rparr> else s)
      else s)"

definition consumed_step :: "consumed_scan \<Rightarrow> session_event \<Rightarrow> consumed_scan" where
  "consumed_step s e = (case ev_data e of
     TurnStart turn \<Rightarrow> s\<lparr>cs_open := Some turn\<rparr>
   | StepStart turn step \<Rightarrow> s\<lparr>cs_stepped := insert turn (cs_stepped s)\<rparr>
   | InboxSpliced sp \<Rightarrow> consume_splice s sp
   | TurnEnd turn reason \<Rightarrow> consume_end s e turn reason
   | _ \<Rightarrow> s)"

definition foldConsumedWork :: "session_event list \<Rightarrow> consumed_work" where
  "foldConsumedWork events = (let s = foldl consumed_step consumed_init events in
     \<lparr>cw_end = cs_end s, cw_droppedUnrun = cs_droppedUnrun s\<rparr>)"

section \<open>What accounts for work\<close>

text \<open>A removal that is not a cancellation is a claim; a cancellation that puts nothing in its place
  drops work.\<close>

definition claims :: "session_event \<Rightarrow> bool" where
  "claims e = (case ev_data e of InboxSpliced sp \<Rightarrow> sp_removedCount sp \<noteq> None \<and> \<not> sp_canceled sp | _ \<Rightarrow> False)"

definition drops :: "session_event \<Rightarrow> bool" where
  "drops e = (case ev_data e of
     InboxSpliced sp \<Rightarrow> sp_removedCount sp \<noteq> None \<and> sp_canceled sp \<and> sp_inserted sp = [] | _ \<Rightarrow> False)"

definition stepped_in :: "session_event list \<Rightarrow> int \<Rightarrow> bool" where
  "stepped_in es n \<longleftrightarrow> (\<exists>e \<in> set es. \<exists>step. ev_data e = StepStart n step)"

definition started_in :: "session_event list \<Rightarrow> int \<Rightarrow> bool" where
  "started_in es n \<longleftrightarrow> (\<exists>e \<in> set es. ev_data e = TurnStart n)"

text \<open>Some event after the start of the turn claims input.\<close>

fun claimed_in :: "session_event list \<Rightarrow> int \<Rightarrow> bool" where
  "claimed_in [] n = False"
| "claimed_in (e # es) n = (ev_data e = TurnStart n \<and> list_ex claims es \<or> claimed_in es n)"

text \<open>The end of a turn accounts for work, given the log before it, when the turn entered a step, or
  claimed input and did not complete.\<close>

definition accounts :: "session_event list \<Rightarrow> session_event \<Rightarrow> bool" where
  "accounts es e = (case ev_data e of
     TurnEnd n reason \<Rightarrow> stepped_in es n \<or> reason \<noteq> Completed \<and> claimed_in es n | _ \<Rightarrow> False)"

definition none_accounts :: "session_event list \<Rightarrow> session_event list \<Rightarrow> bool" where
  "none_accounts before es \<longleftrightarrow> (\<forall>i < length es. \<not> accounts (before @ take i es) (es ! i))"

text \<open>The account a reader of the whole log would give: the last accounting turn end, and
  whether work was dropped after it.\<close>

definition account_of :: "session_event list \<Rightarrow> session_event option \<Rightarrow> bool \<Rightarrow> bool" where
  "account_of es final dropped = (case final of
     None \<Rightarrow> none_accounts [] es \<and> dropped = list_ex drops es
   | Some e \<Rightarrow> \<exists>pre post. es = pre @ e # post \<and> accounts pre e \<and> none_accounts (pre @ [e]) post
       \<and> dropped = list_ex drops post)"

lemma none_accounts_snoc:
  "none_accounts pre (es @ [x]) \<longleftrightarrow> none_accounts pre es \<and> \<not> accounts (pre @ es) x"
  by (auto simp: none_accounts_def nth_append less_Suc_eq)

lemma account_of_next:
  assumes "account_of es final dropped" "\<not> accounts es x"
  shows "account_of (es @ [x]) final (dropped \<or> drops x)"
proof (cases final)
  case None
  with assms show ?thesis by (simp add: account_of_def none_accounts_snoc)
next
  case (Some e)
  with assms(1) obtain pre post where "es = pre @ e # post" "accounts pre e"
    "none_accounts (pre @ [e]) post" "dropped = list_ex drops post"
    by (auto simp: account_of_def)
  with assms(2) have "es @ [x] = pre @ e # (post @ [x]) \<and> accounts pre e
    \<and> none_accounts (pre @ [e]) (post @ [x]) \<and> (dropped \<or> drops x) = list_ex drops (post @ [x])"
    by (auto simp: none_accounts_snoc)
  then show ?thesis unfolding account_of_def Some option.case by blast
qed

lemma account_of_end: "accounts es x \<Longrightarrow> account_of (es @ [x]) (Some x) False"
  unfolding account_of_def option.case by (rule exI [of _ es], rule exI [of _ "[]"]) (simp add: none_accounts_def)

lemma claimed_in_snoc: "claimed_in (es @ [x]) n \<longleftrightarrow> claimed_in es n \<or> claims x \<and> started_in es n"
  by (induction es) (auto simp: started_in_def)

lemma stepped_in_snoc: "stepped_in (es @ [x]) n \<longleftrightarrow> stepped_in es n \<or> (\<exists>step. ev_data x = StepStart n step)"
  by (auto simp: stepped_in_def)

lemma started_in_snoc: "started_in (es @ [x]) n \<longleftrightarrow> started_in es n \<or> ev_data x = TurnStart n"
  by (auto simp: started_in_def)

lemma claimed_started: "claimed_in es n \<Longrightarrow> started_in es n"
  by (induction es) (auto simp: started_in_def)

lemmas seen_snoc = claimed_in_snoc stepped_in_snoc started_in_snoc

section \<open>The fold gives this account\<close>

text \<open>The sets of the scan agree with the log on the open turn and on every turn to come.\<close>

definition scan_agrees :: "session_event list \<Rightarrow> session_trace \<Rightarrow> consumed_scan \<Rightarrow> bool" where
  "scan_agrees es t s \<longleftrightarrow> cs_open s = openTurn t
     \<and> (\<forall>n. openTurn t = Some n \<longrightarrow> started_in es n
          \<and> (n \<in> cs_stepped s) = stepped_in es n \<and> (n \<in> cs_claimed s) = claimed_in es n)
     \<and> (\<forall>n > begun_turns t. n \<notin> cs_stepped s \<and> n \<notin> cs_claimed s \<and> \<not> stepped_in es n \<and> \<not> started_in es n)"

lemma scan_agrees_other:
  assumes "consumed_step s e = s" "openTurn t' = openTurn t" "begun_turns t' = begun_turns t"
    and "\<And>n. started_in (es @ [e]) n = started_in es n" "\<And>n. stepped_in (es @ [e]) n = stepped_in es n"
    and "\<And>n. claimed_in (es @ [e]) n = claimed_in es n"
  shows "scan_agrees es t s \<Longrightarrow> scan_agrees (es @ [e]) t' (consumed_step s e)"
  using assms by (simp add: scan_agrees_def)

lemma trace_step_turn_open:
  assumes "trace_inv t" "trace_step t e = Inr t'"
  shows "case ev_data e of
     TurnStart n \<Rightarrow> openTurn t = None \<and> openTurn t' = Some n \<and> n = begun_turns t + 1 \<and> begun_turns t' = n
   | TurnEnd n reason \<Rightarrow> openTurn t = Some n \<and> openTurn t' = None \<and> begun_turns t = n \<and> begun_turns t' = n
   | StepStart n step \<Rightarrow> openTurn t = Some n \<and> openTurn t' = Some n \<and> begun_turns t = n \<and> begun_turns t' = n
   | _ \<Rightarrow> openTurn t' = openTurn t \<and> begun_turns t' = begun_turns t"
  using assms
  by (cases "ev_data e")
    (auto simp: trace_simps res_simps begun_turns_def trace_inv_def split: if_splits option.splits)

lemma begun_open: "trace_inv t \<Longrightarrow> openTurn t = Some n \<Longrightarrow> begun_turns t = n"
  by (simp add: begun_turns_def)

lemma scan_agrees_step:
  assumes agrees: "scan_agrees es t s" and inv: "trace_inv t" and step: "trace_step t e = Inr t'"
  shows "scan_agrees (es @ [e]) t' (consumed_step s e)"
proof -
  note open_turn = trace_step_turn_open [OF inv step]
  note defs = scan_agrees_def seen_snoc claims_def consumed_step_def
  show ?thesis
  proof (cases "ev_data e")
    case (TurnStart n)
    with agrees open_turn claimed_started [of es n] show ?thesis by (auto simp: defs)
  next
    case (StepStart n k)
    with agrees open_turn show ?thesis by (auto simp: defs)
  next
    case (TurnEnd n reason)
    with agrees open_turn show ?thesis by (auto simp: defs consume_end_def Let_def)
  next
    case (InboxSpliced sp)
    with agrees open_turn begun_open [OF inv] show ?thesis
      by (auto simp: defs consume_splice_def split: option.splits)
  qed (use agrees open_turn in \<open>simp_all add: defs\<close>)
qed

lemma scan_accounts:
  assumes "scan_agrees es t s" "trace_inv t" "trace_step t e = Inr t'"
  shows "(accounts es e \<longrightarrow> cs_end (consumed_step s e) = Some e \<and> \<not> cs_droppedUnrun (consumed_step s e))
    \<and> (\<not> accounts es e \<longrightarrow> cs_end (consumed_step s e) = cs_end s
         \<and> cs_droppedUnrun (consumed_step s e) = (cs_droppedUnrun s \<or> drops e))"
proof (cases "ev_data e")
  case (TurnEnd n reason)
  have "accountsForClaim reason = (reason \<noteq> Completed)" by (cases reason) simp_all
  with TurnEnd trace_step_turn_open [OF assms(2,3)] assms(1) show ?thesis
    by (auto simp: scan_agrees_def accounts_def drops_def consumed_step_def consume_end_def Let_def)
qed (auto simp: accounts_def drops_def consumed_step_def consume_splice_def split: option.splits)

lemma scan_account:
  assumes "fold_res trace_step freshTrace es = Inr t"
  shows "let s = foldl consumed_step consumed_init es in
    scan_agrees es t s \<and> account_of es (cs_end s) (cs_droppedUnrun s)"
  using assms
proof (induction es arbitrary: t rule: rev_induct)
  case Nil
  then show ?case
    by (auto simp: scan_agrees_def consumed_init_def freshTrace_def account_of_def none_accounts_def
        stepped_in_def started_in_def)
next
  case (snoc e es)
  then obtain u where u: "fold_res trace_step freshTrace es = Inr u" "trace_step u e = Inr t"
    by (auto simp: fold_res_snoc res_simps)
  let ?s = "foldl consumed_step consumed_init es"
  have IH: "scan_agrees es u ?s" "account_of es (cs_end ?s) (cs_droppedUnrun ?s)"
    using snoc.IH [OF u(1)] by (simp_all add: Let_def)
  have inv: "trace_inv u" using u(1) by (rule trace_fold.replay_from_init)
  have "account_of (es @ [e]) (cs_end (consumed_step ?s e)) (cs_droppedUnrun (consumed_step ?s e))"
    using scan_accounts [OF IH(1) inv u(2)] account_of_next [OF IH(2)] account_of_end
    by (cases "accounts es e") simp_all
  with scan_agrees_step [OF IH(1) inv u(2)] show ?case by (simp add: Let_def)
qed

text \<open>C35: On every log that the session trace accepts, the single-pass fold gives the account a reader
  of the whole log would give: the last turn end that accounts for work (its turn entered a step, or
  claimed input after its start and did not complete), and whether input was dropped unrun after
  that end, or anywhere when no end accounts.\<close>

theorem consumed_work_account:
  assumes "seedSession events = Inr t"
  shows "account_of events (cw_end (foldConsumedWork events)) (cw_droppedUnrun (foldConsumedWork events))"
  using scan_account [OF assms [unfolded seedSession_def]] by (simp add: foldConsumedWork_def Let_def)

definition sample_splice :: "nat \<Rightarrow> bool \<Rightarrow> session_event" where
  "sample_splice k canceled = log_event k 0 (InboxSpliced
     \<lparr>sp_target = NextTurn, sp_start = js_int 0, sp_removedCount = Some (js_int 1), sp_inserted = [],
      sp_canceled = canceled\<rparr>)"

definition sample_consumed :: "session_event list" where
  "sample_consumed =
     [log_event 0 0 (TurnStart 1), sample_splice 1 False, log_event 2 0 (TurnEnd 1 Aborted),
      log_event 3 0 (TurnStart 2), sample_splice 4 False, log_event 5 0 (TurnEnd 2 Completed), sample_splice 6 True]"

theorem consumed_work_account_witness:
  "account_of sample_consumed (Some (log_event 2 0 (TurnEnd 1 Aborted))) True"
proof -
  have "returns (seedSession sample_consumed)" by code_simp
  then obtain t where "seedSession sample_consumed = Inr t" by (auto simp: returns_iff)
  moreover have "foldConsumedWork sample_consumed =
      \<lparr>cw_end = Some (log_event 2 0 (TurnEnd 1 Aborted)), cw_droppedUnrun = True\<rparr>" by code_simp
  ultimately show ?thesis using consumed_work_account by fastforce
qed

end
