(* ===== verification/Goal_Fold.thy ===== *)
theory Goal_Fold
  imports Session_Log
begin

text \<open>
  The goal domain as a fold over the session log (\<^verbatim>\<open>packages/goal/goal/src\<close>): the strict decoder of
  durable goal changes and the replay fold (\<^verbatim>\<open>fold.ts\<close>), and the projection that carries the fold in
  checkpoints and latches its first failure (\<^verbatim>\<open>index.ts\<close>). Decoded integers are safe integers; they
  are kept as \<open>int\<close>. A JavaScript set of identities is the list of its elements in insertion order.
\<close>

section \<open>Vocabulary\<close>

record goal_ref =
  gr_id :: string
  gr_revision :: int

datatype goal_phase = Active | Paused | BlockedPhase | CompletePhase

record block_reason =
  br_code :: string
  br_message :: string

record goal_snapshot =
  gs_id :: string
  gs_revision :: int
  gs_objective :: string
  gs_phase :: goal_phase
  gs_blockedReason :: "block_reason option"
  gs_maxGoalRounds :: int

datatype goal_operation = OpCreate | OpEdit | OpPause | OpResume | OpComplete | OpBlock | OpClear

record snapshot_change =
  sc_operation :: goal_operation
  sc_goal :: goal_snapshot
  sc_roundsStarted :: int
  sc_createdAt :: int
  sc_updatedAt :: int

datatype goal_change = Snapshot snapshot_change | Tombstone goal_ref int  \<comment> \<open>\<open>cleared\<close>, \<open>clearedAt\<close>\<close>

datatype goal_fold_error =
    NotPositive string | NotNonNegative string
  | BlockReasonKeys | BlockReasonCode | BlockReasonMessage
  | GoalNotRecord | GoalIdInvalid | ObjectiveInvalid | PhaseInvalid | GoalKeys goal_phase
  | RefKeys | RefIdInvalid | UnsupportedVersion | ClearKeys | OperationInvalid | ChangeKeys | UpdateBeforeCreate
  | GoalSourceInvalid | DefinitionChanged goal_operation | RevisionNotNext goal_operation
  | CountersChanged goal_operation | EditChangedPhase | PhaseTransition goal_operation
  | NotATransition | UnknownOperation | NoCurrentGoal goal_operation | LacksUpdatedAt | LacksTimestamps
  | ClearTooEarly | NotFreshGoal | InvalidKind nat | RoundNotNext nat

fun phase_name :: "goal_phase \<Rightarrow> string" where
  "phase_name Active = ''active''"
| "phase_name Paused = ''paused''"
| "phase_name BlockedPhase = ''blocked''"
| "phase_name CompletePhase = ''complete''"

fun operation_name :: "goal_operation \<Rightarrow> string" where
  "operation_name OpCreate = ''create''"
| "operation_name OpEdit = ''edit''"
| "operation_name OpPause = ''pause''"
| "operation_name OpResume = ''resume''"
| "operation_name OpComplete = ''complete''"
| "operation_name OpBlock = ''block''"
| "operation_name OpClear = ''clear''"

text \<open>The member of a closed set of names that a value is.\<close>

definition named_member :: "('a \<Rightarrow> string) \<Rightarrow> 'a list \<Rightarrow> jsval \<Rightarrow> 'a option" where
  "named_member name xs v = (case v of JStr s \<Rightarrow> find (\<lambda>x. name x = s) xs | _ \<Rightarrow> None)"

definition PHASES :: "goal_phase list" where
  "PHASES = [Active, Paused, BlockedPhase, CompletePhase]"

definition SNAPSHOT_OPERATIONS :: "goal_operation list" where
  "SNAPSHOT_OPERATIONS = [OpCreate, OpEdit, OpPause, OpResume, OpComplete, OpBlock]"

section \<open>Decoding\<close>

definition positiveInteger :: "jsval \<Rightarrow> string \<Rightarrow> goal_fold_error + int" where
  "positiveInteger v field = (case v of
     JNum n \<Rightarrow> if \<not> is_safe_integer n \<or> int_of_number n < 1 then Inl (NotPositive field) else Inr (int_of_number n)
   | _ \<Rightarrow> Inl (NotPositive field))"

definition nonNegativeInteger :: "jsval \<Rightarrow> string \<Rightarrow> goal_fold_error + int" where
  "nonNegativeInteger v field = (case v of
     JNum n \<Rightarrow> if \<not> is_safe_integer n \<or> int_of_number n < 0 then Inl (NotNonNegative field) else Inr (int_of_number n)
   | _ \<Rightarrow> Inl (NotNonNegative field))"

text \<open>The text of a non-empty string that is already trimmed.\<close>

definition normalized :: "jsval \<Rightarrow> string option" where
  "normalized v = (case v of JStr s \<Rightarrow> if trim s = [] \<or> s \<noteq> trim s then None else Some s | _ \<Rightarrow> None)"

definition decodeBlockReason :: "jsval \<Rightarrow> goal_fold_error + block_reason" where
  "decodeBlockReason v =
     (if \<not> isRecord v \<or> sorted_keys v \<noteq> ''code,message'' then Inl BlockReasonKeys
      else case get v ''code'' of
        JStr code \<Rightarrow>
          (if \<not> is_kebab code then Inl BlockReasonCode
           else case normalized (get v ''message'') of
               None \<Rightarrow> Inl BlockReasonMessage
             | Some message \<Rightarrow> Inr \<lparr>br_code = code, br_message = message\<rparr>)
      | _ \<Rightarrow> Inl BlockReasonCode)"

definition nonempty_text :: "jsval \<Rightarrow> string option" where
  "nonempty_text v = (case v of JStr s \<Rightarrow> if s = [] then None else Some s | _ \<Rightarrow> None)"

definition snapshot_keys :: "goal_phase \<Rightarrow> string" where
  "snapshot_keys phase = (if phase = BlockedPhase then ''blockedReason,id,maxGoalRounds,objective,phase,revision''
     else ''id,maxGoalRounds,objective,phase,revision'')"

definition decodeSnapshot :: "jsval \<Rightarrow> goal_fold_error + goal_snapshot" where
  "decodeSnapshot v =
     (if \<not> isRecord v then Inl GoalNotRecord
      else case nonempty_text (get v ''id'') of None \<Rightarrow> Inl GoalIdInvalid | Some i \<Rightarrow>
      (case normalized (get v ''objective'') of None \<Rightarrow> Inl ObjectiveInvalid | Some objective \<Rightarrow>
      (case named_member phase_name PHASES (get v ''phase'') of None \<Rightarrow> Inl PhaseInvalid | Some phase \<Rightarrow>
       if sorted_keys v \<noteq> snapshot_keys phase then Inl (GoalKeys phase)
       else bind_res (positiveInteger (get v ''revision'') ''goal.revision'') (\<lambda>revision.
            bind_res (positiveInteger (get v ''maxGoalRounds'') ''goal.maxGoalRounds'') (\<lambda>rounds.
            bind_res (if phase = BlockedPhase
                      then bind_res (decodeBlockReason (get v ''blockedReason'')) (\<lambda>r. Inr (Some r)) else Inr None) (\<lambda>reason.
            Inr \<lparr>gs_id = i, gs_revision = revision, gs_objective = objective, gs_phase = phase,
                 gs_blockedReason = reason, gs_maxGoalRounds = rounds\<rparr>))))))"

definition decodeRef :: "jsval \<Rightarrow> goal_fold_error + goal_ref" where
  "decodeRef v =
     (if \<not> isRecord v \<or> sorted_keys v \<noteq> ''id,revision'' then Inl RefKeys
      else case nonempty_text (get v ''id'') of None \<Rightarrow> Inl RefIdInvalid | Some i \<Rightarrow>
        bind_res (positiveInteger (get v ''revision'') ''cleared.revision'') (\<lambda>revision.
          Inr \<lparr>gr_id = i, gr_revision = revision\<rparr>))"

definition is_number :: "jsval \<Rightarrow> int \<Rightarrow> bool" where
  "is_number v i = (case v of JNum n \<Rightarrow> number_eq n (js_int i) | _ \<Rightarrow> False)"

definition GOAL_CHANGE_VERSION :: int where
  "GOAL_CHANGE_VERSION = 1"

text \<open>\<open>Inr None\<close> is the \<open>undefined\<close> returned for a value of another kind.\<close>

definition decodeGoalChange :: "jsval \<Rightarrow> goal_fold_error + goal_change option" where
  "decodeGoalChange v =
     (if \<not> isRecord v \<or> get v ''kind'' \<noteq> JStr ''goal/change'' then Inr None
      else if \<not> is_number (get v ''version'') GOAL_CHANGE_VERSION then Inl UnsupportedVersion
      else if get v ''operation'' = JStr ''clear'' then
        (if sorted_keys v \<noteq> ''cleared,clearedAt,kind,operation,version'' then Inl ClearKeys
         else bind_res (decodeRef (get v ''cleared'')) (\<lambda>cleared.
              bind_res (nonNegativeInteger (get v ''clearedAt'') ''clearedAt'') (\<lambda>clearedAt.
              Inr (Some (Tombstone cleared clearedAt)))))
      else case named_member operation_name SNAPSHOT_OPERATIONS (get v ''operation'') of
        None \<Rightarrow> Inl OperationInvalid
      | Some operation \<Rightarrow>
        (if sorted_keys v \<noteq> ''createdAt,goal,kind,operation,roundsStarted,updatedAt,version'' then Inl ChangeKeys
         else bind_res (nonNegativeInteger (get v ''createdAt'') ''createdAt'') (\<lambda>createdAt.
              bind_res (nonNegativeInteger (get v ''updatedAt'') ''updatedAt'') (\<lambda>updatedAt.
              if updatedAt < createdAt then Inl UpdateBeforeCreate
              else bind_res (decodeSnapshot (get v ''goal'')) (\<lambda>goal.
                   bind_res (nonNegativeInteger (get v ''roundsStarted'') ''roundsStarted'') (\<lambda>rounds.
                   Inr (Some (Snapshot \<lparr>sc_operation = operation, sc_goal = goal, sc_roundsStarted = rounds,
                     sc_createdAt = createdAt, sc_updatedAt = updatedAt\<rparr>))))))))"

text \<open>The fields of a goal message source: identity, revision, round.\<close>

definition goalSource :: "message_source \<Rightarrow> goal_fold_error + (string \<times> int \<times> int) option" where
  "goalSource source = (case source of
     SrcGoal goalId revision rnd \<Rightarrow>
       (case (nonempty_text goalId, revision, rnd) of
          (Some i, JNum r, JNum n) \<Rightarrow>
            (if \<not> is_safe_integer r \<or> int_of_number r < 1 \<or> \<not> is_safe_integer n \<or> int_of_number n < 1
             then Inl GoalSourceInvalid else Inr (Some (i, int_of_number r, int_of_number n)))
        | _ \<Rightarrow> Inl GoalSourceInvalid)
   | _ \<Rightarrow> Inr None)"

section \<open>The strict fold\<close>

record goal_fold_state =
  gf_goal :: "goal_snapshot option"
  gf_roundsStarted :: int
  gf_createdAt :: "int option"
  gf_updatedAt :: "int option"
  gf_lastRef :: "goal_ref option"
  gf_seenGoalIds :: "string list"

definition emptyGoalFoldState :: goal_fold_state where
  "emptyGoalFoldState = \<lparr>gf_goal = None, gf_roundsStarted = 0, gf_createdAt = None, gf_updatedAt = None,
     gf_lastRef = None, gf_seenGoalIds = []\<rparr>"

text \<open>\<open>Set.add\<close> on the list of elements.\<close>

definition set_add :: "'a \<Rightarrow> 'a list \<Rightarrow> 'a list" where
  "set_add x xs = (if x \<in> set xs then xs else xs @ [x])"

definition snapshot_ref :: "goal_snapshot \<Rightarrow> goal_ref" where
  "snapshot_ref g = \<lparr>gr_id = gs_id g, gr_revision = gs_revision g\<rparr>"

fun goalChangeRef :: "goal_change \<Rightarrow> goal_ref" where
  "goalChangeRef (Tombstone cleared clearedAt) = cleared"
| "goalChangeRef (Snapshot c) = snapshot_ref (sc_goal c)"

definition requireSameDefinition :: "goal_snapshot \<Rightarrow> goal_snapshot \<Rightarrow> goal_operation \<Rightarrow> goal_fold_error + unit" where
  "requireSameDefinition current next operation =
     (if gs_objective next \<noteq> gs_objective current \<or> gs_maxGoalRounds next \<noteq> gs_maxGoalRounds current
      then Inl (DefinitionChanged operation) else Inr ())"

definition requireNextRevision :: "goal_snapshot \<Rightarrow> goal_ref \<Rightarrow> goal_operation \<Rightarrow> goal_fold_error + unit" where
  "requireNextRevision current next operation =
     (if gr_id next \<noteq> gs_id current \<or> gr_revision next \<noteq> gs_revision current + 1
      then Inl (RevisionNotNext operation) else Inr ())"

definition validate_operation ::
    "goal_fold_state \<Rightarrow> snapshot_change \<Rightarrow> goal_snapshot \<Rightarrow> goal_fold_error + unit" where
  "validate_operation st change current = (let next = sc_goal change; oper = sc_operation change;
       same = requireSameDefinition current next oper in
     case oper of
       OpEdit \<Rightarrow> (if gs_phase next \<noteq> gs_phase current \<or> gs_blockedReason next \<noteq> gs_blockedReason current
                  then Inl EditChangedPhase else Inr ())
     | OpPause \<Rightarrow> bind_res same (\<lambda>_.
         if gs_phase current \<noteq> Active \<or> gs_phase next \<noteq> Paused then Inl (PhaseTransition oper) else Inr ())
     | OpResume \<Rightarrow> bind_res same (\<lambda>_.
         if gs_phase current \<notin> {Active, Paused, BlockedPhase} \<or> gs_phase next \<noteq> Active
           \<or> gf_roundsStarted st \<ge> gs_maxGoalRounds next
         then Inl (PhaseTransition oper) else Inr ())
     | OpComplete \<Rightarrow> bind_res same (\<lambda>_.
         if gs_phase current = CompletePhase \<or> gs_phase next \<noteq> CompletePhase then Inl (PhaseTransition oper) else Inr ())
     | OpBlock \<Rightarrow> bind_res same (\<lambda>_.
         if gs_phase current \<noteq> Active \<or> gs_phase next \<noteq> BlockedPhase then Inl (PhaseTransition oper) else Inr ())
     | OpCreate \<Rightarrow> Inl NotATransition
     | OpClear \<Rightarrow> Inl UnknownOperation)"

definition validateSnapshotTransition ::
    "goal_fold_state \<Rightarrow> snapshot_change \<Rightarrow> goal_snapshot \<Rightarrow> goal_fold_error + unit" where
  "validateSnapshotTransition st change current =
     bind_res (requireNextRevision current (snapshot_ref (sc_goal change)) (sc_operation change)) (\<lambda>_.
       case gf_updatedAt st of
         None \<Rightarrow> Inl LacksUpdatedAt
       | Some updatedAt \<Rightarrow>
          (if Some (sc_createdAt change) \<noteq> gf_createdAt st \<or> sc_updatedAt change < updatedAt
              \<or> sc_roundsStarted change \<noteq> gf_roundsStarted st
           then Inl (CountersChanged (sc_operation change))
           else validate_operation st change current))"

text \<open>The guarded part of \<open>applyGoalChange\<close> for a snapshot: the identities seen afterwards.\<close>

definition admit_snapshot :: "goal_fold_state \<Rightarrow> snapshot_change \<Rightarrow> goal_fold_error + string list" where
  "admit_snapshot st c =
     (if sc_operation c = OpCreate then
        (if gs_revision (sc_goal c) \<noteq> 1 \<or> gs_phase (sc_goal c) \<noteq> Active \<or> sc_roundsStarted c \<noteq> 0
            \<or> (case gf_goal st of None \<Rightarrow> False | Some g \<Rightarrow> gs_phase g \<noteq> CompletePhase)
            \<or> gs_id (sc_goal c) \<in> set (gf_seenGoalIds st)
         then Inl NotFreshGoal
         else Inr (set_add (gs_id (sc_goal c)) (gf_seenGoalIds st)))
      else case gf_goal st of
        None \<Rightarrow> Inl (NoCurrentGoal (sc_operation c))
      | Some current \<Rightarrow>
          bind_res (validateSnapshotTransition st c current) (\<lambda>_. Inr (gf_seenGoalIds st)))"

definition applyGoalChange :: "goal_fold_state \<Rightarrow> goal_change \<Rightarrow> goal_fold_error + goal_fold_state" where
  "applyGoalChange st change = (let ref = goalChangeRef change in case change of
     Tombstone cleared clearedAt \<Rightarrow>
       (case gf_goal st of
          None \<Rightarrow> Inl (NoCurrentGoal OpClear)
        | Some current \<Rightarrow> bind_res (requireNextRevision current cleared OpClear) (\<lambda>_.
            case gf_updatedAt st of
              None \<Rightarrow> Inl LacksUpdatedAt
            | Some updatedAt \<Rightarrow>
                (if clearedAt < updatedAt then Inl ClearTooEarly
                 else Inr (st\<lparr>gf_goal := None, gf_roundsStarted := 0, gf_createdAt := None, gf_updatedAt := None,
                              gf_lastRef := Some ref\<rparr>))))
   | Snapshot c \<Rightarrow> bind_res (admit_snapshot st c) (\<lambda>seen.
       Inr \<lparr>gf_goal = Some (sc_goal c), gf_roundsStarted = sc_roundsStarted c, gf_createdAt = Some (sc_createdAt c),
            gf_updatedAt = Some (sc_updatedAt c), gf_lastRef = Some ref, gf_seenGoalIds = seen\<rparr>))"

definition apply_round :: "nat \<Rightarrow> goal_fold_state \<Rightarrow> message_source \<Rightarrow> goal_fold_error + goal_fold_state" where
  "apply_round seq st source = bind_res (goalSource source) (\<lambda>src. case src of
     None \<Rightarrow> Inr st
   | Some (goalId, revision, rnd) \<Rightarrow>
      (case gf_goal st of
         None \<Rightarrow> Inl (RoundNotNext seq)
       | Some current \<Rightarrow>
          (if gs_phase current \<noteq> Active \<or> goalId \<noteq> gs_id current \<or> revision \<noteq> gs_revision current
              \<or> rnd \<noteq> gf_roundsStarted st + 1 \<or> rnd > gs_maxGoalRounds current
           then Inl (RoundNotNext seq)
           else Inr (st\<lparr>gf_roundsStarted := rnd\<rparr>))))"

definition applyGoalEvent :: "goal_fold_state \<Rightarrow> session_event \<Rightarrow> goal_fold_error + goal_fold_state" where
  "applyGoalEvent st e = (case ev_data e of
     GoalChange v \<Rightarrow> bind_res (decodeGoalChange v) (\<lambda>change. case change of
         None \<Rightarrow> Inl (InvalidKind (ev_seq e))
       | Some c \<Rightarrow> applyGoalChange st c)
   | UserMessage m \<Rightarrow> apply_round (ev_seq e) st (um_source m)
   | _ \<Rightarrow> Inr st)"

text \<open>The record that \<open>foldGoal\<close> returns is the accumulator without the identities.\<close>

record folded_goal =
  fg_goal :: "goal_snapshot option"
  fg_roundsStarted :: int
  fg_createdAt :: "int option"
  fg_updatedAt :: "int option"
  fg_lastRef :: "goal_ref option"

definition foldGoal :: "session_event list \<Rightarrow> goal_fold_error + folded_goal" where
  "foldGoal events = bind_res (fold_res applyGoalEvent emptyGoalFoldState events) (\<lambda>st.
     Inr \<lparr>fg_goal = gf_goal st, fg_roundsStarted = gf_roundsStarted st, fg_createdAt = gf_createdAt st,
          fg_updatedAt = gf_updatedAt st, fg_lastRef = gf_lastRef st\<rparr>)"

section \<open>The projection\<close>

record goal_projection =
  gp_goal :: goal_snapshot
  gp_roundsStarted :: int
  gp_createdAt :: int
  gp_updatedAt :: int

text \<open>A failure is the sequence number of the offending event with the error of the fold.\<close>

record goal_projection_state =
  ps_current :: "goal_projection option"
  ps_seenGoalIds :: "string list"
  ps_failure :: "(nat \<times> goal_fold_error) option"

definition goal_projection_init :: goal_projection_state where
  "goal_projection_init = \<lparr>ps_current = None, ps_seenGoalIds = [], ps_failure = None\<rparr>"

definition new_set :: "'a list \<Rightarrow> 'a list" where
  "new_set xs = fold set_add xs []"

definition goalFoldState :: "goal_projection_state \<Rightarrow> goal_fold_state" where
  "goalFoldState ps = \<lparr>gf_goal = map_option gp_goal (ps_current ps),
     gf_roundsStarted = (case ps_current ps of None \<Rightarrow> 0 | Some p \<Rightarrow> gp_roundsStarted p),
     gf_createdAt = map_option gp_createdAt (ps_current ps), gf_updatedAt = map_option gp_updatedAt (ps_current ps),
     gf_lastRef = None, gf_seenGoalIds = new_set (ps_seenGoalIds ps)\<rparr>"

definition goalProjectionState :: "goal_fold_state \<Rightarrow> goal_fold_error + goal_projection_state" where
  "goalProjectionState st = bind_res (case gf_goal st of
       None \<Rightarrow> Inr None
     | Some g \<Rightarrow> (case (gf_createdAt st, gf_updatedAt st) of
         (Some c, Some u) \<Rightarrow> Inr (Some \<lparr>gp_goal = g, gp_roundsStarted = gf_roundsStarted st,
                                      gp_createdAt = c, gp_updatedAt = u\<rparr>)
       | _ \<Rightarrow> Inl LacksTimestamps))
     (\<lambda>current. Inr \<lparr>ps_current = current, ps_seenGoalIds = gf_seenGoalIds st, ps_failure = None\<rparr>)"

text \<open>Goal changes, and user messages whose source is a goal.\<close>

definition goal_owned :: "session_event \<Rightarrow> bool" where
  "goal_owned e = (case ev_data e of
     GoalChange v \<Rightarrow> True
   | UserMessage m \<Rightarrow> (case um_source m of SrcGoal a b c \<Rightarrow> True | _ \<Rightarrow> False)
   | _ \<Rightarrow> False)"

definition applyGoalProjection :: "goal_projection_state \<Rightarrow> session_event \<Rightarrow> goal_projection_state" where
  "applyGoalProjection ps e =
     (if ps_failure ps \<noteq> None then ps
      else if \<not> goal_owned e then ps
      else case bind_res (applyGoalEvent (goalFoldState ps) e) goalProjectionState of
          Inr ps' \<Rightarrow> ps'
        | Inl err \<Rightarrow> ps\<lparr>ps_failure := Some (ev_seq e, err)\<rparr>)"

text \<open>The checkpoint schema: the object schema of the current goal, and the refinements.\<close>

definition current_schema :: "goal_projection \<Rightarrow> bool" where
  "current_schema p \<longleftrightarrow> gs_id (gp_goal p) \<noteq> [] \<and> safe_int (gs_revision (gp_goal p)) \<and> gs_revision (gp_goal p) > 0
     \<and> gs_objective (gp_goal p) \<noteq> [] \<and> safe_int (gs_maxGoalRounds (gp_goal p)) \<and> gs_maxGoalRounds (gp_goal p) > 0
     \<and> safe_int (gp_roundsStarted p) \<and> gp_roundsStarted p \<ge> 0"

definition seen_schema :: "string list \<Rightarrow> bool" where
  "seen_schema ids \<longleftrightarrow> list_all (\<lambda>i. i \<noteq> []) ids \<and> distinct ids"

definition rounds_within_cap :: "goal_projection_state \<Rightarrow> bool" where
  "rounds_within_cap ps = (case ps_current ps of
     None \<Rightarrow> True | Some p \<Rightarrow> gp_roundsStarted p \<le> gs_maxGoalRounds (gp_goal p))"

definition goalProjectionStateSchema :: "goal_projection_state \<Rightarrow> bool" where
  "goalProjectionStateSchema ps \<longleftrightarrow> (case ps_current ps of
       None \<Rightarrow> True
     | Some p \<Rightarrow> current_schema p \<and> gs_id (gp_goal p) \<in> set (ps_seenGoalIds ps) \<and> \<not> gp_updatedAt p < gp_createdAt p)
     \<and> seen_schema (ps_seenGoalIds ps) \<and> rounds_within_cap ps"

section \<open>What decoding accepts\<close>

definition wf_reason :: "block_reason \<Rightarrow> bool" where
  "wf_reason r \<longleftrightarrow> is_kebab (br_code r) \<and> br_message r \<noteq> [] \<and> trim (br_message r) = br_message r"

definition wf_snapshot :: "goal_snapshot \<Rightarrow> bool" where
  "wf_snapshot g \<longleftrightarrow> gs_id g \<noteq> [] \<and> gs_objective g \<noteq> [] \<and> trim (gs_objective g) = gs_objective g
     \<and> 1 \<le> gs_revision g \<and> safe_int (gs_revision g) \<and> 1 \<le> gs_maxGoalRounds g \<and> safe_int (gs_maxGoalRounds g)
     \<and> (case gs_blockedReason g of None \<Rightarrow> gs_phase g \<noteq> BlockedPhase
        | Some r \<Rightarrow> gs_phase g = BlockedPhase \<and> wf_reason r)"

fun wf_change :: "goal_change \<Rightarrow> bool" where
  "wf_change (Tombstone ref clearedAt) =
     (gr_id ref \<noteq> [] \<and> 1 \<le> gr_revision ref \<and> safe_int (gr_revision ref) \<and> 0 \<le> clearedAt \<and> safe_int clearedAt)"
| "wf_change (Snapshot c) =
     (sc_operation c \<noteq> OpClear \<and> wf_snapshot (sc_goal c) \<and> 0 \<le> sc_roundsStarted c \<and> safe_int (sc_roundsStarted c)
      \<and> 0 \<le> sc_createdAt c \<and> sc_createdAt c \<le> sc_updatedAt c \<and> safe_int (sc_createdAt c) \<and> safe_int (sc_updatedAt c))"

lemma positiveInteger_Inr: "positiveInteger v f = Inr i \<Longrightarrow> 1 \<le> i \<and> safe_int i"
  by (auto simp: positiveInteger_def is_safe_int_of split: jsval.splits if_splits)

lemma nonNegativeInteger_Inr: "nonNegativeInteger v f = Inr i \<Longrightarrow> 0 \<le> i \<and> safe_int i"
  by (auto simp: nonNegativeInteger_def is_safe_int_of split: jsval.splits if_splits)

lemma normalized_Some: "normalized v = Some s \<Longrightarrow> s \<noteq> [] \<and> trim s = s"
  by (auto simp: normalized_def split: jsval.splits if_splits)

lemma nonempty_text_Some: "nonempty_text v = Some s \<Longrightarrow> s \<noteq> []"
  by (auto simp: nonempty_text_def split: jsval.splits if_splits)

lemma decodeBlockReason_wf: "decodeBlockReason v = Inr r \<Longrightarrow> wf_reason r"
  by (auto simp: decodeBlockReason_def wf_reason_def dest: normalized_Some
      split: jsval.splits if_splits option.splits)

lemma decodeSnapshot_wf: "decodeSnapshot v = Inr g \<Longrightarrow> wf_snapshot g"
  unfolding decodeSnapshot_def
  by (auto simp: res_simps wf_snapshot_def dest: normalized_Some nonempty_text_Some positiveInteger_Inr
      decodeBlockReason_wf split: if_splits option.splits)

lemma decodeRef_wf: "decodeRef v = Inr r \<Longrightarrow> gr_id r \<noteq> [] \<and> 1 \<le> gr_revision r \<and> safe_int (gr_revision r)"
  unfolding decodeRef_def
  by (auto simp: res_simps dest: nonempty_text_Some positiveInteger_Inr split: if_splits option.splits)

lemma snapshot_operation: "named_member operation_name SNAPSHOT_OPERATIONS v = Some c \<Longrightarrow> c \<noteq> OpClear"
  by (auto simp: named_member_def SNAPSHOT_OPERATIONS_def split: jsval.splits if_splits)

lemma decodeGoalChange_wf: "decodeGoalChange v = Inr (Some c) \<Longrightarrow> wf_change c"
  unfolding decodeGoalChange_def
  by (auto simp: res_simps dest: decodeRef_wf decodeSnapshot_wf nonNegativeInteger_Inr snapshot_operation
      split: if_splits option.splits)

lemma goalSource_Inr: "goalSource s = Inr (Some (i, r, n)) \<Longrightarrow> i \<noteq> [] \<and> 1 \<le> n \<and> safe_int n"
  by (auto simp: goalSource_def is_safe_int_of dest: nonempty_text_Some
      split: message_source.splits option.splits jsval.splits if_splits)

section \<open>The invariant of the fold\<close>

definition goal_inv :: "goal_fold_state \<Rightarrow> bool" where
  "goal_inv st \<longleftrightarrow> seen_schema (gf_seenGoalIds st) \<and> (case gf_goal st of
     None \<Rightarrow> gf_roundsStarted st = 0 \<and> gf_createdAt st = None \<and> gf_updatedAt st = None
   | Some g \<Rightarrow> wf_snapshot g \<and> gs_id g \<in> set (gf_seenGoalIds st) \<and> 0 \<le> gf_roundsStarted st
       \<and> safe_int (gf_roundsStarted st) \<and> (\<exists>c u. gf_createdAt st = Some c \<and> gf_updatedAt st = Some u \<and> 0 \<le> c \<and> c \<le> u
           \<and> safe_int c \<and> safe_int u))"

text \<open>What an accepted change does, operation by operation.\<close>

definition retains :: "goal_fold_state \<Rightarrow> goal_snapshot \<Rightarrow> snapshot_change \<Rightarrow> bool" where
  "retains st g c \<longleftrightarrow> gs_id (sc_goal c) = gs_id g \<and> gs_revision (sc_goal c) = gs_revision g + 1
     \<and> gf_createdAt st = Some (sc_createdAt c) \<and> (\<exists>u. gf_updatedAt st = Some u \<and> u \<le> sc_updatedAt c)
     \<and> sc_roundsStarted c = gf_roundsStarted st"

lemma transition_retains:
  "validateSnapshotTransition st c g = Inr x \<Longrightarrow> retains st g c"
  by (auto simp: validateSnapshotTransition_def requireNextRevision_def snapshot_ref_def retains_def res_simps
      split: if_splits option.splits)

lemma admit_snapshot_cases:
  assumes "admit_snapshot st c = Inr seen"
  obtains (create) "sc_operation c = OpCreate" "gs_revision (sc_goal c) = 1" "gs_phase (sc_goal c) = Active"
      "sc_roundsStarted c = 0" "gs_id (sc_goal c) \<notin> set (gf_seenGoalIds st)"
      "seen = gf_seenGoalIds st @ [gs_id (sc_goal c)]"
  | (advance) g where "sc_operation c \<noteq> OpCreate" "gf_goal st = Some g" "retains st g c"
      "validateSnapshotTransition st c g = Inr ()" "seen = gf_seenGoalIds st"
proof (cases "sc_operation c = OpCreate")
  case True
  with assms show ?thesis by (auto simp: admit_snapshot_def set_add_def split: if_splits intro!: create)
next
  case False
  with assms obtain g x where "gf_goal st = Some g" "validateSnapshotTransition st c g = Inr x" "seen = gf_seenGoalIds st"
    by (auto simp: admit_snapshot_def res_simps split: option.splits)
  with False transition_retains show ?thesis by (auto intro!: advance)
qed

lemma applyGoalChange_snapshot:
  "applyGoalChange st (Snapshot c) = Inr st' \<longleftrightarrow>
     (\<exists>seen. admit_snapshot st c = Inr seen \<and> st' =
       \<lparr>gf_goal = Some (sc_goal c), gf_roundsStarted = sc_roundsStarted c, gf_createdAt = Some (sc_createdAt c),
        gf_updatedAt = Some (sc_updatedAt c), gf_lastRef = Some (snapshot_ref (sc_goal c)), gf_seenGoalIds = seen\<rparr>)"
  by (auto simp: applyGoalChange_def res_simps)

lemma applyGoalChange_tombstone:
  "applyGoalChange st (Tombstone ref t) = Inr st' \<Longrightarrow>
     \<exists>g. gf_goal st = Some g \<and> gr_id ref = gs_id g \<and> gr_revision ref = gs_revision g + 1
       \<and> st' = st\<lparr>gf_goal := None, gf_roundsStarted := 0, gf_createdAt := None, gf_updatedAt := None,
                  gf_lastRef := Some ref\<rparr>"
  by (auto simp: applyGoalChange_def requireNextRevision_def res_simps split: option.splits if_splits)

lemma seen_schema_snoc: "seen_schema ids \<Longrightarrow> i \<noteq> [] \<Longrightarrow> i \<notin> set ids \<Longrightarrow> seen_schema (ids @ [i])"
  by (auto simp: seen_schema_def)

lemma applyGoalChange_inv:
  assumes inv: "goal_inv st" and wf: "wf_change c" and step: "applyGoalChange st c = Inr st'"
  shows "goal_inv st'"
proof (cases c)
  case (Tombstone ref t)
  with inv applyGoalChange_tombstone [of st ref t st'] step show ?thesis by (auto simp: goal_inv_def)
next
  case (Snapshot d)
  with step obtain seen where seen: "admit_snapshot st d = Inr seen" and st': "st' =
       \<lparr>gf_goal = Some (sc_goal d), gf_roundsStarted = sc_roundsStarted d, gf_createdAt = Some (sc_createdAt d),
        gf_updatedAt = Some (sc_updatedAt d), gf_lastRef = Some (snapshot_ref (sc_goal d)), gf_seenGoalIds = seen\<rparr>"
    by (auto simp: applyGoalChange_snapshot)
  have d: "wf_snapshot (sc_goal d)" "0 \<le> sc_roundsStarted d" "safe_int (sc_roundsStarted d)"
    "0 \<le> sc_createdAt d" "sc_createdAt d \<le> sc_updatedAt d" "safe_int (sc_createdAt d)" "safe_int (sc_updatedAt d)"
    using wf Snapshot by simp_all
  then have "gs_id (sc_goal d) \<noteq> []" by (simp add: wf_snapshot_def)
  with seen have "seen_schema seen \<and> gs_id (sc_goal d) \<in> set seen"
    by (cases rule: admit_snapshot_cases) (use inv in \<open>auto simp: goal_inv_def retains_def intro: seen_schema_snoc\<close>)
  with d st' show ?thesis by (simp add: goal_inv_def)
qed

lemma apply_round_cases:
  assumes "apply_round k st src = Inr st'"
  obtains (none) "goalSource src = Inr None" "st' = st"
  | (round) g n where "goalSource src = Inr (Some (gs_id g, gs_revision g, n))" "gf_goal st = Some g"
      "gs_phase g = Active" "n = gf_roundsStarted st + 1" "n \<le> gs_maxGoalRounds g" "safe_int n"
      "st' = st\<lparr>gf_roundsStarted := n\<rparr>"
proof -
  from assms obtain src' where src': "goalSource src = Inr src'" by (auto simp: apply_round_def res_simps)
  show ?thesis
  proof (cases src')
    case None
    with src' assms show ?thesis by (auto simp: apply_round_def intro!: none)
  next
    case (Some t)
    obtain i r n where t: "t = (i, r, n)" by (cases t) auto
    note src' [unfolded Some t]
    moreover from goalSource_Inr [OF this] have "safe_int n" by simp
    ultimately show ?thesis using assms
      by (auto simp: apply_round_def res_simps split: option.splits if_splits intro!: round)
  qed
qed

lemma apply_round_inv: "goal_inv st \<Longrightarrow> apply_round k st src = Inr st' \<Longrightarrow> goal_inv st'"
  by (erule apply_round_cases) (auto simp: goal_inv_def)

lemma applyGoalEvent_Inr:
  "applyGoalEvent st e = Inr st' \<Longrightarrow>
     (\<exists>v c. ev_data e = GoalChange v \<and> decodeGoalChange v = Inr (Some c) \<and> applyGoalChange st c = Inr st')
   \<or> (\<exists>m. ev_data e = UserMessage m \<and> apply_round (ev_seq e) st (um_source m) = Inr st')
   \<or> (\<not> goal_owned e \<and> st' = st)"
  by (auto simp: applyGoalEvent_def goal_owned_def res_simps split: event_data.splits option.splits)

lemma applyGoalEvent_inv:
  assumes "goal_inv st" "applyGoalEvent st e = Inr st'"
  shows "goal_inv st'"
  using applyGoalEvent_Inr [OF assms(2)] assms(1) applyGoalChange_inv apply_round_inv decodeGoalChange_wf by blast

lemma applyGoalEvent_other: "\<not> goal_owned e \<Longrightarrow> applyGoalEvent st e = Inr st"
  by (auto simp: applyGoalEvent_def goal_owned_def apply_round_def goalSource_def
      split: event_data.splits message_source.splits)

interpretation goal_fold: event_fold emptyGoalFoldState applyGoalEvent goal_owned goal_inv
proof unfold_locales
  show "goal_inv emptyGoalFoldState" by (simp add: goal_inv_def emptyGoalFoldState_def seen_schema_def)
qed (auto intro: applyGoalEvent_inv applyGoalEvent_other)

section \<open>The projection follows the fold\<close>

definition drop_ref :: "goal_fold_state \<Rightarrow> goal_fold_state" where
  "drop_ref st = st\<lparr>gf_lastRef := None\<rparr>"

lemma new_set_id:
  assumes "distinct xs"
  shows "new_set xs = xs"
proof -
  have "fold set_add xs ys = ys @ xs" if "distinct (ys @ xs)" for ys
    using that by (induction xs arbitrary: ys) (simp_all add: set_add_def)
  from this [of "[]"] assms show ?thesis by (simp add: new_set_def)
qed

lemma projection_of:
  assumes "goal_inv st"
  obtains ps where "goalProjectionState st = Inr ps" "goalFoldState ps = drop_ref st" "ps_failure ps = None"
proof (cases "gf_goal st")
  case None
  with assms show ?thesis
    by (cases st) (auto simp: goal_inv_def goalProjectionState_def goalFoldState_def drop_ref_def seen_schema_def
        new_set_id intro!: that)
next
  case (Some g)
  with assms obtain c u where "gf_createdAt st = Some c" "gf_updatedAt st = Some u" "seen_schema (gf_seenGoalIds st)"
    by (auto simp: goal_inv_def)
  with Some show ?thesis
    by (cases st) (auto simp: goalProjectionState_def goalFoldState_def drop_ref_def seen_schema_def
        new_set_id intro!: that)
qed

text \<open>No step reads the latest reference.\<close>

lemma drop_ref_sel [simp]:
  "gf_goal (drop_ref st) = gf_goal st" "gf_roundsStarted (drop_ref st) = gf_roundsStarted st"
  "gf_createdAt (drop_ref st) = gf_createdAt st" "gf_updatedAt (drop_ref st) = gf_updatedAt st"
  "gf_seenGoalIds (drop_ref st) = gf_seenGoalIds st"
  by (simp_all add: drop_ref_def)

lemma admit_drop_ref: "admit_snapshot (drop_ref st) c = admit_snapshot st c"
  unfolding admit_snapshot_def validateSnapshotTransition_def validate_operation_def drop_ref_sel ..

lemma drop_ref_idem [simp]: "drop_ref (drop_ref st) = drop_ref st"
  by (simp add: drop_ref_def)

lemma applyGoalEvent_drop_ref:
  "map_sum id drop_ref (applyGoalEvent (drop_ref st) e) = map_sum id drop_ref (applyGoalEvent st e)"
proof -
  have clear: "map_sum id drop_ref (applyGoalChange (drop_ref st) (Tombstone r t)) =
      map_sum id drop_ref (applyGoalChange st (Tombstone r t))" for r t
    by (auto simp: applyGoalChange_def bind_res_def drop_ref_def split: option.split sum.split)
  have "applyGoalChange (drop_ref st) (Snapshot c) = applyGoalChange st (Snapshot c)" for c
    by (simp add: applyGoalChange_def admit_drop_ref)
  with clear have ch: "map_sum id drop_ref (applyGoalChange (drop_ref st) c) = map_sum id drop_ref (applyGoalChange st c)" for c
    by (cases c) simp_all
  have rnd: "map_sum id drop_ref (apply_round k (drop_ref st) src) = map_sum id drop_ref (apply_round k st src)" for k src
    by (cases "goalSource src") (auto simp: apply_round_def drop_ref_def split: option.split)
  show ?thesis
  proof (cases "ev_data e")
    case (GoalChange v)
    then show ?thesis using ch by (cases "decodeGoalChange v") (auto simp: applyGoalEvent_def split: option.split)
  qed (simp_all add: applyGoalEvent_def rnd)
qed

lemma projection_drop_ref: "goalProjectionState (drop_ref st) = goalProjectionState st"
  unfolding goalProjectionState_def drop_ref_sel ..

lemma projection_step:
  assumes inv: "goal_inv st" and ps: "goalProjectionState st = Inr ps"
  shows "case applyGoalEvent st e of
      Inr st' \<Rightarrow> goalProjectionState st' = Inr (applyGoalProjection ps e)
    | Inl err \<Rightarrow> applyGoalProjection ps e = ps\<lparr>ps_failure := Some (ev_seq e, err)\<rparr>"
proof -
  from projection_of [OF inv] ps have fs: "goalFoldState ps = drop_ref st" and ok: "ps_failure ps = None" by auto
  show ?thesis
  proof (cases "goal_owned e")
    case False
    with ok ps show ?thesis by (simp add: applyGoalEvent_other applyGoalProjection_def)
  next
    case True
    note eq = applyGoalEvent_drop_ref [of st e]
    show ?thesis
    proof (cases "applyGoalEvent st e")
      case (Inl err)
      with eq have "applyGoalEvent (drop_ref st) e = Inl err" by (cases "applyGoalEvent (drop_ref st) e") simp_all
      with Inl True ok fs show ?thesis by (simp add: applyGoalProjection_def)
    next
      case (Inr st')
      with eq obtain st'' where st'': "applyGoalEvent (drop_ref st) e = Inr st''" "drop_ref st'' = drop_ref st'"
        by (cases "applyGoalEvent (drop_ref st) e") auto
      obtain ps' where "goalProjectionState st' = Inr ps'"
        using projection_of [OF applyGoalEvent_inv [OF inv Inr]] by auto
      then have "goalProjectionState st'' = Inr ps'"
        using projection_drop_ref [of st'] projection_drop_ref [of st''] st''(2) by simp
      with \<open>goalProjectionState st' = Inr ps'\<close> st''(1) True ok fs Inr show ?thesis
        by (simp add: applyGoalProjection_def)
    qed
  qed
qed

lemma projection_latched: "ps_failure ps \<noteq> None \<Longrightarrow> foldl applyGoalProjection ps es = ps"
  by (induction es) (simp_all add: applyGoalProjection_def)

text \<open>The fold rejects some event of the log, and the projection stands at the state before it.\<close>

definition latched_at :: "session_event list \<Rightarrow> goal_fold_error \<Rightarrow> goal_projection_state \<Rightarrow> bool" where
  "latched_at es err final \<longleftrightarrow> (\<exists>pre e post st ps. es = pre @ e # post
     \<and> fold_res applyGoalEvent emptyGoalFoldState pre = Inr st \<and> goalProjectionState st = Inr ps
     \<and> applyGoalEvent st e = Inl err \<and> final = ps\<lparr>ps_failure := Some (ev_seq e, err)\<rparr>)"

lemma latched_atI:
  "es = pre @ e # post \<Longrightarrow> fold_res applyGoalEvent emptyGoalFoldState pre = Inr st \<Longrightarrow>
     goalProjectionState st = Inr ps \<Longrightarrow> applyGoalEvent st e = Inl err \<Longrightarrow>
     final = ps\<lparr>ps_failure := Some (ev_seq e, err)\<rparr> \<Longrightarrow> latched_at es err final"
  unfolding latched_at_def by blast

lemma latched_at_mono:
  assumes "latched_at es err ps"
  shows "latched_at (es @ es') err ps \<and> ps_failure ps \<noteq> None"
proof -
  from assms obtain pre e post st ps0 where at: "es = pre @ e # post"
    "fold_res applyGoalEvent emptyGoalFoldState pre = Inr st" "goalProjectionState st = Inr ps0"
    "applyGoalEvent st e = Inl err" "ps = ps0\<lparr>ps_failure := Some (ev_seq e, err)\<rparr>"
    unfolding latched_at_def by blast
  then have "es @ es' = pre @ e # (post @ es')" by simp
  from latched_atI [OF this at(2-5)] at(5) show ?thesis by simp
qed

lemma projection_run:
  "case fold_res applyGoalEvent emptyGoalFoldState es of
     Inr st \<Rightarrow> goalProjectionState st = Inr (foldl applyGoalProjection goal_projection_init es)
   | Inl err \<Rightarrow> latched_at es err (foldl applyGoalProjection goal_projection_init es)"
proof (induction es rule: rev_induct)
  case Nil
  show ?case by (simp add: goalProjectionState_def emptyGoalFoldState_def goal_projection_init_def)
next
  case (snoc e es)
  show ?case
  proof (cases "fold_res applyGoalEvent emptyGoalFoldState es")
    case (Inl err)
    with snoc.IH have "latched_at es err (foldl applyGoalProjection goal_projection_init es)" by simp
    from latched_at_mono [OF this, of "[e]"] Inl show ?thesis by (auto simp: fold_res_snoc applyGoalProjection_def)
  next
    case (Inr st)
    with snoc.IH have ps: "goalProjectionState st = Inr (foldl applyGoalProjection goal_projection_init es)" by simp
    note step = projection_step [OF goal_fold.replay_from_init [OF Inr] ps, of e]
    show ?thesis
    proof (cases "applyGoalEvent st e")
      case (Inl err)
      with step have "applyGoalProjection (foldl applyGoalProjection goal_projection_init es) e =
        (foldl applyGoalProjection goal_projection_init es)\<lparr>ps_failure := Some (ev_seq e, err)\<rparr>" by simp
      with Inl Inr ps have "latched_at (es @ [e]) err (foldl applyGoalProjection goal_projection_init (es @ [e]))"
        by (auto intro: latched_atI [where post = "[]"])
      with Inl Inr show ?thesis by (simp add: fold_res_snoc)
    qed (use step Inr in \<open>simp add: fold_res_snoc\<close>)
  qed
qed

text \<open>C24: The checkpointed projection, which never throws, follows the strict fold, which does: while
  the log folds, the projection holds exactly the folded goal with its counters and no failure; at the
  first event that the fold rejects it keeps the last valid state, records that event's number and error,
  and changes no more.\<close>

theorem goal_projection_refines_fold:
  "case fold_res applyGoalEvent emptyGoalFoldState es of
     Inr st \<Rightarrow> goalProjectionState st = Inr (foldl applyGoalProjection goal_projection_init es)
   | Inl err \<Rightarrow> (\<exists>pre e post st ps. es = pre @ e # post
       \<and> fold_res applyGoalEvent emptyGoalFoldState pre = Inr st \<and> goalProjectionState st = Inr ps
       \<and> applyGoalEvent st e = Inl err
       \<and> foldl applyGoalProjection goal_projection_init es = ps\<lparr>ps_failure := Some (ev_seq e, err)\<rparr>)"
  using projection_run [of es] unfolding latched_at_def .

section \<open>Payloads\<close>

text \<open>The object literals that the service appends.\<close>

definition snapshot_value :: "goal_snapshot \<Rightarrow> jsval" where
  "snapshot_value g = JObj ([(''id'', JStr (gs_id g)), (''revision'', JNum (js_int (gs_revision g))),
     (''objective'', JStr (gs_objective g)), (''phase'', JStr (phase_name (gs_phase g))),
     (''maxGoalRounds'', JNum (js_int (gs_maxGoalRounds g)))]
     @ (case gs_blockedReason g of None \<Rightarrow> []
        | Some r \<Rightarrow> [(''blockedReason'', JObj [(''code'', JStr (br_code r)), (''message'', JStr (br_message r))])]))"

fun change_value :: "goal_change \<Rightarrow> jsval" where
  "change_value (Snapshot c) = JObj [(''kind'', JStr ''goal/change''), (''version'', JNum (js_int GOAL_CHANGE_VERSION)),
     (''operation'', JStr (operation_name (sc_operation c))), (''goal'', snapshot_value (sc_goal c)),
     (''roundsStarted'', JNum (js_int (sc_roundsStarted c))), (''createdAt'', JNum (js_int (sc_createdAt c))),
     (''updatedAt'', JNum (js_int (sc_updatedAt c)))]"
| "change_value (Tombstone ref clearedAt) = JObj [(''kind'', JStr ''goal/change''),
     (''version'', JNum (js_int GOAL_CHANGE_VERSION)), (''operation'', JStr ''clear''),
     (''cleared'', JObj [(''id'', JStr (gr_id ref)), (''revision'', JNum (js_int (gr_revision ref)))]),
     (''clearedAt'', JNum (js_int clearedAt))]"

lemma positiveInteger_js [simp]: "1 \<le> i \<Longrightarrow> safe_int i \<Longrightarrow> positiveInteger (JNum (js_int i)) f = Inr i"
  by (simp add: positiveInteger_def)

lemma nonNegativeInteger_js [simp]: "0 \<le> i \<Longrightarrow> safe_int i \<Longrightarrow> nonNegativeInteger (JNum (js_int i)) f = Inr i"
  by (simp add: nonNegativeInteger_def)

lemma named_phase: "named_member phase_name PHASES (JStr (phase_name p)) = Some p"
  by (cases p) (simp_all add: named_member_def PHASES_def)

lemma named_operation: "c \<noteq> OpClear \<Longrightarrow> named_member operation_name SNAPSHOT_OPERATIONS (JStr (operation_name c)) = Some c"
  by (cases c) (simp_all add: named_member_def SNAPSHOT_OPERATIONS_def)

lemma sorted_keys_of: "sorted_keys (JObj fs) = join_comma (sort (map fst fs))"
  by (simp add: sorted_keys_def)

lemma snapshot_keys_value:
  "(gs_blockedReason g = None \<longleftrightarrow> gs_phase g \<noteq> BlockedPhase) \<Longrightarrow>
     sorted_keys (snapshot_value g) = snapshot_keys (gs_phase g)"
proof -
  have a: "join_comma (sort [''id'', ''revision'', ''objective'', ''phase'', ''maxGoalRounds'']) = snapshot_keys Active"
    and b: "join_comma (sort [''id'', ''revision'', ''objective'', ''phase'', ''maxGoalRounds'', ''blockedReason''])
      = snapshot_keys BlockedPhase" by code_simp+
  assume "gs_blockedReason g = None \<longleftrightarrow> gs_phase g \<noteq> BlockedPhase"
  then show ?thesis
    by (cases "gs_phase g = BlockedPhase")
      (use a b in \<open>auto simp: snapshot_value_def sorted_keys_of snapshot_keys_def split: option.split\<close>)
qed

lemma decode_reason_value:
  assumes "wf_reason r"
  shows "decodeBlockReason (JObj [(''code'', JStr (br_code r)), (''message'', JStr (br_message r))]) = Inr r"
proof -
  have "join_comma (sort [''code'', ''message'']) = ''code,message''" by code_simp
  with assms show ?thesis by (simp add: decodeBlockReason_def sorted_keys_of wf_reason_def normalized_def)
qed

lemma decode_snapshot_value:
  assumes "wf_snapshot g"
  shows "decodeSnapshot (snapshot_value g) = Inr g"
proof -
  from assms have keys: "sorted_keys (snapshot_value g) = snapshot_keys (gs_phase g)"
    by (intro snapshot_keys_value) (auto simp: wf_snapshot_def split: option.splits)
  have rec: "isRecord (snapshot_value g)"
    and get: "get (snapshot_value g) ''id'' = JStr (gs_id g)"
      "get (snapshot_value g) ''objective'' = JStr (gs_objective g)"
      "get (snapshot_value g) ''phase'' = JStr (phase_name (gs_phase g))"
      "get (snapshot_value g) ''revision'' = JNum (js_int (gs_revision g))"
      "get (snapshot_value g) ''maxGoalRounds'' = JNum (js_int (gs_maxGoalRounds g))"
      "gs_blockedReason g = Some r \<Longrightarrow> get (snapshot_value g) ''blockedReason'' =
        JObj [(''code'', JStr (br_code r)), (''message'', JStr (br_message r))]" for r
    by (simp_all add: snapshot_value_def)
  from assms show ?thesis
    by (cases "gs_blockedReason g")
      (auto simp: decodeSnapshot_def rec get keys nonempty_text_def normalized_def named_phase
        named_phase [of BlockedPhase, simplified] wf_snapshot_def decode_reason_value)
qed

lemma decode_change_value:
  assumes "wf_change c"
  shows "decodeGoalChange (change_value c) = Inr (Some c)"
proof (cases c)
  case (Snapshot d)
  have "join_comma (sort [''kind'', ''version'', ''operation'', ''goal'', ''roundsStarted'', ''createdAt'', ''updatedAt''])
      = ''createdAt,goal,kind,operation,roundsStarted,updatedAt,version''" by code_simp
  moreover have "sc_operation d \<noteq> OpClear" using assms Snapshot by simp
  then have "operation_name (sc_operation d) \<noteq> ''clear''" by (cases "sc_operation d") simp_all
  ultimately show ?thesis using assms Snapshot
    by (simp add: decodeGoalChange_def sorted_keys_of is_number_def named_operation decode_snapshot_value)
next
  case (Tombstone ref t)
  have "join_comma (sort [''kind'', ''version'', ''operation'', ''cleared'', ''clearedAt''])
      = ''cleared,clearedAt,kind,operation,version''" "join_comma (sort [''id'', ''revision'']) = ''id,revision''"
    by code_simp+
  with assms Tombstone show ?thesis
    by (simp add: decodeGoalChange_def decodeRef_def sorted_keys_of is_number_def nonempty_text_def)
qed


section \<open>The checkpoint schema\<close>

text \<open>An edit whose new cap is below the rounds already started.\<close>

definition cap_lowering :: "session_event \<Rightarrow> bool" where
  "cap_lowering e = (case ev_data e of
     GoalChange v \<Rightarrow> (case decodeGoalChange v of
         Inr (Some (Snapshot c)) \<Rightarrow> sc_operation c = OpEdit \<and> gs_maxGoalRounds (sc_goal c) < sc_roundsStarted c
       | _ \<Rightarrow> False)
   | _ \<Rightarrow> False)"

definition within_cap :: "goal_fold_state \<Rightarrow> bool" where
  "within_cap st = (case gf_goal st of None \<Rightarrow> True | Some g \<Rightarrow> gf_roundsStarted st \<le> gs_maxGoalRounds g)"

lemma transition_keeps_cap:
  "validateSnapshotTransition st c g = Inr x \<Longrightarrow> sc_operation c \<noteq> OpEdit \<Longrightarrow>
     gs_maxGoalRounds (sc_goal c) = gs_maxGoalRounds g"
  by (cases "sc_operation c") (auto simp: validateSnapshotTransition_def validate_operation_def Let_def res_simps
      requireSameDefinition_def split: if_splits option.splits)

lemma change_within_cap:
  assumes "wf_change c" "within_cap st" "applyGoalChange st c = Inr st'"
    and "\<And>d. c = Snapshot d \<Longrightarrow> sc_operation d = OpEdit \<Longrightarrow> sc_roundsStarted d \<le> gs_maxGoalRounds (sc_goal d)"
  shows "within_cap st'"
proof (cases c)
  case (Tombstone ref t)
  with applyGoalChange_tombstone [of st ref t st'] assms(3) show ?thesis by (auto simp: within_cap_def)
next
  case (Snapshot d)
  with assms(3) obtain seen where seen: "admit_snapshot st d = Inr seen"
    and st': "gf_goal st' = Some (sc_goal d)" "gf_roundsStarted st' = sc_roundsStarted d"
    by (auto simp: applyGoalChange_snapshot)
  have pos: "1 \<le> gs_maxGoalRounds (sc_goal d)" using assms(1) Snapshot by (simp add: wf_snapshot_def)
  from seen have "sc_roundsStarted d \<le> gs_maxGoalRounds (sc_goal d)"
  proof (cases rule: admit_snapshot_cases)
    case (advance g)
    with assms(2) assms(4) [OF Snapshot] transition_keeps_cap [OF advance(4)] show ?thesis
      by (cases "sc_operation d = OpEdit") (auto simp: within_cap_def retains_def)
  qed (use pos in simp)
  with st' show ?thesis by (simp add: within_cap_def)
qed

lemma event_within_cap:
  assumes "within_cap st" "applyGoalEvent st e = Inr st'" "\<not> cap_lowering e"
  shows "within_cap st'"
  using applyGoalEvent_Inr [OF assms(2)]
proof (elim disjE exE conjE)
  fix v c assume c: "ev_data e = GoalChange v" "decodeGoalChange v = Inr (Some c)" "applyGoalChange st c = Inr st'"
  with assms(3) show ?thesis
    by (intro change_within_cap [OF decodeGoalChange_wf [OF c(2)] assms(1) c(3)]) (auto simp: cap_lowering_def)
next
  fix m assume "apply_round (ev_seq e) st (um_source m) = Inr st'"
  then show ?thesis by (cases rule: apply_round_cases) (use assms(1) in \<open>auto simp: within_cap_def\<close>)
qed (use assms(1) in simp)

lemma fold_within_cap:
  "fold_res applyGoalEvent emptyGoalFoldState es = Inr st \<Longrightarrow> within_cap st \<or> list_ex cap_lowering es"
proof (induction es arbitrary: st rule: rev_induct)
  case Nil
  then show ?case by (auto simp: within_cap_def emptyGoalFoldState_def)
next
  case (snoc e es)
  then obtain u where "fold_res applyGoalEvent emptyGoalFoldState es = Inr u" "applyGoalEvent u e = Inr st"
    by (auto simp: fold_res_snoc res_simps)
  with snoc.IH event_within_cap show ?case by fastforce
qed

lemma projection_schema:
  assumes "goal_inv st" "goalProjectionState st = Inr ps"
  shows "goalProjectionStateSchema (ps\<lparr>ps_failure := f\<rparr>) \<longleftrightarrow> within_cap st"
proof (cases "gf_goal st")
  case None
  with assms show ?thesis
    by (auto simp: goal_inv_def goalProjectionState_def goalProjectionStateSchema_def rounds_within_cap_def within_cap_def)
next
  case (Some g)
  with assms(1) obtain c u where "gf_createdAt st = Some c" "gf_updatedAt st = Some u" "c \<le> u"
    "wf_snapshot g" "gs_id g \<in> set (gf_seenGoalIds st)" "0 \<le> gf_roundsStarted st" "safe_int (gf_roundsStarted st)"
    "seen_schema (gf_seenGoalIds st)" by (auto simp: goal_inv_def)
  with Some assms(2) show ?thesis
    by (auto simp: goalProjectionState_def goalProjectionStateSchema_def rounds_within_cap_def within_cap_def
        current_schema_def wf_snapshot_def)
qed

text \<open>On every log, valid or not, the goal projection satisfies the schema that its checkpoint is
  parsed with, unless the log holds an edit that puts the round cap below the rounds already started.\<close>

lemma goal_projection_schema:
  "goalProjectionStateSchema (foldl applyGoalProjection goal_projection_init es) \<or> list_ex cap_lowering es"
proof (cases "fold_res applyGoalEvent emptyGoalFoldState es")
  case (Inr st)
  with projection_run [of es] have "goalProjectionState st = Inr (foldl applyGoalProjection goal_projection_init es)" by simp
  from projection_schema [OF goal_fold.replay_from_init [OF Inr] this, of "ps_failure (foldl applyGoalProjection goal_projection_init es)"]
    fold_within_cap [OF Inr]
  show ?thesis by simp
next
  case (Inl err)
  with projection_run [of es] obtain pre e post st ps where at: "es = pre @ e # post"
    "fold_res applyGoalEvent emptyGoalFoldState pre = Inr st" "goalProjectionState st = Inr ps"
    "foldl applyGoalProjection goal_projection_init es = ps\<lparr>ps_failure := Some (ev_seq e, err)\<rparr>"
    by (auto simp: latched_at_def)
  from projection_schema [OF goal_fold.replay_from_init [OF at(2)] at(3)] fold_within_cap [OF at(2)] at(1,4)
  show ?thesis by auto
qed

section \<open>The history of a goal\<close>

text \<open>The references of the changes in the log, and the rounds admitted for one goal.\<close>

fun change_refs :: "session_event list \<Rightarrow> goal_ref list" where
  "change_refs [] = []"
| "change_refs (e # es) = (case ev_data e of
     GoalChange v \<Rightarrow> (case decodeGoalChange v of
         Inr (Some c) \<Rightarrow> goalChangeRef c # change_refs es | _ \<Rightarrow> change_refs es)
   | _ \<Rightarrow> change_refs es)"

fun goal_rounds :: "string \<Rightarrow> session_event list \<Rightarrow> int list" where
  "goal_rounds i [] = []"
| "goal_rounds i (e # es) = (case ev_data e of
     UserMessage m \<Rightarrow> (case goalSource (um_source m) of
         Inr (Some (goalId, revision, n)) \<Rightarrow> (if goalId = i then n # goal_rounds i es else goal_rounds i es)
       | _ \<Rightarrow> goal_rounds i es)
   | _ \<Rightarrow> goal_rounds i es)"

definition revisions :: "string \<Rightarrow> session_event list \<Rightarrow> int list" where
  "revisions i es = map gr_revision (filter (\<lambda>r. gr_id r = i) (change_refs es))"

lemma goal_rounds_append: "goal_rounds i (xs @ ys) = goal_rounds i xs @ goal_rounds i ys"
  by (induction xs) (auto split: event_data.split sum.split option.split)

lemma revisions_append: "revisions i (xs @ ys) = revisions i xs @ revisions i ys"
proof -
  have "change_refs (xs @ ys) = change_refs xs @ change_refs ys"
    by (induction xs) (auto split: event_data.split sum.split option.split)
  then show ?thesis by (simp add: revisions_def)
qed

text \<open>For every identity both lists count from one; for the current goal they end at its revision and
  its rounds, and an identity never seen has none.\<close>

definition history :: "session_event list \<Rightarrow> goal_fold_state \<Rightarrow> bool" where
  "history es st \<longleftrightarrow> (\<forall>i. \<exists>n m. revisions i es = [1..n] \<and> goal_rounds i es = [1..m] \<and> 0 \<le> n \<and> 0 \<le> m
     \<and> (i \<notin> set (gf_seenGoalIds st) \<longrightarrow> n = 0 \<and> m = 0)
     \<and> (\<forall>g. gf_goal st = Some g \<and> gs_id g = i \<longrightarrow> n = gs_revision g \<and> m = gf_roundsStarted st))"

lemma historyE:
  assumes "history es st"
  obtains n m where "revisions i es = [1..n]" "goal_rounds i es = [1..m]" "0 \<le> n" "0 \<le> m"
    "i \<notin> set (gf_seenGoalIds st) \<Longrightarrow> n = 0 \<and> m = 0"
    "\<And>g. gf_goal st = Some g \<Longrightarrow> gs_id g = i \<Longrightarrow> n = gs_revision g \<and> m = gf_roundsStarted st"
  using assms unfolding history_def by blast

lemma upto_snoc: "0 \<le> n \<Longrightarrow> [1..n] @ [n + 1] = [1..n + 1 :: int]"
  using upto_rec2 [of 1 "n + 1"] by simp

lemma one_change:
  assumes "ev_data e = GoalChange v" "decodeGoalChange v = Inr (Some c)"
  shows "revisions i [e] = (if gr_id (goalChangeRef c) = i then [gr_revision (goalChangeRef c)] else [])"
    "goal_rounds i [e] = []"
  using assms by (simp_all add: revisions_def)

lemma history_change:
  assumes hist: "history es st" and ev: "ev_data e = GoalChange v" "decodeGoalChange v = Inr (Some c)"
    and inv: "goal_inv st" and step: "applyGoalChange st c = Inr st'"
  shows "history (es @ [e]) st'"
  unfolding history_def
proof
  fix i
  from hist obtain n m where nm: "revisions i es = [1..n]" "goal_rounds i es = [1..m]" "0 \<le> n" "0 \<le> m"
    "i \<notin> set (gf_seenGoalIds st) \<Longrightarrow> n = 0 \<and> m = 0"
    "\<And>g. gf_goal st = Some g \<Longrightarrow> gs_id g = i \<Longrightarrow> n = gs_revision g \<and> m = gf_roundsStarted st"
    by (rule historyE) blast
  note next_lists = revisions_append [of i es "[e]"] goal_rounds_append [of i es "[e]"] one_change [OF ev, of i] nm(1,2)
  show "\<exists>n m. revisions i (es @ [e]) = [1..n] \<and> goal_rounds i (es @ [e]) = [1..m] \<and> 0 \<le> n \<and> 0 \<le> m
     \<and> (i \<notin> set (gf_seenGoalIds st') \<longrightarrow> n = 0 \<and> m = 0)
     \<and> (\<forall>g. gf_goal st' = Some g \<and> gs_id g = i \<longrightarrow> n = gs_revision g \<and> m = gf_roundsStarted st')"
  proof (cases c)
    case (Tombstone ref t)
    obtain g where g: "gf_goal st = Some g" "gr_id ref = gs_id g" "gr_revision ref = gs_revision g + 1"
      and st': "gf_goal st' = None" "gf_seenGoalIds st' = gf_seenGoalIds st"
      using applyGoalChange_tombstone step [unfolded Tombstone] by force
    have "gs_id g \<in> set (gf_seenGoalIds st)" using inv g by (simp add: goal_inv_def)
    then show ?thesis
      using next_lists nm(3-) g st' Tombstone upto_snoc [OF nm(3)]
      by (intro exI [of _ "if gs_id g = i then n + 1 else n"] exI [of _ m]) auto
  next
    case (Snapshot d)
    with step obtain seen where seen: "admit_snapshot st d = Inr seen" and st': "gf_goal st' = Some (sc_goal d)"
      "gf_roundsStarted st' = sc_roundsStarted d" "gf_seenGoalIds st' = seen"
      by (auto simp: applyGoalChange_snapshot)
    have ref: "goalChangeRef c = snapshot_ref (sc_goal d)" using Snapshot by simp
    from seen show ?thesis
    proof (cases rule: admit_snapshot_cases)
      case create
      then show ?thesis
        using next_lists nm(3-5) st' upto_snoc [OF nm(3)]
        by (intro exI [of _ "if gs_id (sc_goal d) = i then n + 1 else n"] exI [of _ m])
          (auto simp: ref snapshot_ref_def)
    next
      case (advance g)
      have "gs_id g \<in> set (gf_seenGoalIds st)" using inv advance by (simp add: goal_inv_def)
      with advance show ?thesis
        using next_lists nm(3-) st' upto_snoc [OF nm(3)]
        by (intro exI [of _ "if gs_id g = i then n + 1 else n"] exI [of _ m])
          (auto simp: ref snapshot_ref_def retains_def)
    qed
  qed
qed

lemma history_round:
  assumes hist: "history es st" and ev: "ev_data e = UserMessage msg"
    and inv: "goal_inv st" and step: "apply_round k st (um_source msg) = Inr st'"
  shows "history (es @ [e]) st'"
  using step
proof (cases rule: apply_round_cases)
  case none
  with ev have "revisions i [e] = []" "goal_rounds i [e] = []" for i by (simp_all add: revisions_def)
  with none hist show ?thesis by (simp add: history_def revisions_append goal_rounds_append)
next
  case (round g n)
  show ?thesis unfolding history_def
  proof
    fix i
    from hist obtain r m where rm: "revisions i es = [1..r]" "goal_rounds i es = [1..m]" "0 \<le> r" "0 \<le> m"
      "i \<notin> set (gf_seenGoalIds st) \<Longrightarrow> r = 0 \<and> m = 0"
      "\<And>g. gf_goal st = Some g \<Longrightarrow> gs_id g = i \<Longrightarrow> r = gs_revision g \<and> m = gf_roundsStarted st"
      by (rule historyE) blast
    have "revisions i [e] = []" "goal_rounds i [e] = (if gs_id g = i then [n] else [])"
      using ev round by (simp_all add: revisions_def)
    moreover have "gs_id g \<in> set (gf_seenGoalIds st)" using inv round by (simp add: goal_inv_def)
    ultimately show "\<exists>r m. revisions i (es @ [e]) = [1..r] \<and> goal_rounds i (es @ [e]) = [1..m] \<and> 0 \<le> r \<and> 0 \<le> m
       \<and> (i \<notin> set (gf_seenGoalIds st') \<longrightarrow> r = 0 \<and> m = 0)
       \<and> (\<forall>g. gf_goal st' = Some g \<and> gs_id g = i \<longrightarrow> r = gs_revision g \<and> m = gf_roundsStarted st')"
      using rm round upto_snoc [OF rm(4)]
      by (intro exI [of _ r] exI [of _ "if gs_id g = i then m + 1 else m"])
        (auto simp: revisions_append goal_rounds_append)
  qed
qed

lemma history_other:
  assumes "\<not> goal_owned e" "history es st"
  shows "history (es @ [e]) st"
proof -
  have "revisions i [e] = []" "goal_rounds i [e] = []" for i
    using assms(1) by (auto simp: goal_owned_def revisions_def goalSource_def
        split: event_data.splits message_source.splits)
  with assms(2) show ?thesis by (simp add: history_def revisions_append goal_rounds_append)
qed

lemma fold_history: "fold_res applyGoalEvent emptyGoalFoldState es = Inr st \<Longrightarrow> history es st"
proof (induction es arbitrary: st rule: rev_induct)
  case Nil
  then show ?case by (auto simp: history_def revisions_def emptyGoalFoldState_def intro!: exI [of _ 0])
next
  case (snoc e es)
  then obtain u where u: "fold_res applyGoalEvent emptyGoalFoldState es = Inr u" "applyGoalEvent u e = Inr st"
    by (auto simp: fold_res_snoc res_simps)
  note inv = goal_fold.replay_from_init [OF u(1)] and hist = snoc.IH [OF u(1)]
  from applyGoalEvent_Inr [OF u(2)] show ?case
    using history_change [OF hist _ _ inv] history_round [OF hist _ inv] history_other [OF _ hist] by blast
qed

text \<open>C34: In a log that folds, the durable revisions of every goal, its tombstone included, are
  1, 2, 3, ... in log order, so no two changes carry the same reference; its admitted rounds are likewise
  1, 2, 3, ...; and the current goal carries the last revision and the number of admitted rounds.\<close>

theorem goal_history_consecutive:
  assumes "fold_res applyGoalEvent emptyGoalFoldState es = Inr st"
  shows "\<exists>n m. revisions i es = [1..n] \<and> goal_rounds i es = [1..m]
     \<and> (\<forall>g. gf_goal st = Some g \<and> gs_id g = i \<longrightarrow> n = gs_revision g \<and> m = gf_roundsStarted st)"
  using fold_history [OF assms] unfolding history_def by blast

text \<open>A goal of cap two that starts two rounds, and is then edited to a cap of one.\<close>

definition sample_goal :: "int \<Rightarrow> goal_phase \<Rightarrow> int \<Rightarrow> goal_snapshot" where
  "sample_goal revision phase cap = \<lparr>gs_id = ''g'', gs_revision = revision, gs_objective = ''ship'', gs_phase = phase,
     gs_blockedReason = None, gs_maxGoalRounds = cap\<rparr>"

definition sample_change :: "nat \<Rightarrow> goal_operation \<Rightarrow> goal_snapshot \<Rightarrow> int \<Rightarrow> session_event" where
  "sample_change k oper g rounds = log_event k 0 (GoalChange (change_value (Snapshot
     \<lparr>sc_operation = oper, sc_goal = g, sc_roundsStarted = rounds, sc_createdAt = 5, sc_updatedAt = 5 + int k\<rparr>)))"

definition sample_round :: "nat \<Rightarrow> int \<Rightarrow> int \<Rightarrow> session_event" where
  "sample_round k revision n = log_event k 0 (UserMessage \<lparr>um_id = ''m'', um_source =
     SrcGoal (JStr ''g'') (JNum (js_int revision)) (JNum (js_int n)), um_content = JArr []\<rparr>)"

definition sample_goal_log :: "session_event list" where
  "sample_goal_log = [sample_change 0 OpCreate (sample_goal 1 Active 2) 0, sample_round 1 1 1, sample_round 2 1 2,
     sample_change 3 OpEdit (sample_goal 2 Active 1) 2]"

theorem goal_history_consecutive_witness:
  "revisions ''g'' sample_goal_log = [1..2] \<and> goal_rounds ''g'' sample_goal_log = [1..2]"
proof -
  have "map_sum id gf_goal (fold_res applyGoalEvent emptyGoalFoldState sample_goal_log) = Inr (Some (sample_goal 2 Active 1))"
    and "map_sum id gf_roundsStarted (fold_res applyGoalEvent emptyGoalFoldState sample_goal_log) = Inr 2"
    by code_simp+
  then obtain st where st: "fold_res applyGoalEvent emptyGoalFoldState sample_goal_log = Inr st"
    "gf_goal st = Some (sample_goal 2 Active 1)" "gf_roundsStarted st = 2"
    by (cases "fold_res applyGoalEvent emptyGoalFoldState sample_goal_log") auto
  from goal_history_consecutive [OF st(1), of "''g''"] st(2,3) show ?thesis by (auto simp: sample_goal_def)
qed

text \<open>The fold accepts an edit of the round cap below the rounds already started, and the projection
  it leads to, with no failure, does not satisfy the schema of its own checkpoint.\<close>

theorem cap_edit_breaks_checkpoint:
  "returns (foldGoal sample_goal_log)
   \<and> ps_failure (foldl applyGoalProjection goal_projection_init sample_goal_log) = None
   \<and> \<not> goalProjectionStateSchema (foldl applyGoalProjection goal_projection_init sample_goal_log)"
  by code_simp

end
