(* ===== verification/Goal_Service.thy ===== *)
theory Goal_Service
  imports Goal_Fold Envelope
begin

text \<open>
  The goal service, \<^verbatim>\<open>packages/goal/goal/src/index.ts\<close>: compare-and-set mutations of the current goal of
  one agent's session, and the process-local activation that grants automatic continuation. The durable
  state is the projection of the session log; every mutation appends one full-snapshot change.

  From outside come the clock, the random identity, whether the agent is the live instance of its
  registry, and whether the session accepts the append for reasons of its own. Request fields that
  remote callers supply are untyped values.
\<close>

section \<open>State\<close>

datatype activation = Armed | Disarmed

record goal_view =
  gv_goal :: goal_snapshot
  gv_roundsStarted :: int
  gv_createdAt :: int
  gv_updatedAt :: int
  gv_activation :: activation

record goal_changed =
  gc_operation :: goal_operation
  gc_ref :: goal_ref
  gc_goal :: "goal_view option"

text \<open>The session log, the runtime state kept for the session, and the notifications emitted.\<close>

record goal_session =
  gx_log :: "session_event list"
  gx_activation :: activation
  gx_pendingActivation :: "(nat \<times> activation) option"
  gx_emitted :: "goal_changed list"

record goal_env =
  ge_now :: int
  ge_uuid :: string
  ge_live :: bool
  ge_admits :: "session_event list \<Rightarrow> jsval \<Rightarrow> bool"

datatype goal_error =
    AgentNotLive | GoalNotFound | GoalAlreadyExists | StaleRevision | InvalidObjective | InvalidMaxRounds
  | InvalidBlockReason | InvalidEdit | InvalidTransition | ReplayFailed nat goal_fold_error | AppendRefused

definition new_goal_session :: goal_session where
  "new_goal_session = \<lparr>gx_log = [], gx_activation = Disarmed, gx_pendingActivation = None, gx_emitted = []\<rparr>"

section \<open>Request validation\<close>

definition resolveMaxGoalRounds :: "jsval \<Rightarrow> goal_error + int" where
  "resolveMaxGoalRounds v = (case v of
     JNum n \<Rightarrow> if \<not> is_safe_integer n \<or> int_of_number n < 1 then Inl InvalidMaxRounds else Inr (int_of_number n)
   | _ \<Rightarrow> Inl InvalidMaxRounds)"

definition resolveObjective :: "jsval \<Rightarrow> goal_error + string" where
  "resolveObjective v = (case v of
     JStr s \<Rightarrow> if trim s = [] then Inl InvalidObjective else Inr (trim s)
   | _ \<Rightarrow> Inl InvalidObjective)"

definition resolveCreateGoal :: "jsval \<Rightarrow> jsval \<Rightarrow> int \<Rightarrow> goal_error + string \<times> int" where
  "resolveCreateGoal objective maxGoalRounds defaultRounds =
     bind_res (resolveObjective objective) (\<lambda>text.
     bind_res (resolveMaxGoalRounds (if maxGoalRounds \<in> {JUndef, JNull} then JNum (js_int defaultRounds) else maxGoalRounds)) (\<lambda>cap.
     Inr (text, cap)))"

definition resolveBlockReason :: "jsval \<Rightarrow> goal_error + block_reason" where
  "resolveBlockReason reason = (case (get reason ''code'', get reason ''message'') of
     (JStr code, JStr message) \<Rightarrow>
       (if \<not> is_kebab code \<or> trim message = [] then Inl InvalidBlockReason
        else Inr \<lparr>br_code = code, br_message = trim message\<rparr>)
   | _ \<Rightarrow> Inl InvalidBlockReason)"

section \<open>Reading\<close>

text \<open>The projection registry keeps the fold of the session log (\<open>Projection_Registry\<close>).\<close>

definition goal_state :: "goal_session \<Rightarrow> goal_error + goal_projection option" where
  "goal_state s = (let ps = foldl applyGoalProjection goal_projection_init (gx_log s) in
     case ps_failure ps of Some (k, err) \<Rightarrow> Inl (ReplayFailed k err) | None \<Rightarrow> Inr (ps_current ps))"

definition view :: "goal_projection option \<Rightarrow> activation \<Rightarrow> goal_view option" where
  "view state act = map_option (\<lambda>p. \<lparr>gv_goal = gp_goal p, gv_roundsStarted = gp_roundsStarted p,
     gv_createdAt = gp_createdAt p, gv_updatedAt = gp_updatedAt p, gv_activation = act\<rparr>) state"

definition prepareMutation :: "goal_env \<Rightarrow> goal_session \<Rightarrow> goal_error + goal_projection option" where
  "prepareMutation env s = (if \<not> ge_live env then Inl AgentNotLive else goal_state s)"

definition expectCurrent :: "goal_projection option \<Rightarrow> goal_ref \<Rightarrow> goal_error + goal_projection" where
  "expectCurrent state ref = (case state of
     None \<Rightarrow> Inl GoalNotFound
   | Some p \<Rightarrow> (if gr_id ref \<noteq> gs_id (gp_goal p) \<or> gr_revision ref \<noteq> gs_revision (gp_goal p)
                then Inl StaleRevision else Inr p))"

definition goal_get :: "goal_env \<Rightarrow> goal_session \<Rightarrow> goal_error + goal_view option" where
  "goal_get env s = bind_res (prepareMutation env s) (\<lambda>p. Inr (view p (gx_activation s)))"

section \<open>Committing\<close>

text \<open>The listener for committed session events.\<close>

definition on_session_event :: "session_event \<Rightarrow> goal_session \<Rightarrow> goal_session" where
  "on_session_event e s = (case ev_data e of
     GoalChange v \<Rightarrow> s\<lparr>gx_activation := (case gx_pendingActivation s of
         Some (offset, act) \<Rightarrow> if offset = ev_seq e then act else Disarmed
       | None \<Rightarrow> Disarmed)\<rparr>
   | _ \<Rightarrow> s)"

text \<open>\<open>Session.append\<close>: the event is in the log when the listeners run.\<close>

definition session_append :: "goal_env \<Rightarrow> event_data \<Rightarrow> goal_session \<Rightarrow> goal_session" where
  "session_append env d s =
     (let e = log_event (length (gx_log s)) (ge_now env) d in on_session_event e (s\<lparr>gx_log := gx_log s @ [e]\<rparr>))"

definition operation_of :: "goal_change \<Rightarrow> goal_operation" where
  "operation_of change = (case change of Snapshot c \<Rightarrow> sc_operation c | Tombstone ref t \<Rightarrow> OpClear)"

definition commit :: "goal_env \<Rightarrow> goal_change \<Rightarrow> activation \<Rightarrow> goal_session \<Rightarrow> goal_session \<times> (goal_error + unit)" where
  "commit env change act s =
     (let s1 = s\<lparr>gx_pendingActivation := Some (length (gx_log s), act)\<rparr> in
      if \<not> lossless (change_value change) \<or> \<not> ge_admits env (gx_log s) (change_value change)
      then (s1\<lparr>gx_pendingActivation := None\<rparr>, Inl AppendRefused)
      else let s2 = session_append env (GoalChange (change_value change)) s1;
               s3 = (s2\<lparr>gx_activation := act\<rparr>)\<lparr>gx_pendingActivation := None\<rparr> in
        checked (goal_state s3) (\<lambda>p s. (s\<lparr>gx_emitted := gx_emitted s @
          [\<lparr>gc_operation = operation_of change, gc_ref = goalChangeRef change, gc_goal = view p (gx_activation s)\<rparr>]\<rparr>, Inr ())) s3)"

definition commitSnapshot ::
    "goal_env \<Rightarrow> goal_operation \<Rightarrow> goal_snapshot \<Rightarrow> int \<Rightarrow> int \<Rightarrow> int \<Rightarrow> activation \<Rightarrow> goal_session
     \<Rightarrow> goal_session \<times> (goal_error + goal_view)" where
  "commitSnapshot env operation goal rounds createdAt updatedAt act s =
     then_run (commit env (Snapshot \<lparr>sc_operation = operation, sc_goal = goal, sc_roundsStarted = rounds,
         sc_createdAt = createdAt, sc_updatedAt = updatedAt\<rparr>) act s)
       (\<lambda>_ s1. (s1, Inr \<lparr>gv_goal = goal, gv_roundsStarted = rounds, gv_createdAt = createdAt,
          gv_updatedAt = updatedAt, gv_activation = gx_activation s1\<rparr>))"

definition nextMutationTime :: "goal_env \<Rightarrow> goal_projection \<Rightarrow> int" where
  "nextMutationTime env state = max (ge_now env) (gp_updatedAt state)"

definition commitCurrent ::
    "goal_env \<Rightarrow> goal_projection \<Rightarrow> goal_operation \<Rightarrow> goal_snapshot \<Rightarrow> activation \<Rightarrow> goal_session
     \<Rightarrow> goal_session \<times> (goal_error + goal_view)" where
  "commitCurrent env state operation goal act s =
     commitSnapshot env operation goal (gp_roundsStarted state) (gp_createdAt state) (nextMutationTime env state) act s"

section \<open>Operations\<close>

definition withPhase :: "goal_snapshot \<Rightarrow> goal_phase \<Rightarrow> goal_snapshot" where
  "withPhase current phase = \<lparr>gs_id = gs_id current, gs_revision = gs_revision current + 1,
     gs_objective = gs_objective current, gs_phase = phase, gs_blockedReason = None,
     gs_maxGoalRounds = gs_maxGoalRounds current\<rparr>"

definition current_for :: "goal_env \<Rightarrow> goal_ref \<Rightarrow> goal_session \<Rightarrow> goal_error + goal_projection" where
  "current_for env ref s = bind_res (prepareMutation env s) (\<lambda>p. expectCurrent p ref)"

definition transition ::
    "goal_env \<Rightarrow> goal_ref \<Rightarrow> goal_operation \<Rightarrow> goal_phase set \<Rightarrow> goal_phase \<Rightarrow> activation \<Rightarrow> goal_session
     \<Rightarrow> goal_session \<times> (goal_error + goal_view)" where
  "transition env ref operation allowed phase act s = checked (current_for env ref s) (\<lambda>p s.
     if gs_phase (gp_goal p) \<notin> allowed then (s, Inl InvalidTransition)
     else commitCurrent env p operation (withPhase (gp_goal p) phase) act s) s"

definition goal_create ::
    "goal_env \<Rightarrow> int \<Rightarrow> jsval \<Rightarrow> jsval \<Rightarrow> goal_session \<Rightarrow> goal_session \<times> (goal_error + goal_view)" where
  "goal_create env defaultRounds objective maxGoalRounds s =
     checked (resolveCreateGoal objective maxGoalRounds defaultRounds) (\<lambda>(text, cap).
     checked (prepareMutation env s) (\<lambda>p s.
       if (case p of None \<Rightarrow> False | Some c \<Rightarrow> gs_phase (gp_goal c) \<noteq> CompletePhase) then (s, Inl GoalAlreadyExists)
       else commitSnapshot env OpCreate
         \<lparr>gs_id = ''goal-'' @ ge_uuid env, gs_revision = 1, gs_objective = text, gs_phase = Active,
          gs_blockedReason = None, gs_maxGoalRounds = cap\<rparr> 0 (ge_now env) (ge_now env) Armed s)) s"

definition edit_fields :: "goal_snapshot \<Rightarrow> jsval \<Rightarrow> jsval \<Rightarrow> goal_error + goal_snapshot" where
  "edit_fields current objective maxGoalRounds =
     bind_res (if objective = JUndef then Inr (gs_objective current) else resolveObjective objective) (\<lambda>text.
     bind_res (if maxGoalRounds = JUndef then Inr (gs_maxGoalRounds current) else resolveMaxGoalRounds maxGoalRounds) (\<lambda>cap.
     Inr (current\<lparr>gs_revision := gs_revision current + 1, gs_objective := text, gs_maxGoalRounds := cap\<rparr>)))"

definition goal_edit ::
    "goal_env \<Rightarrow> goal_ref \<Rightarrow> jsval \<Rightarrow> jsval \<Rightarrow> goal_session \<Rightarrow> goal_session \<times> (goal_error + goal_view)" where
  "goal_edit env ref objective maxGoalRounds s = checked (current_for env ref s) (\<lambda>p s.
     if objective = JUndef \<and> maxGoalRounds = JUndef then (s, Inl InvalidEdit)
     else checked (edit_fields (gp_goal p) objective maxGoalRounds) (\<lambda>goal s.
       commitCurrent env p OpEdit goal (gx_activation s) s) s) s"

definition goal_pause :: "goal_env \<Rightarrow> goal_ref \<Rightarrow> goal_session \<Rightarrow> goal_session \<times> (goal_error + goal_view)" where
  "goal_pause env ref s = transition env ref OpPause {Active} Paused Disarmed s"

definition goal_resume :: "goal_env \<Rightarrow> goal_ref \<Rightarrow> goal_session \<Rightarrow> goal_session \<times> (goal_error + goal_view)" where
  "goal_resume env ref s = checked (current_for env ref s) (\<lambda>p s.
     if gs_phase (gp_goal p) \<notin> {Active, Paused, BlockedPhase} then (s, Inl InvalidTransition)
     else if gs_phase (gp_goal p) = Active \<and> gx_activation s = Armed then (s, Inl InvalidTransition)
     else if gp_roundsStarted p \<ge> gs_maxGoalRounds (gp_goal p) then (s, Inl InvalidTransition)
     else commitCurrent env p OpResume (withPhase (gp_goal p) Active) Armed s) s"

definition goal_complete :: "goal_env \<Rightarrow> goal_ref \<Rightarrow> goal_session \<Rightarrow> goal_session \<times> (goal_error + goal_view)" where
  "goal_complete env ref s = transition env ref OpComplete {Active, Paused, BlockedPhase} CompletePhase Disarmed s"

definition goal_block :: "goal_env \<Rightarrow> goal_ref \<Rightarrow> jsval \<Rightarrow> goal_session \<Rightarrow> goal_session \<times> (goal_error + goal_view)" where
  "goal_block env ref reason s = checked (current_for env ref s) (\<lambda>p s.
     if gs_phase (gp_goal p) \<noteq> Active then (s, Inl InvalidTransition)
     else checked (resolveBlockReason reason) (\<lambda>r s.
       commitCurrent env p OpBlock ((withPhase (gp_goal p) BlockedPhase)\<lparr>gs_blockedReason := Some r\<rparr>) Disarmed s) s) s"

definition goal_clear :: "goal_env \<Rightarrow> goal_ref \<Rightarrow> goal_session \<Rightarrow> goal_session \<times> (goal_error + goal_ref)" where
  "goal_clear env ref s = checked (current_for env ref s) (\<lambda>p s.
     let tombstone = \<lparr>gr_id = gs_id (gp_goal p), gr_revision = gs_revision (gp_goal p) + 1\<rparr> in
     then_run (commit env (Tombstone tombstone (nextMutationTime env p)) Disarmed s) (\<lambda>_ s. (s, Inr tombstone))) s"

definition goal_disarm :: "goal_env \<Rightarrow> goal_session \<Rightarrow> goal_session \<times> (goal_error + goal_view option)" where
  "goal_disarm env s = (if \<not> ge_live env then (s, Inl AgentNotLive)
     else let s1 = s\<lparr>gx_activation := Disarmed\<rparr> in
       checked (goal_state s1) (\<lambda>p s. (s, Inr (view p (gx_activation s)))) s1)"

definition session_start :: "goal_session \<Rightarrow> goal_session" where
  "session_start s = s\<lparr>gx_activation := Disarmed\<rparr>"

definition remoteExportCreate ::
    "goal_env \<Rightarrow> int \<Rightarrow> jsval \<Rightarrow> jsval \<Rightarrow> goal_session \<Rightarrow> goal_session \<times> (goal_error + goal_ref)" where
  "remoteExportCreate env defaultRounds objective maxGoalRounds s =
     then_run (goal_create env defaultRounds objective maxGoalRounds s) (\<lambda>v s.
       (s, Inr \<lparr>gr_id = gs_id (gv_goal v), gr_revision = gs_revision (gv_goal v)\<rparr>))"

section \<open>Healthy sessions\<close>

text \<open>The log folds, no activation is pending, the revision is bounded by the log, and continuation
  authority rests on an active goal.\<close>

definition current_of :: "goal_fold_state \<Rightarrow> goal_projection option" where
  "current_of st = map_option (\<lambda>g. \<lparr>gp_goal = g, gp_roundsStarted = gf_roundsStarted st,
     gp_createdAt = the (gf_createdAt st), gp_updatedAt = the (gf_updatedAt st)\<rparr>) (gf_goal st)"

definition healthy_in :: "goal_fold_state \<Rightarrow> goal_session \<Rightarrow> bool" where
  "healthy_in st s \<longleftrightarrow> fold_res applyGoalEvent emptyGoalFoldState (gx_log s) = Inr st
     \<and> gx_pendingActivation s = None
     \<and> (\<forall>g. gf_goal st = Some g \<longrightarrow> gs_revision g \<le> int (length (gx_log s)))
     \<and> (gx_activation s = Armed \<longrightarrow> map_option gs_phase (gf_goal st) = Some Active)"

lemma healthy_inv: "healthy_in st s \<Longrightarrow> goal_inv st"
  unfolding healthy_in_def using goal_fold.replay_from_init by blast

lemma fold_state:
  assumes "fold_res applyGoalEvent emptyGoalFoldState (gx_log s) = Inr st"
  shows "goal_state s = Inr (current_of st)"
proof -
  let ?ps = "foldl applyGoalProjection goal_projection_init (gx_log s)"
  have run: "goalProjectionState st = Inr ?ps" using projection_run [of "gx_log s"] assms by simp
  have inv: "goal_inv st" using assms by (rule goal_fold.replay_from_init)
  have "ps_failure ps = None \<and> ps_current ps = current_of st" if "goalProjectionState st = Inr ps" for ps
    using inv that by (cases "gf_goal st") (auto simp: goal_inv_def goalProjectionState_def current_of_def)
  from this [OF run] show ?thesis by (simp add: goal_state_def Let_def)
qed

lemma healthy_state: "healthy_in st s \<Longrightarrow> goal_state s = Inr (current_of st)"
  by (rule fold_state) (simp add: healthy_in_def)

definition sane_env :: "goal_env \<Rightarrow> bool" where
  "sane_env env \<longleftrightarrow> 0 \<le> ge_now env \<and> safe_int (ge_now env)"

lemma lossless_change: "lossless (change_value c)"
proof -
  have "lossless (snapshot_value g)" for g
    by (cases "gs_blockedReason g") (simp_all add: snapshot_value_def)
  then show ?thesis by (cases c) simp_all
qed

section \<open>Committing an acceptable change\<close>

definition appended :: "goal_env \<Rightarrow> goal_change \<Rightarrow> goal_session \<Rightarrow> session_event list" where
  "appended env c s = gx_log s @ [log_event (length (gx_log s)) (ge_now env) (GoalChange (change_value c))]"

lemma fold_appended:
  assumes "fold_res applyGoalEvent emptyGoalFoldState (gx_log s) = Inr st" "wf_change c" "applyGoalChange st c = Inr st'"
  shows "fold_res applyGoalEvent emptyGoalFoldState (appended env c s) = Inr st'"
  using assms by (simp add: appended_def fold_res_snoc applyGoalEvent_def decode_change_value)

text \<open>A commit either refuses and changes nothing, or appends the change, whose fold it then reads.\<close>

lemma commit_cases:
  assumes h: "healthy_in st s" and wf: "wf_change c" and step: "applyGoalChange st c = Inr st'"
    and rev: "\<And>g. gf_goal st' = Some g \<Longrightarrow> gs_revision g \<le> int (length (gx_log s)) + 1"
    and act: "act = Armed \<Longrightarrow> map_option gs_phase (gf_goal st') = Some Active"
  obtains (refused) "commit env c act s = (s, Inl AppendRefused)"
  | (committed) s' where "commit env c act s = (s', Inr ())" "healthy_in st' s'" "gx_log s' = appended env c s"
      "gx_activation s' = act"
proof (cases "ge_admits env (gx_log s) (change_value c)")
  case False
  moreover have "s\<lparr>gx_pendingActivation := None\<rparr> = s" using h by (cases s) (simp add: healthy_in_def)
  ultimately show ?thesis by (intro refused) (simp add: commit_def Let_def lossless_change)
next
  case True
  note fold = fold_appended [OF _ wf step, of s env]
  define s3 where "s3 = s\<lparr>gx_log := appended env c s, gx_activation := act, gx_pendingActivation := None\<rparr>"
  have f3: "fold_res applyGoalEvent emptyGoalFoldState (gx_log s3) = Inr st'"
    using fold h by (simp add: s3_def healthy_in_def)
  from True have "commit env c act s = (s3\<lparr>gx_emitted := gx_emitted s @
      [\<lparr>gc_operation = operation_of c, gc_ref = goalChangeRef c, gc_goal = view (current_of st') act\<rparr>]\<rparr>, Inr ())"
    using fold_state [OF f3]
    by (simp add: commit_def lossless_change session_append_def on_session_event_def appended_def s3_def Let_def)
  moreover have "healthy_in st' (s3\<lparr>gx_emitted := x\<rparr>)" for x
    using f3 rev act unfolding healthy_in_def by (auto simp: s3_def appended_def add.commute)
  ultimately show ?thesis by (rule committed) (simp_all add: s3_def)
qed

text \<open>The changes of the non-create operations advance the fold when the operation's own phase rule
  holds.\<close>

definition phase_rule :: "goal_fold_state \<Rightarrow> goal_snapshot \<Rightarrow> goal_operation \<Rightarrow> goal_snapshot \<Rightarrow> bool" where
  "phase_rule st g oper next \<longleftrightarrow> gs_id next = gs_id g \<and> gs_revision next = gs_revision g + 1 \<and>
     (oper = OpEdit \<and> gs_phase next = gs_phase g \<and> gs_blockedReason next = gs_blockedReason g
    \<or> gs_objective next = gs_objective g \<and> gs_maxGoalRounds next = gs_maxGoalRounds g \<and>
      (oper = OpPause \<and> gs_phase g = Active \<and> gs_phase next = Paused
     \<or> oper = OpResume \<and> gs_phase g \<in> {Active, Paused, BlockedPhase} \<and> gs_phase next = Active
         \<and> gf_roundsStarted st < gs_maxGoalRounds next
     \<or> oper = OpComplete \<and> gs_phase g \<noteq> CompletePhase \<and> gs_phase next = CompletePhase
     \<or> oper = OpBlock \<and> gs_phase g = Active \<and> gs_phase next = BlockedPhase))"

lemma advance_accepted:
  assumes inv: "goal_inv st" and cur: "current_of st = Some p"
    and rule: "phase_rule st (gp_goal p) oper next" and wf: "wf_snapshot next" and env: "sane_env env"
  defines "c \<equiv> Snapshot \<lparr>sc_operation = oper, sc_goal = next, sc_roundsStarted = gp_roundsStarted p,
     sc_createdAt = gp_createdAt p, sc_updatedAt = nextMutationTime env p\<rparr>"
  shows "wf_change c \<and> (\<exists>st'. applyGoalChange st c = Inr st' \<and> gf_goal st' = Some next)"
proof -
  obtain g cr up where g: "gf_goal st = Some g" "gf_createdAt st = Some cr" "gf_updatedAt st = Some up"
    "0 \<le> cr" "cr \<le> up" "safe_int cr" "safe_int up" "0 \<le> gf_roundsStarted st" "safe_int (gf_roundsStarted st)"
    and p: "p = \<lparr>gp_goal = g, gp_roundsStarted = gf_roundsStarted st, gp_createdAt = cr, gp_updatedAt = up\<rparr>"
    using inv cur by (auto simp: current_of_def goal_inv_def)
  have time: "safe_int (nextMutationTime env p)" "up \<le> nextMutationTime env p"
    using env g p by (auto simp: nextMutationTime_def sane_env_def max_def)
  have "oper \<noteq> OpClear" "oper \<noteq> OpCreate" using rule by (auto simp: phase_rule_def)
  moreover have "validateSnapshotTransition st \<lparr>sc_operation = oper, sc_goal = next, sc_roundsStarted = gf_roundsStarted st,
     sc_createdAt = cr, sc_updatedAt = nextMutationTime env p\<rparr> g = Inr ()"
    using rule time g p by (auto simp: phase_rule_def validateSnapshotTransition_def requireNextRevision_def snapshot_ref_def
        validate_operation_def requireSameDefinition_def Let_def)
  ultimately show ?thesis
    using g p wf time by (simp add: c_def applyGoalChange_def admit_snapshot_def)
qed

section \<open>What every operation does\<close>

text \<open>An operation either rejects and changes nothing, or commits one change satisfying \<open>Q\<close>.\<close>

definition sound_result ::
    "(goal_change \<Rightarrow> bool) \<Rightarrow> goal_env \<Rightarrow> goal_fold_state \<Rightarrow> goal_session \<Rightarrow> goal_session \<times> (goal_error + 'a) \<Rightarrow> bool" where
  "sound_result Q env st s r \<longleftrightarrow> fst r = s \<and> (\<exists>err. snd r = Inl err)
     \<or> (\<exists>st' c v. snd r = Inr v \<and> healthy_in st' (fst r) \<and> gx_log (fst r) = appended env c s
          \<and> applyGoalChange st c = Inr st' \<and> wf_change c \<and> Q c)"

lemma sound_rejected [simp]: "sound_result Q env st s (s, Inl err)"
  by (simp add: sound_result_def)

lemma sound_checked:
  "(\<And>a. r = Inr a \<Longrightarrow> sound_result Q env st s (f a s)) \<Longrightarrow> sound_result Q env st s (checked r f s)"
  by (cases r) simp_all

lemma sound_committed:
  "snd r = Inr v \<Longrightarrow> healthy_in st' (fst r) \<Longrightarrow> gx_log (fst r) = appended env c s \<Longrightarrow>
     applyGoalChange st c = Inr st' \<Longrightarrow> wf_change c \<Longrightarrow> Q c \<Longrightarrow> sound_result Q env st s r"
  unfolding sound_result_def by blast

lemma sound_then:
  assumes "sound_result Q env st s r" and f: "\<And>v s. \<exists>w. f v s = (s, Inr w)"
  shows "sound_result Q env st s (then_run r f)"
  using assms(1) [unfolded sound_result_def]
proof (elim disjE exE conjE)
  fix err assume "fst r = s" "snd r = Inl err"
  then show ?thesis by (cases r) simp
next
  fix st' c v assume at: "snd r = Inr v" "healthy_in st' (fst r)" "gx_log (fst r) = appended env c s"
    "applyGoalChange st c = Inr st'" "wf_change c" "Q c"
  obtain w where "then_run r f = (fst r, Inr w)" using f [of v "fst r"] at(1) by (cases r) auto
  with at show ?thesis by (intro sound_committed [where v = w and st' = st' and c = c]) simp_all
qed

lemma sound_commit:
  assumes "healthy_in st s" "wf_change c" "applyGoalChange st c = Inr st'"
    and "\<And>g. gf_goal st' = Some g \<Longrightarrow> gs_revision g \<le> int (length (gx_log s)) + 1"
    and "act = Armed \<Longrightarrow> map_option gs_phase (gf_goal st') = Some Active" and "Q c"
  shows "sound_result Q env st s (commit env c act s)"
proof (rule commit_cases [OF assms(1-5)])
  fix s' assume "commit env c act s = (s', Inr ())" "healthy_in st' s'" "gx_log s' = appended env c s"
  with assms(2,3,6) show ?thesis by (intro sound_committed [where v = "()"]) simp_all
qed simp_all

definition advances :: "goal_ref \<Rightarrow> goal_change \<Rightarrow> bool" where
  "advances ref c \<longleftrightarrow> operation_of c \<noteq> OpCreate
     \<and> goalChangeRef c = \<lparr>gr_id = gr_id ref, gr_revision = gr_revision ref + 1\<rparr>"

lemma current_for_Inr:
  assumes "healthy_in st s" "current_for env ref s = Inr p"
  obtains g where "current_of st = Some p" "gf_goal st = Some g" "gp_goal p = g" "ref = snapshot_ref g"
    "wf_snapshot g" "gs_revision g \<le> int (length (gx_log s))"
proof -
  from assms have "current_of st = Some p" "ref = snapshot_ref (gp_goal p)"
    by (auto simp: current_for_def prepareMutation_def expectCurrent_def healthy_state res_simps snapshot_ref_def
        split: if_splits option.splits)
  moreover from this obtain g where "gf_goal st = Some g" "gp_goal p = g" by (auto simp: current_of_def)
  ultimately show ?thesis
    using healthy_inv [OF assms(1)] assms(1) by (intro that [of g]) (auto simp: goal_inv_def healthy_in_def)
qed

lemma sound_commitCurrent:
  assumes h: "healthy_in st s" and p: "current_for env ref s = Inr p" and env: "sane_env env"
    and rule: "phase_rule st (gp_goal p) oper next" and wf: "wf_snapshot next"
    and act: "act = Armed \<Longrightarrow> gs_phase next = Active"
  shows "sound_result (advances ref) env st s (commitCurrent env p oper next act s)"
proof -
  obtain g where g: "current_of st = Some p" "gf_goal st = Some g" "gp_goal p = g" "ref = snapshot_ref g"
    "gs_revision g \<le> int (length (gx_log s))" using current_for_Inr [OF h p] by metis
  note adv = advance_accepted [OF healthy_inv [OF h] g(1) rule wf env]
  then obtain st' where st': "applyGoalChange st (Snapshot \<lparr>sc_operation = oper, sc_goal = next,
     sc_roundsStarted = gp_roundsStarted p, sc_createdAt = gp_createdAt p, sc_updatedAt = nextMutationTime env p\<rparr>) = Inr st'"
    "gf_goal st' = Some next" by blast
  have "gs_revision next = gs_revision g + 1" "gs_id next = gs_id g" "oper \<noteq> OpCreate"
    using rule g by (auto simp: phase_rule_def)
  then show ?thesis unfolding commitCurrent_def commitSnapshot_def
    using adv st'(2) act g
    by (intro sound_then sound_commit [OF h _ st'(1)]) (auto simp: advances_def operation_of_def snapshot_ref_def)
qed

lemma wf_withPhase:
  assumes "wf_snapshot g" "gs_revision g \<le> int n" "int n < max_safe_integer"
  shows "phase \<noteq> BlockedPhase \<Longrightarrow> wf_snapshot (withPhase g phase)"
    and "wf_reason r \<Longrightarrow> wf_snapshot ((withPhase g BlockedPhase)\<lparr>gs_blockedReason := Some r\<rparr>)"
  using assms by (auto simp: wf_snapshot_def withPhase_def safe_int_def)

lemma withPhase_phase [simp]: "gs_phase (withPhase g phase) = phase"
  by (simp add: withPhase_def)

lemma withPhase_rule:
  "phase_rule st g oper (withPhase g phase) \<longleftrightarrow>
     oper = OpEdit \<and> phase = gs_phase g \<and> gs_blockedReason g = None
     \<or> oper = OpPause \<and> gs_phase g = Active \<and> phase = Paused
     \<or> oper = OpResume \<and> gs_phase g \<in> {Active, Paused, BlockedPhase} \<and> phase = Active
         \<and> gf_roundsStarted st < gs_maxGoalRounds g
     \<or> oper = OpComplete \<and> gs_phase g \<noteq> CompletePhase \<and> phase = CompletePhase
     \<or> oper = OpBlock \<and> gs_phase g = Active \<and> phase = BlockedPhase"
  by (auto simp: phase_rule_def withPhase_def)

lemma sound_transition:
  assumes h: "healthy_in st s" and env: "sane_env env" and short: "int (length (gx_log s)) < max_safe_integer"
    and "phase \<noteq> BlockedPhase" "phase = Active \<or> act = Disarmed"
    and "\<And>g. gs_phase g \<in> allowed \<Longrightarrow> phase_rule st g oper (withPhase g phase)"
  shows "sound_result (advances ref) env st s (transition env ref oper allowed phase act s)"
  unfolding transition_def
proof (rule sound_checked)
  fix p assume p: "current_for env ref s = Inr p"
  obtain g where g: "gp_goal p = g" "wf_snapshot g" "gs_revision g \<le> int (length (gx_log s))"
    using current_for_Inr [OF h p] by metis
  then have "sound_result (advances ref) env st s (commitCurrent env p oper (withPhase (gp_goal p) phase) act s)"
    if "gs_phase g \<in> allowed"
    using that assms(4,5) assms(6) [OF that] by (intro sound_commitCurrent [OF h p env] wf_withPhase(1) [OF _ _ short]) auto
  with g(1) show "sound_result (advances ref) env st s (if gs_phase (gp_goal p) \<notin> allowed then (s, Inl InvalidTransition)
     else commitCurrent env p oper (withPhase (gp_goal p) phase) act s)" by simp
qed

lemma sound_pause:
  assumes h: "healthy_in st s" and env: "sane_env env" and short: "int (length (gx_log s)) < max_safe_integer"
  shows "sound_result (advances ref) env st s (goal_pause env ref s)"
  unfolding goal_pause_def by (rule sound_transition [OF assms]) (simp_all add: withPhase_rule)

lemma sound_complete:
  assumes h: "healthy_in st s" and env: "sane_env env" and short: "int (length (gx_log s)) < max_safe_integer"
  shows "sound_result (advances ref) env st s (goal_complete env ref s)"
  unfolding goal_complete_def by (rule sound_transition [OF assms]) (auto simp: withPhase_rule)

lemma sound_resume:
  assumes h: "healthy_in st s" and env: "sane_env env" and short: "int (length (gx_log s)) < max_safe_integer"
  shows "sound_result (advances ref) env st s (goal_resume env ref s)"
  unfolding goal_resume_def
proof (rule sound_checked)
  fix p assume p: "current_for env ref s = Inr p"
  obtain g where g: "gp_goal p = g" "wf_snapshot g" "gs_revision g \<le> int (length (gx_log s))"
    "current_of st = Some p" "gf_goal st = Some g" using current_for_Inr [OF h p] by metis
  then have "gp_roundsStarted p = gf_roundsStarted st" by (cases p) (auto simp: current_of_def)
  moreover have "sound_result (advances ref) env st s (commitCurrent env p OpResume (withPhase g Active) Armed s)"
    if "gs_phase g \<in> {Active, Paused, BlockedPhase}" "gf_roundsStarted st < gs_maxGoalRounds g"
    using that g by (intro sound_commitCurrent [OF h p env] wf_withPhase(1) [OF _ _ short])
      (auto simp: withPhase_rule)
  ultimately show "sound_result (advances ref) env st s
     (if gs_phase (gp_goal p) \<notin> {Active, Paused, BlockedPhase} then (s, Inl InvalidTransition)
      else if gs_phase (gp_goal p) = Active \<and> gx_activation s = Armed then (s, Inl InvalidTransition)
      else if gp_roundsStarted p \<ge> gs_maxGoalRounds (gp_goal p) then (s, Inl InvalidTransition)
      else commitCurrent env p OpResume (withPhase (gp_goal p) Active) Armed s)"
    using g(1) by (simp add: not_le)
qed

lemma sound_block:
  assumes h: "healthy_in st s" and env: "sane_env env" and short: "int (length (gx_log s)) < max_safe_integer"
  shows "sound_result (advances ref) env st s (goal_block env ref reason s)"
  unfolding goal_block_def
proof (rule sound_checked)
  fix p assume p: "current_for env ref s = Inr p"
  obtain g where g: "gp_goal p = g" "wf_snapshot g" "gs_revision g \<le> int (length (gx_log s))"
    using current_for_Inr [OF h p] by metis
  have wf: "resolveBlockReason reason = Inr r \<Longrightarrow> wf_reason r" for r
    by (auto simp: resolveBlockReason_def wf_reason_def split: jsval.splits if_splits)
  have "sound_result (advances ref) env st s
      (commitCurrent env p OpBlock ((withPhase g BlockedPhase)\<lparr>gs_blockedReason := Some r\<rparr>) Disarmed s)"
    if "gs_phase g = Active" "wf_reason r" for r
    using that g by (intro sound_commitCurrent [OF h p env] wf_withPhase(2) [OF _ _ short])
      (auto simp: phase_rule_def withPhase_def)
  with g wf show "sound_result (advances ref) env st s (if gs_phase (gp_goal p) \<noteq> Active then (s, Inl InvalidTransition)
     else checked (resolveBlockReason reason) (\<lambda>r s.
       commitCurrent env p OpBlock ((withPhase (gp_goal p) BlockedPhase)\<lparr>gs_blockedReason := Some r\<rparr>) Disarmed s) s)"
    by (auto intro!: sound_checked)
qed

lemma edit_fields_rule:
  assumes "edit_fields g objective cap = Inr next" "wf_snapshot g" "gs_revision g \<le> int n" "int n < max_safe_integer"
  shows "phase_rule st g OpEdit next" "wf_snapshot next" "gs_phase next = gs_phase g"
proof -
  have obj: "resolveObjective v = Inr t \<Longrightarrow> t \<noteq> [] \<and> trim t = t" for v t
    by (auto simp: resolveObjective_def split: jsval.splits if_splits)
  have cap: "resolveMaxGoalRounds v = Inr m \<Longrightarrow> 1 \<le> m \<and> safe_int m" for v m
    by (auto simp: resolveMaxGoalRounds_def is_safe_int_of split: jsval.splits if_splits)
  from assms(1) obtain t m where next_eq: "next = g\<lparr>gs_revision := gs_revision g + 1, gs_objective := t, gs_maxGoalRounds := m\<rparr>"
    and t: "(if objective = JUndef then Inr (gs_objective g) else resolveObjective objective) = Inr t"
    and m: "(if cap = JUndef then Inr (gs_maxGoalRounds g) else resolveMaxGoalRounds cap) = Inr m"
    by (auto simp only: edit_fields_def bind_res_eq_Inr sum.inject)
  from t m assms(2) have "t \<noteq> [] \<and> trim t = t" "1 \<le> m \<and> safe_int m"
    by (auto simp: wf_snapshot_def split: if_splits dest: obj cap)
  with assms(2-4) next_eq show "wf_snapshot next" by (auto simp: wf_snapshot_def safe_int_def split: option.splits)
  show "phase_rule st g OpEdit next" "gs_phase next = gs_phase g" by (simp_all add: next_eq phase_rule_def)
qed

lemma sound_edit:
  assumes h: "healthy_in st s" and env: "sane_env env" and short: "int (length (gx_log s)) < max_safe_integer"
  shows "sound_result (advances ref) env st s (goal_edit env ref objective cap s)"
  unfolding goal_edit_def
proof (rule sound_checked)
  fix p assume p: "current_for env ref s = Inr p"
  obtain g where g: "gp_goal p = g" "wf_snapshot g" "gs_revision g \<le> int (length (gx_log s))" "gf_goal st = Some g"
    using current_for_Inr [OF h p] by metis
  have "sound_result (advances ref) env st s (commitCurrent env p OpEdit next (gx_activation s) s)"
    if "edit_fields g objective cap = Inr next" for "next"
  proof (rule sound_commitCurrent [OF h p env])
    note rule = edit_fields_rule [OF that g(2,3) short]
    show "phase_rule st (gp_goal p) OpEdit next" "wf_snapshot next" using rule g(1) by simp_all
    show "gs_phase next = Active" if "gx_activation s = Armed" using that h g(4) rule(3) by (simp add: healthy_in_def)
  qed
  with g(1) show "sound_result (advances ref) env st s
    (if objective = JUndef \<and> cap = JUndef then (s, Inl InvalidEdit)
     else checked (edit_fields (gp_goal p) objective cap) (\<lambda>goal s. commitCurrent env p OpEdit goal (gx_activation s) s) s)"
    by (auto intro!: sound_checked)
qed

lemma sound_clear:
  assumes h: "healthy_in st s" and env: "sane_env env" and short: "int (length (gx_log s)) < max_safe_integer"
  shows "sound_result (advances ref) env st s (goal_clear env ref s)"
  unfolding goal_clear_def Let_def
proof (rule sound_checked)
  fix p assume p: "current_for env ref s = Inr p"
  obtain g where g: "current_of st = Some p" "gf_goal st = Some g" "gp_goal p = g" "ref = snapshot_ref g"
    "wf_snapshot g" "gs_revision g \<le> int (length (gx_log s))" using current_for_Inr [OF h p] by metis
  let ?t = "Tombstone \<lparr>gr_id = gs_id g, gr_revision = gs_revision g + 1\<rparr> (nextMutationTime env p)"
  obtain u where u: "gf_updatedAt st = Some u" "gp_updatedAt p = u" "0 \<le> u" "safe_int u"
    using healthy_inv [OF h] g(1,2) by (auto simp: goal_inv_def current_of_def)
  with env have time: "u \<le> nextMutationTime env p" "0 \<le> nextMutationTime env p" "safe_int (nextMutationTime env p)"
    by (auto simp: nextMutationTime_def sane_env_def max_def)
  have wf: "wf_change ?t" using g(5,6) short time by (auto simp: wf_snapshot_def safe_int_def)
  have step: "applyGoalChange st ?t = Inr (st\<lparr>gf_goal := None, gf_roundsStarted := 0, gf_createdAt := None,
      gf_updatedAt := None, gf_lastRef := Some \<lparr>gr_id = gs_id g, gr_revision = gs_revision g + 1\<rparr>\<rparr>)"
    using g(2) u time by (simp add: applyGoalChange_def requireNextRevision_def)
  have "advances ref ?t" using g(4) by (simp add: advances_def operation_of_def snapshot_ref_def)
  then have "sound_result (advances ref) env st s (commit env ?t Disarmed s)"
    by (intro sound_commit [OF h wf step]) simp_all
  with g(3) show "sound_result (advances ref) env st s (then_run (commit env (Tombstone \<lparr>gr_id = gs_id (gp_goal p),
       gr_revision = gs_revision (gp_goal p) + 1\<rparr> (nextMutationTime env p)) Disarmed s)
     (\<lambda>_ s. (s, Inr \<lparr>gr_id = gs_id (gp_goal p), gr_revision = gs_revision (gp_goal p) + 1\<rparr>)))"
    by (intro sound_then) auto
qed

definition creates :: "goal_env \<Rightarrow> goal_change \<Rightarrow> bool" where
  "creates env c \<longleftrightarrow> operation_of c = OpCreate \<and> goalChangeRef c = \<lparr>gr_id = ''goal-'' @ ge_uuid env, gr_revision = 1\<rparr>"

lemma sound_create:
  assumes h: "healthy_in st s" and env: "sane_env env" and fresh: "''goal-'' @ ge_uuid env \<notin> set (gf_seenGoalIds st)"
  shows "sound_result (creates env) env st s (goal_create env rounds objective cap s)"
  unfolding goal_create_def
proof (rule sound_checked, clarify, rule sound_checked)
  fix obj m p assume spec: "resolveCreateGoal objective cap rounds = Inr (obj, m)" and p: "prepareMutation env s = Inr p"
  let ?g = "\<lparr>gs_id = ''goal-'' @ ge_uuid env, gs_revision = 1, gs_objective = obj, gs_phase = Active,
    gs_blockedReason = None, gs_maxGoalRounds = m\<rparr>"
  let ?c = "Snapshot \<lparr>sc_operation = OpCreate, sc_goal = ?g, sc_roundsStarted = 0, sc_createdAt = ge_now env,
    sc_updatedAt = ge_now env\<rparr>"
  have "obj \<noteq> [] \<and> trim obj = obj \<and> 1 \<le> m \<and> safe_int m" using spec
    by (auto simp: resolveCreateGoal_def resolveObjective_def resolveMaxGoalRounds_def res_simps is_safe_int_of
        split: jsval.splits if_splits)
  then have wf: "wf_change ?c" using env by (auto simp: wf_snapshot_def sane_env_def safe_int_def max_safe_integer_def)
  have cur: "p = current_of st" using p by (simp add: prepareMutation_def healthy_state [OF h] split: if_splits)
  show "sound_result (creates env) env st s (if (case p of None \<Rightarrow> False | Some c \<Rightarrow> gs_phase (gp_goal c) \<noteq> CompletePhase)
      then (s, Inl GoalAlreadyExists) else commitSnapshot env OpCreate ?g 0 (ge_now env) (ge_now env) Armed s)"
  proof (cases "case p of None \<Rightarrow> False | Some c \<Rightarrow> gs_phase (gp_goal c) \<noteq> CompletePhase")
    case False
    then have "\<not> (case gf_goal st of None \<Rightarrow> False | Some g \<Rightarrow> gs_phase g \<noteq> CompletePhase)"
      using cur by (auto simp: current_of_def split: option.splits)
    then obtain st' where step: "applyGoalChange st ?c = Inr st'" "gf_goal st' = Some ?g"
      using fresh by (simp add: applyGoalChange_def admit_snapshot_def)
    have "sound_result (creates env) env st s (commit env ?c Armed s)"
      using step(2) by (intro sound_commit [OF h wf step(1)]) (simp_all add: creates_def operation_of_def snapshot_ref_def)
    with False show ?thesis by (simp add: commitSnapshot_def sound_then)
  qed simp
qed

section \<open>Histories of calls\<close>

text \<open>Everything that can happen to a session's goal: the calls of the service, the start of an agent
  lifecycle on the session, and session events of other components.\<close>

datatype goal_call =
    CreateCall jsval jsval | EditCall goal_ref jsval jsval | PauseCall goal_ref | ResumeCall goal_ref
  | CompleteCall goal_ref | BlockCall goal_ref jsval | ClearCall goal_ref | DisarmCall | SessionStart
  | OtherAppend event_data

definition without_value :: "goal_session \<times> (goal_error + 'a) \<Rightarrow> goal_session \<times> (goal_error + unit)" where
  "without_value r = (fst r, map_sum id (\<lambda>_. ()) (snd r))"

fun run_goal :: "int \<Rightarrow> goal_env \<Rightarrow> goal_call \<Rightarrow> goal_session \<Rightarrow> goal_session \<times> (goal_error + unit)" where
  "run_goal rounds env (CreateCall objective cap) s = without_value (goal_create env rounds objective cap s)"
| "run_goal rounds env (EditCall ref objective cap) s = without_value (goal_edit env ref objective cap s)"
| "run_goal rounds env (PauseCall ref) s = without_value (goal_pause env ref s)"
| "run_goal rounds env (ResumeCall ref) s = without_value (goal_resume env ref s)"
| "run_goal rounds env (CompleteCall ref) s = without_value (goal_complete env ref s)"
| "run_goal rounds env (BlockCall ref reason) s = without_value (goal_block env ref reason s)"
| "run_goal rounds env (ClearCall ref) s = without_value (goal_clear env ref s)"
| "run_goal rounds env DisarmCall s = without_value (goal_disarm env s)"
| "run_goal rounds env SessionStart s = (session_start s, Inr ())"
| "run_goal rounds env (OtherAppend d) s = (session_append env d s, Inr ())"

definition run_goals :: "int \<Rightarrow> (goal_env \<times> goal_call) list \<Rightarrow> goal_session \<Rightarrow> goal_session" where
  "run_goals rounds calls s = foldl (\<lambda>s (env, call). fst (run_goal rounds env call s)) s calls"

text \<open>The clock gives safe times, and what other components append is not owned by the goal domain.\<close>

definition sane_call :: "goal_env \<times> goal_call \<Rightarrow> bool" where
  "sane_call c \<longleftrightarrow> sane_env (fst c) \<and>
     (case snd c of OtherAppend d \<Rightarrow> \<not> goal_owned (log_event 0 0 d) | _ \<Rightarrow> True)"

fun call_ref :: "goal_call \<Rightarrow> goal_ref option" where
  "call_ref (EditCall ref objective cap) = Some ref"
| "call_ref (PauseCall ref) = Some ref"
| "call_ref (ResumeCall ref) = Some ref"
| "call_ref (CompleteCall ref) = Some ref"
| "call_ref (BlockCall ref reason) = Some ref"
| "call_ref (ClearCall ref) = Some ref"
| "call_ref _ = None"

definition minted_ids :: "(goal_env \<times> goal_call) list \<Rightarrow> string set" where
  "minted_ids calls = (\<lambda>c. ''goal-'' @ ge_uuid (fst c)) ` set calls"

lemma sound_without: "sound_result Q env st s r \<Longrightarrow> sound_result Q env st s (without_value r)"
  by (auto simp: sound_result_def without_value_def)

lemma sound_ref_call:
  assumes "healthy_in st s" "sane_env env" "int (length (gx_log s)) < max_safe_integer" "call_ref call = Some ref"
  shows "sound_result (advances ref) env st s (run_goal rounds env call s)"
  using assms(4)
  by (cases call) (simp_all add: sound_without sound_edit sound_pause sound_resume sound_complete sound_block
      sound_clear assms(1-3))

lemma seen_after:
  assumes "applyGoalChange st c = Inr st'"
  shows "set (gf_seenGoalIds st') \<subseteq> set (gf_seenGoalIds st) \<union>
    (if operation_of c = OpCreate then {gr_id (goalChangeRef c)} else {})"
proof (cases c)
  case (Tombstone ref t)
  with assms show ?thesis using applyGoalChange_tombstone by fastforce
next
  case (Snapshot d)
  with assms obtain seen where "admit_snapshot st d = Inr seen" "gf_seenGoalIds st' = seen"
    by (auto simp: applyGoalChange_snapshot)
  then show ?thesis
    by (cases rule: admit_snapshot_cases) (use Snapshot in \<open>auto simp: operation_of_def snapshot_ref_def\<close>)
qed

text \<open>Sound results keep the session healthy, and mint no identity but the one of a create.\<close>

definition keeps :: "goal_fold_state \<Rightarrow> goal_session \<Rightarrow> goal_session \<Rightarrow> string set \<Rightarrow> bool" where
  "keeps st s s' ids \<longleftrightarrow> (\<exists>st'. healthy_in st' s' \<and> length (gx_log s') \<le> Suc (length (gx_log s))
     \<and> set (gf_seenGoalIds st') \<subseteq> set (gf_seenGoalIds st) \<union> ids \<and> (\<exists>es. gx_log s' = gx_log s @ es))"

lemma sound_keeps:
  assumes "healthy_in st s" "sound_result Q env st s r"
    and "\<And>c. Q c \<Longrightarrow> operation_of c = OpCreate \<Longrightarrow> gr_id (goalChangeRef c) \<in> ids"
  shows "keeps st s (fst r) ids"
  using assms(2) [unfolded sound_result_def]
proof (elim disjE exE conjE)
  fix err assume "fst r = s"
  with assms(1) show ?thesis unfolding keeps_def by (intro exI [of _ st]) auto
next
  fix st' c v assume at: "healthy_in st' (fst r)" "gx_log (fst r) = appended env c s" "applyGoalChange st c = Inr st'" "Q c"
  with seen_after [OF at(3)] assms(3) [OF at(4)] show ?thesis unfolding keeps_def
    by (intro exI [of _ st']) (auto simp: appended_def split: if_splits)
qed

lemma disarm_healthy:
  assumes "healthy_in st s"
  shows "healthy_in st (s\<lparr>gx_activation := Disarmed\<rparr>)"
  using assms by (simp add: healthy_in_def)

lemma run_goal_keeps:
  assumes h: "healthy_in st s" and sane: "sane_call (env, call)" and short: "int (length (gx_log s)) < max_safe_integer"
    and fresh: "''goal-'' @ ge_uuid env \<notin> set (gf_seenGoalIds st)"
  shows "keeps st s (fst (run_goal rounds env call s)) {''goal-'' @ ge_uuid env}"
proof (cases "call_ref call")
  case (Some ref)
  from sane have env: "sane_env env" by (simp add: sane_call_def)
  show ?thesis using sound_keeps [OF h sound_ref_call [OF h env short Some]] by (simp add: advances_def)
next
  case None
  have kept: "keeps st s s' ids" if "healthy_in st s'" "gx_log s' = gx_log s" for s' ids
    using that unfolding keeps_def by (intro exI [of _ st]) auto
  from sane have env: "sane_env env" by (simp add: sane_call_def)
  show ?thesis
  proof (cases call)
    case (CreateCall objective cap)
    with sound_keeps [OF h sound_without [OF sound_create [OF h env fresh]]] show ?thesis by (simp add: creates_def)
  next
    case DisarmCall
    have "fst (goal_disarm env s) \<in> {s, s\<lparr>gx_activation := Disarmed\<rparr>}"
      by (cases "goal_state (s\<lparr>gx_activation := Disarmed\<rparr>)") (simp_all add: goal_disarm_def)
    with DisarmCall h disarm_healthy [OF h] show ?thesis by (auto simp: without_value_def intro!: kept)
  next
    case SessionStart
    with disarm_healthy [OF h] show ?thesis by (simp add: session_start_def kept)
  next
    case (OtherAppend d)
    let ?e = "log_event (length (gx_log s)) (ge_now env) d"
    have other: "\<not> goal_owned ?e" using sane OtherAppend by (simp add: sane_call_def goal_owned_def)
    then have "on_session_event ?e s' = s'" for s'
      by (cases d) (simp_all add: on_session_event_def goal_owned_def)
    then have app: "session_append env d s = s\<lparr>gx_log := gx_log s @ [?e]\<rparr>" by (simp add: session_append_def Let_def)
    have "healthy_in st (session_append env d s)"
      using h applyGoalEvent_other [OF other] by (fastforce simp: app healthy_in_def fold_res_snoc)
    with OtherAppend app show ?thesis unfolding keeps_def by (intro exI [of _ st]) auto
  qed (use None in simp_all)
qed

lemma run_goals_keeps:
  assumes "list_all sane_call calls" "distinct (map (\<lambda>c. ge_uuid (fst c)) calls)" "int (length calls) < max_safe_integer"
  shows "\<exists>st. healthy_in st (run_goals rounds calls new_goal_session)
    \<and> length (gx_log (run_goals rounds calls new_goal_session)) \<le> length calls
    \<and> set (gf_seenGoalIds st) \<subseteq> minted_ids calls"
  using assms
proof (induction calls rule: rev_induct)
  case Nil
  have "healthy_in emptyGoalFoldState new_goal_session"
    by (simp add: healthy_in_def new_goal_session_def emptyGoalFoldState_def)
  then show ?case
    by (auto simp: run_goals_def new_goal_session_def minted_ids_def emptyGoalFoldState_def intro!: exI [of _ emptyGoalFoldState])
next
  case (snoc c calls)
  obtain env call where c: "c = (env, call)" by (cases c)
  define s where "s = run_goals rounds calls new_goal_session"
  obtain st where h: "healthy_in st s" and len: "length (gx_log s) \<le> length calls"
    and seen: "set (gf_seenGoalIds st) \<subseteq> minted_ids calls"
    using snoc by (auto simp: s_def)
  have "''goal-'' @ ge_uuid env \<notin> minted_ids calls" using snoc.prems(2) c by (auto simp: minted_ids_def)
  with seen have fresh: "''goal-'' @ ge_uuid env \<notin> set (gf_seenGoalIds st)" by blast
  have "sane_call (env, call)" "int (length (gx_log s)) < max_safe_integer" using snoc.prems c len by simp_all
  from run_goal_keeps [OF h this fresh, of rounds] obtain st' where "healthy_in st' (fst (run_goal rounds env call s))"
    "length (gx_log (fst (run_goal rounds env call s))) \<le> Suc (length (gx_log s))"
    "set (gf_seenGoalIds st') \<subseteq> set (gf_seenGoalIds st) \<union> {''goal-'' @ ge_uuid env}" unfolding keeps_def by blast
  moreover have "run_goals rounds (calls @ [c]) new_goal_session = fst (run_goal rounds env call s)"
    by (simp add: run_goals_def s_def c)
  ultimately show ?case using len seen by (intro exI [of _ st']) (auto simp: minted_ids_def c)
qed

lemma run_goals_snoc: "run_goals rounds (calls @ [(env, call)]) s = fst (run_goal rounds env call (run_goals rounds calls s))"
  by (simp add: run_goals_def)

lemma run_goals_extend:
  assumes "list_all sane_call (calls @ later)" "distinct (map (\<lambda>c. ge_uuid (fst c)) (calls @ later))"
    "int (length (calls @ later)) < max_safe_integer"
  shows "\<exists>es. gx_log (run_goals rounds (calls @ later) new_goal_session) = gx_log (run_goals rounds calls new_goal_session) @ es"
  using assms
proof (induction later rule: rev_induct)
  case (snoc c later)
  obtain env call where c: "c = (env, call)" by (cases c)
  let ?calls = "calls @ later"
  have pre: "list_all sane_call ?calls" "distinct (map (\<lambda>c. ge_uuid (fst c)) ?calls)" "int (length ?calls) < max_safe_integer"
    using snoc.prems by simp_all
  from run_goals_keeps [OF this, of rounds] obtain st where st: "healthy_in st (run_goals rounds ?calls new_goal_session)"
    "length (gx_log (run_goals rounds ?calls new_goal_session)) \<le> length ?calls" "set (gf_seenGoalIds st) \<subseteq> minted_ids ?calls" by blast
  have "''goal-'' @ ge_uuid env \<notin> minted_ids ?calls" using snoc.prems(2) c by (auto simp: minted_ids_def)
  with st(3) have "''goal-'' @ ge_uuid env \<notin> set (gf_seenGoalIds st)" by blast
  moreover have "sane_call (env, call)" "int (length (gx_log (run_goals rounds ?calls new_goal_session))) < max_safe_integer"
    using snoc.prems(1,3) st(2) c by simp_all
  ultimately obtain es where "gx_log (run_goals rounds (?calls @ [c]) new_goal_session)
      = gx_log (run_goals rounds ?calls new_goal_session) @ es"
    using run_goal_keeps [OF st(1)] unfolding c run_goals_snoc keeps_def by blast
  with snoc.IH [OF pre] show ?case by auto
qed simp

section \<open>Properties\<close>


definition plain_env :: "int \<Rightarrow> string \<Rightarrow> goal_env" where
  "plain_env now i = \<lparr>ge_now = now, ge_uuid = i, ge_live = True, ge_admits = (\<lambda>es v. True)\<rparr>"

definition first_ref :: "goal_ref" where
  "first_ref = \<lparr>gr_id = ''goal-a'', gr_revision = 1\<rparr>"

definition sample_goal_calls :: "(goal_env \<times> goal_call) list" where
  "sample_goal_calls =
     [(plain_env 7 ''a'', CreateCall (JStr '' ship '') JUndef),
      (plain_env 6 ''b'', EditCall first_ref JUndef (JNum (js_int 3))),
      (plain_env 9 ''c'', PauseCall first_ref),
      (plain_env 9 ''d'', OtherAppend (TurnStart 1))]"

lemma sample_goal_calls_sane:
  "list_all sane_call sample_goal_calls \<and> distinct (map (\<lambda>c. ge_uuid (fst c)) sample_goal_calls)
   \<and> int (length sample_goal_calls) < max_safe_integer"
  by (simp add: sample_goal_calls_def sane_call_def sane_env_def plain_env_def goal_owned_def safe_int_def
      max_safe_integer_def)


text \<open>C22: A goal reference is good for one mutation only: once some operation succeeded with it, then after
  any further calls every operation given the same reference is rejected, as stale or for want of a current
  goal, and leaves the session as it was.\<close>

theorem used_reference_rejected:
  assumes "list_all sane_call (calls @ (env, call) # later)"
    and "distinct (map (\<lambda>c. ge_uuid (fst c)) (calls @ (env, call) # later))"
    and "int (length (calls @ (env, call) # later)) < max_safe_integer"
    and "call_ref call = Some ref"
    and "snd (run_goal rounds env call (run_goals rounds calls new_goal_session)) = Inr ()"
    and "call_ref call' = Some ref" and "ge_live env'"
  shows "let s = run_goals rounds (calls @ (env, call) # later) new_goal_session in
    \<exists>err \<in> {GoalNotFound, StaleRevision}. run_goal rounds env' call' s = (s, Inl err)"
proof -
  let ?before = "run_goals rounds calls new_goal_session"
  define s where "s = run_goals rounds (calls @ (env, call) # later) new_goal_session"
  obtain st where h: "healthy_in st s" using run_goals_keeps [OF assms(1-3), of rounds] by (auto simp: s_def)
  have pre: "list_all sane_call calls" "distinct (map (\<lambda>c. ge_uuid (fst c)) calls)" "int (length calls) < max_safe_integer"
    "sane_env env" using assms(1-3) by (auto simp: sane_call_def)
  obtain st0 where h0: "healthy_in st0 ?before" "length (gx_log ?before) \<le> length calls"
    using run_goals_keeps [OF pre(1-3), of rounds] by blast
  with pre(3) have "int (length (gx_log ?before)) < max_safe_integer" by simp
  from sound_ref_call [OF h0(1) pre(4) this assms(4), of rounds] assms(5) obtain c where c: "wf_change c"
    "advances ref c" "gx_log (fst (run_goal rounds env call ?before)) = appended env c ?before"
    by (auto simp: sound_result_def)
  obtain es where "gx_log s = appended env c ?before @ es"
    using run_goals_extend [of "calls @ [(env, call)]" later rounds] assms(1-3) c(3)
    by (auto simp: s_def run_goals_snoc)
  then have used: "gr_revision ref + 1 \<in> set (revisions (gr_id ref) (gx_log s))"
    using c(1,2) by (simp add: appended_def revisions_append) (simp add: revisions_def decode_change_value advances_def)
  have "current_for env' ref s \<noteq> Inr p" for p
  proof
    assume "current_for env' ref s = Inr p"
    from current_for_Inr [OF h this] obtain g where g: "gf_goal st = Some g" "ref = snapshot_ref g" by metis
    have "history (gx_log s) st" using h by (simp add: healthy_in_def fold_history)
    then obtain n m where "revisions (gr_id ref) (gx_log s) = [1..n]" "n = gs_revision g"
      by (rule historyE [of _ _ "gr_id ref"]) (use g in \<open>auto simp: snapshot_ref_def\<close>)
    with used g show False by (simp add: snapshot_ref_def)
  qed
  then obtain err where err: "current_for env' ref s = Inl err" by (cases "current_for env' ref s") auto
  moreover have "err \<in> {GoalNotFound, StaleRevision}" using err assms(7)
    by (auto simp: current_for_def prepareMutation_def healthy_state [OF h] expectCurrent_def split: option.splits if_splits)
  moreover have "run_goal rounds env' call' s = (s, Inl err)"
    using assms(6) err by (cases call') (simp_all add: without_value_def goal_edit_def goal_pause_def goal_resume_def
        goal_complete_def goal_block_def goal_clear_def transition_def)
  ultimately show ?thesis unfolding s_def [symmetric] Let_def by blast
qed

theorem used_reference_rejected_witness:
  "\<exists>err \<in> {GoalNotFound, StaleRevision}.
     run_goal 256 (plain_env 20 ''z'') (ClearCall first_ref) (run_goals 256 sample_goal_calls new_goal_session)
       = (run_goals 256 sample_goal_calls new_goal_session, Inl err)"
proof -
  obtain env call where c: "sample_goal_calls ! 1 = (env, call)" by (cases "sample_goal_calls ! 1")
  have "sample_goal_calls = [hd sample_goal_calls] @ sample_goal_calls ! 1 # drop 2 sample_goal_calls"
    by (simp add: sample_goal_calls_def)
  then have eq: "[hd sample_goal_calls] @ (env, call) # drop 2 sample_goal_calls = sample_goal_calls"
    unfolding c by (rule sym)
  have "call_ref (snd (sample_goal_calls ! 1)) = Some first_ref"
    "snd (case sample_goal_calls ! 1 of (env, call) \<Rightarrow>
       run_goal 256 env call (run_goals 256 [hd sample_goal_calls] new_goal_session)) = Inr ()" by code_simp+
  then have "call_ref call = Some first_ref"
    "snd (run_goal 256 env call (run_goals 256 [hd sample_goal_calls] new_goal_session)) = Inr ()"
    unfolding c by simp_all
  with used_reference_rejected [of "[hd sample_goal_calls]" env call "drop 2 sample_goal_calls" first_ref 256
      "ClearCall first_ref" "plain_env 20 ''z''", unfolded eq] sample_goal_calls_sane
  show ?thesis unfolding Let_def by (simp add: plain_env_def del: run_goal.simps)
qed

end
