(* ===== verification/Projection_Registry.thy ===== *)
theory Projection_Registry
  imports Session_Log "HOL-Library.AList"
begin

text \<open>
  The session projection registry, \<^verbatim>\<open>packages/session/session-projection/src/index.ts\<close>: projection units
  (a pure fold with a schema, an optional client view, and a version), one watermarked cell per unit and
  session, the eager drive on committed events, the lazy reads, and the checkpoints from which a
  stored log is resumed.

  States and views are values of a type \<open>'v\<close> that stands for the JavaScript values with their object
  identity, so that \<open>Object.is\<close> is equality. A unit's functions are its parameters; \<open>apply\<close> and the schemas
  may throw. \<open>structuredClone\<close> keeps the value.
\<close>

section \<open>Units\<close>

record ('h, 'v) projection_unit =
  pu_key :: string
  pu_parse :: "'v \<Rightarrow> 'v option"
  pu_init :: "'h \<Rightarrow> nat \<Rightarrow> 'v"
  pu_apply :: "'v \<Rightarrow> session_event \<Rightarrow> string + 'v"
  pu_wire :: "(('v \<Rightarrow> 'v option) \<times> ('v \<Rightarrow> 'v)) option"  \<comment> \<open>view schema, view\<close>
  pu_stateVersion :: js_number

record 'v unit_cell =
  uc_state :: 'v
  uc_observedSeq :: int
  uc_views :: "'v option \<times> 'v option"

text \<open>Cells are keyed by the session object.\<close>

record ('h, 'v) registration =
  rg_def :: "('h, 'v) projection_unit"
  rg_cells :: "(nat \<times> 'v unit_cell) list"
  rg_refs :: nat

record 'v change_notice =
  cn_listener :: nat
  cn_session :: nat
  cn_key :: string
  cn_value :: 'v
  cn_seq :: nat

record ('h, 'v) registry =
  pr_registrations :: "('h, 'v) registration list"
  pr_listeners :: "nat list"
  pr_feed :: "'v change_notice list"

text \<open>What the registry reads of a session: its identity, header, inherited prefix and log.\<close>

record 'h live_session =
  ls_id :: nat
  ls_header :: 'h
  ls_inheritedEventCount :: nat
  ls_log :: "session_event list"

datatype projection_error =
    ApplyThrew string | SchemaThrew string | BadVersion | VersionConflict | MissingSeq int | CannotRestore string
  | NoWireView

definition cursorBefore :: "nat \<Rightarrow> int" where
  "cursorBefore offset = (if offset = 0 then - 1 else int (offset - 1))"

definition rg_key :: "('h, 'v) registration \<Rightarrow> string" where
  "rg_key r = pu_key (rg_def r)"

definition cell_of :: "nat \<Rightarrow> ('h, 'v) registration \<Rightarrow> 'v unit_cell option" where
  "cell_of sid r = map_of (rg_cells r) sid"

definition set_cell :: "nat \<Rightarrow> 'v unit_cell \<Rightarrow> ('h, 'v) registration \<Rightarrow> ('h, 'v) registration" where
  "set_cell sid c r = r\<lparr>rg_cells := AList.update sid c (rg_cells r)\<rparr>"

definition apply_unit :: "('h, 'v) projection_unit \<Rightarrow> 'v \<Rightarrow> session_event \<Rightarrow> projection_error + 'v" where
  "apply_unit u v e = (case pu_apply u v e of Inl m \<Rightarrow> Inl (ApplyThrew m) | Inr w \<Rightarrow> Inr w)"

section \<open>Cells\<close>

definition last_seq :: "session_event list \<Rightarrow> int" where
  "last_seq events = (if events = [] then - 1 else int (ev_seq (last events)))"

definition buildCell ::
    "('h, 'v) projection_unit \<Rightarrow> 'h \<Rightarrow> nat \<Rightarrow> session_event list \<Rightarrow> projection_error + 'v unit_cell" where
  "buildCell u header inherited events =
     bind_res (fold_res (apply_unit u) (pu_init u header inherited) events) (\<lambda>v.
       Inr \<lparr>uc_state = v, uc_observedSeq = last_seq events, uc_views = (None, None)\<rparr>)"

text \<open>\<open>session.eventAt\<close>.\<close>

definition log_at :: "session_event list \<Rightarrow> int \<Rightarrow> session_event option" where
  "log_at es k = (if 0 \<le> k \<and> k < int (length es) then Some (es ! nat k) else None)"

definition advance_one ::
    "('h, 'v) projection_unit \<Rightarrow> session_event list \<Rightarrow> 'v unit_cell \<Rightarrow> int \<Rightarrow> projection_error + 'v unit_cell" where
  "advance_one u es c k = (case log_at es k of
     None \<Rightarrow> Inl (MissingSeq k)
   | Some e \<Rightarrow>
      (if int (ev_seq e) \<noteq> k then Inl (MissingSeq k)
       else bind_res (apply_unit u (uc_state c) e) (\<lambda>v.
         Inr \<lparr>uc_state = v, uc_observedSeq = k,
              uc_views = (if v \<noteq> uc_state c then (snd (uc_views c), None) else uc_views c)\<rparr>)))"

text \<open>The loop keeps the cell as far as it got when it throws.\<close>

fun advance_loop ::
    "('h, 'v) projection_unit \<Rightarrow> session_event list \<Rightarrow> 'v unit_cell \<Rightarrow> int list \<Rightarrow> 'v unit_cell \<times> (projection_error + unit)" where
  "advance_loop u es c [] = (c, Inr ())"
| "advance_loop u es c (k # ks) = (case advance_one u es c k of
     Inl err \<Rightarrow> (c, Inl err) | Inr c' \<Rightarrow> advance_loop u es c' ks)"

definition advanceCell ::
    "('h, 'v) projection_unit \<Rightarrow> session_event list \<Rightarrow> int \<Rightarrow> 'v unit_cell \<Rightarrow> 'v unit_cell \<times> (projection_error + unit)" where
  "advanceCell u es through c =
     (if uc_observedSeq c \<ge> through then (c, Inr ()) else advance_loop u es c [uc_observedSeq c + 1..through])"

definition cellFor ::
    "'h live_session \<Rightarrow> ('h, 'v) registration \<Rightarrow> ('h, 'v) registration \<times> (projection_error + 'v unit_cell)" where
  "cellFor ps r = (case cell_of (ls_id ps) r of
     None \<Rightarrow> checked (buildCell (rg_def r) (ls_header ps) (ls_inheritedEventCount ps) (ls_log ps))
       (\<lambda>c r. (set_cell (ls_id ps) c r, Inr c)) r
   | Some c \<Rightarrow> (case advanceCell (rg_def r) (ls_log ps) (cursorBefore (length (ls_log ps))) c of
       (c', res) \<Rightarrow> (set_cell (ls_id ps) c' r, map_sum id (\<lambda>_. c') res)))"

section \<open>Loops over the registrations\<close>

text \<open>A loop whose body may change its registration and returns a value; the first throw ends it.\<close>

fun each_registration ::
    "(('h, 'v) registration \<Rightarrow> ('h, 'v) registration \<times> ('e + 'a)) \<Rightarrow> ('h, 'v) registration list
     \<Rightarrow> ('h, 'v) registration list \<times> ('e + 'a list)" where
  "each_registration f [] = ([], Inr [])"
| "each_registration f (r # rs) = (case f r of
     (r', Inl err) \<Rightarrow> (r' # rs, Inl err)
   | (r', Inr a) \<Rightarrow> (case each_registration f rs of (rs', res) \<Rightarrow> (r' # rs', map_sum id (Cons a) res)))"

definition materializeCells ::
    "'h live_session \<Rightarrow> ('h, 'v) registration list \<Rightarrow> ('h, 'v) registration list \<times> (projection_error + 'v unit_cell list)" where
  "materializeCells ps rs = each_registration (cellFor ps) rs"

definition viewCell :: "('h, 'v) registration \<Rightarrow> 'v unit_cell \<Rightarrow> projection_error + 'v" where
  "viewCell r c = (case pu_wire (rg_def r) of
     None \<Rightarrow> Inl NoWireView
   | Some (parse, view) \<Rightarrow> (case parse (view (uc_state c)) of None \<Rightarrow> Inl (SchemaThrew (rg_key r)) | Some v \<Rightarrow> Inr v))"

section \<open>Registration\<close>

definition session_created :: "'h live_session \<Rightarrow> ('h, 'v) registry \<Rightarrow> ('h, 'v) registry" where
  "session_created ps pr =
     (if length (ls_log ps) \<noteq> 0 then pr
      else pr\<lparr>pr_registrations := map (\<lambda>r. if cell_of (ls_id ps) r \<noteq> None then r
        else set_cell (ls_id ps) \<lparr>uc_state = pu_init (rg_def r) (ls_header ps) (ls_inheritedEventCount ps),
               uc_observedSeq = - 1, uc_views = (None, None)\<rparr> r) (pr_registrations pr)\<rparr>)"

definition find_registration :: "string \<Rightarrow> ('h, 'v) registry \<Rightarrow> ('h, 'v) registration option" where
  "find_registration key pr = find (\<lambda>r. rg_key r = key) (pr_registrations pr)"

definition register ::
    "('h, 'v) projection_unit \<Rightarrow> ('h, 'v) registry \<Rightarrow> ('h, 'v) registry \<times> (projection_error + unit)" where
  "register u pr =
     (if \<not> is_safe_integer (pu_stateVersion u) \<or> int_of_number (pu_stateVersion u) < 0 then (pr, Inl BadVersion)
      else case find_registration (pu_key u) pr of
        None \<Rightarrow> (pr\<lparr>pr_registrations := pr_registrations pr @ [\<lparr>rg_def = u, rg_cells = [], rg_refs = 1\<rparr>]\<rparr>, Inr ())
      | Some r \<Rightarrow>
         (if \<not> number_eq (pu_stateVersion (rg_def r)) (pu_stateVersion u) then (pr, Inl VersionConflict)
          else (pr\<lparr>pr_registrations := map (\<lambda>r. if rg_key r = pu_key u then r\<lparr>rg_refs := rg_refs r + 1\<rparr> else r)
                     (pr_registrations pr)\<rparr>, Inr ())))"

text \<open>The disposer of one successful registration of the key.\<close>

definition unregister :: "string \<Rightarrow> ('h, 'v) registry \<Rightarrow> ('h, 'v) registry" where
  "unregister key pr = (case find_registration key pr of
     None \<Rightarrow> pr
   | Some live \<Rightarrow>
      (if rg_refs live - 1 = 0 then pr\<lparr>pr_registrations := filter (\<lambda>r. rg_key r \<noteq> key) (pr_registrations pr)\<rparr>
       else pr\<lparr>pr_registrations := map (\<lambda>r. if rg_key r = key then r\<lparr>rg_refs := rg_refs r - 1\<rparr> else r)
              (pr_registrations pr)\<rparr>))"

definition onChanged :: "nat \<Rightarrow> ('h, 'v) registry \<Rightarrow> ('h, 'v) registry" where
  "onChanged l pr = pr\<lparr>pr_listeners := (if l \<in> set (pr_listeners pr) then pr_listeners pr else pr_listeners pr @ [l])\<rparr>"

definition stop_listening :: "nat \<Rightarrow> ('h, 'v) registry \<Rightarrow> ('h, 'v) registry" where
  "stop_listening l pr = pr\<lparr>pr_listeners := filter (\<lambda>k. k \<noteq> l) (pr_listeners pr)\<rparr>"

section \<open>Eager drive\<close>

text \<open>The cell of a registration just before the event is applied.\<close>

definition cell_before ::
    "'h live_session \<Rightarrow> session_event \<Rightarrow> ('h, 'v) registration \<Rightarrow> ('h, 'v) registration \<times> (projection_error + 'v unit_cell)" where
  "cell_before ps e r = (case cell_of (ls_id ps) r of
     None \<Rightarrow> checked (buildCell (rg_def r) (ls_header ps) (ls_inheritedEventCount ps) (take (ev_seq e) (ls_log ps)))
       (\<lambda>c r. (set_cell (ls_id ps) c r, Inr c)) r
   | Some c \<Rightarrow> (case advanceCell (rg_def r) (ls_log ps) (int (ev_seq e) - 1) c of
       (c', res) \<Rightarrow> (set_cell (ls_id ps) c' r, map_sum id (\<lambda>_. c') res)))"

text \<open>The applied cell, and the value to publish when the view changed.\<close>

definition drive_views ::
    "bool \<Rightarrow> (('v \<Rightarrow> 'v option) \<times> ('v \<Rightarrow> 'v)) option \<Rightarrow> 'v \<Rightarrow> bool \<Rightarrow> 'v option \<times> 'v option
     \<Rightarrow> ('v option \<times> 'v option) \<times> 'v option option" where
  "drive_views listening wire v changed views = (case wire of
     Some (parse, view) \<Rightarrow>
       (if \<not> changed then (views, None)
        else if listening then
          ((snd views, Some (view v)), if snd views \<noteq> Some (view v) then Some (parse (view v)) else None)
        else ((snd views, None), None))
   | None \<Rightarrow> (views, None))"

definition drive_cell ::
    "bool \<Rightarrow> 'h live_session \<Rightarrow> session_event \<Rightarrow> ('h, 'v) registration \<Rightarrow> ('h, 'v) registration \<times> (projection_error + 'v option)" where
  "drive_cell listening ps e r =
     then_run (cell_before ps e r) (\<lambda>c r.
       checked (apply_unit (rg_def r) (uc_state c) e) (\<lambda>v r.
         (case drive_views listening (pu_wire (rg_def r)) v (v \<noteq> uc_state c) (uc_views c) of
            (views, published) \<Rightarrow>
              (set_cell (ls_id ps) \<lparr>uc_state = v, uc_observedSeq = int (ev_seq e), uc_views = views\<rparr> r,
               case published of
                 None \<Rightarrow> Inr None
               | Some None \<Rightarrow> Inl (SchemaThrew (rg_key r))
               | Some (Some w) \<Rightarrow> Inr (Some w)))) r)"

definition drive_registration ::
    "bool \<Rightarrow> 'h live_session \<Rightarrow> session_event \<Rightarrow> ('h, 'v) registration \<Rightarrow> ('h, 'v) registration \<times> (projection_error + 'v option)" where
  "drive_registration listening ps e r = (case cell_of (ls_id ps) r of
     Some c \<Rightarrow> if uc_observedSeq c \<ge> int (ev_seq e) then (r, Inr None) else drive_cell listening ps e r
   | None \<Rightarrow> drive_cell listening ps e r)"

definition notices ::
    "nat list \<Rightarrow> 'h live_session \<Rightarrow> session_event \<Rightarrow> string \<Rightarrow> 'v option \<Rightarrow> 'v change_notice list" where
  "notices ls ps e key published = (case published of
     None \<Rightarrow> []
   | Some w \<Rightarrow> map (\<lambda>l. \<lparr>cn_listener = l, cn_session = ls_id ps, cn_key = key, cn_value = w, cn_seq = ev_seq e\<rparr>) ls)"

text \<open>The loop over the registrations; what was published before a throw stays published.\<close>

fun drive_loop ::
    "nat list \<Rightarrow> 'h live_session \<Rightarrow> session_event \<Rightarrow> ('h, 'v) registration list
     \<Rightarrow> ('h, 'v) registration list \<times> 'v change_notice list \<times> (projection_error + unit)" where
  "drive_loop ls ps e [] = ([], [], Inr ())"
| "drive_loop ls ps e (r # rs) = (case drive_registration (ls \<noteq> []) ps e r of
     (r', Inl err) \<Rightarrow> (r' # rs, [], Inl err)
   | (r', Inr published) \<Rightarrow> (case drive_loop ls ps e rs of
       (rs', ns, res) \<Rightarrow> (r' # rs', notices ls ps e (rg_key r) published @ ns, res)))"

definition drive ::
    "'h live_session \<Rightarrow> session_event \<Rightarrow> ('h, 'v) registry \<Rightarrow> ('h, 'v) registry \<times> (projection_error + unit)" where
  "drive ps e pr = (case drive_loop (pr_listeners pr) ps e (pr_registrations pr) of
     (rs, ns, res) \<Rightarrow> (pr\<lparr>pr_registrations := rs, pr_feed := pr_feed pr @ ns\<rparr>, res))"

section \<open>Reads\<close>

definition with_registrations ::
    "('h, 'v) registry \<Rightarrow> ('h, 'v) registration list \<times> ('e + 'a) \<Rightarrow> ('h, 'v) registry \<times> ('e + 'a)" where
  "with_registrations pr r = (pr\<lparr>pr_registrations := fst r\<rparr>, snd r)"

definition stateOf ::
    "'h live_session \<Rightarrow> string \<Rightarrow> ('h, 'v) registry \<Rightarrow> ('h, 'v) registry \<times> (projection_error + 'v option)" where
  "stateOf ps key pr = (if find_registration key pr = None then (pr, Inr None)
     else then_run (with_registrations pr (materializeCells ps (pr_registrations pr))) (\<lambda>_ pr.
       case find_registration key pr of
         None \<Rightarrow> (pr, Inr None)
       | Some r \<Rightarrow> (pr, map_sum id (\<lambda>c. Some (uc_state c)) (snd (cellFor ps r)))))"

definition selected :: "string list option \<Rightarrow> string \<Rightarrow> bool" where
  "selected wanted key = (case wanted of None \<Rightarrow> True | Some ks \<Rightarrow> key \<in> set ks)"

text \<open>The loop over client-visible registrations; the values are those of the selected keys.\<close>

definition view_registration ::
    "'h live_session \<Rightarrow> string list option \<Rightarrow> ('h, 'v) registration
     \<Rightarrow> ('h, 'v) registration \<times> (projection_error + (string \<times> 'v) option)" where
  "view_registration ps wanted r =
     (if pu_wire (rg_def r) = None \<or> \<not> selected wanted (rg_key r) then (r, Inr None)
      else then_run (cellFor ps r) (\<lambda>c r. (r, map_sum id (\<lambda>v. Some (rg_key r, v)) (viewCell r c))))"

definition present :: "'a option list \<Rightarrow> 'a list" where
  "present xs = map the (filter (\<lambda>x. x \<noteq> None) xs)"

record 'v projection_snapshot =
  sn_asOfSeq :: int
  sn_values :: "(string \<times> 'v) list"

definition snapshot ::
    "'h live_session \<Rightarrow> string list option \<Rightarrow> ('h, 'v) registry \<Rightarrow> ('h, 'v) registry \<times> (projection_error + 'v projection_snapshot)" where
  "snapshot ps wanted pr =
     then_run (with_registrations pr (materializeCells ps (pr_registrations pr))) (\<lambda>_ pr.
     then_run (with_registrations pr (each_registration (view_registration ps wanted) (pr_registrations pr))) (\<lambda>vs pr.
       (pr, Inr \<lparr>sn_asOfSeq = cursorBefore (length (ls_log ps)), sn_values = present vs\<rparr>)))"

text \<open>Materialized client-visible cells only: the lowest cut among them, and their views.\<close>

fun cached_loop ::
    "nat \<Rightarrow> string list option \<Rightarrow> ('h, 'v) registration list \<Rightarrow> int option \<Rightarrow> (string \<times> 'v) list
     \<Rightarrow> projection_error + 'v projection_snapshot option" where
  "cached_loop sid wanted [] asOf values = Inr (map_option (\<lambda>k. \<lparr>sn_asOfSeq = k, sn_values = values\<rparr>) asOf)"
| "cached_loop sid wanted (r # rs) asOf values =
     (if pu_wire (rg_def r) = None \<or> \<not> selected wanted (rg_key r) then cached_loop sid wanted rs asOf values
      else case cell_of sid r of
        None \<Rightarrow> cached_loop sid wanted rs asOf values
      | Some c \<Rightarrow> bind_res (viewCell r c) (\<lambda>v.
          cached_loop sid wanted rs
            (Some (case asOf of None \<Rightarrow> uc_observedSeq c | Some k \<Rightarrow> if uc_observedSeq c < k then uc_observedSeq c else k))
            (values @ [(rg_key r, v)])))"

definition cachedSnapshot ::
    "'h live_session \<Rightarrow> string list option \<Rightarrow> ('h, 'v) registry \<Rightarrow> projection_error + 'v projection_snapshot option" where
  "cachedSnapshot ps wanted pr = cached_loop (ls_id ps) wanted (pr_registrations pr) None []"

section \<open>Checkpoints\<close>

record 'v checkpoint_row =
  cr_ver :: js_number
  cr_seq :: int
  cr_val :: 'v

definition checkpoint_registration ::
    "'h live_session \<Rightarrow> ('h, 'v) registration
     \<Rightarrow> ('h, 'v) registration \<times> (projection_error + (string \<times> 'v checkpoint_row))" where
  "checkpoint_registration ps r = then_run (cellFor ps r) (\<lambda>c r.
     (r, Inr (rg_key r, \<lparr>cr_ver = pu_stateVersion (rg_def r), cr_seq = uc_observedSeq c, cr_val = uc_state c\<rparr>)))"

definition checkpoint ::
    "'h live_session \<Rightarrow> ('h, 'v) registry \<Rightarrow> ('h, 'v) registry \<times> (projection_error + (string \<times> 'v checkpoint_row) list)" where
  "checkpoint ps pr = with_registrations pr (each_registration (checkpoint_registration ps) (pr_registrations pr))"

definition current_row :: "(string \<times> 'v checkpoint_row) list \<Rightarrow> ('h, 'v) projection_unit \<Rightarrow> 'v checkpoint_row option" where
  "current_row cp u = (case map_of cp (pu_key u) of
     None \<Rightarrow> None | Some row \<Rightarrow> if number_eq (cr_ver row) (pu_stateVersion u) then Some row else None)"

definition row_need :: "(string \<times> 'v checkpoint_row) list \<Rightarrow> ('h, 'v) projection_unit \<Rightarrow> nat" where
  "row_need cp u = (case current_row cp u of None \<Rightarrow> 0 | Some row \<Rightarrow> nat (max (cr_seq row + 1) 0))"

fun floor_loop :: "(string \<times> 'v checkpoint_row) list \<Rightarrow> ('h, 'v) registration list \<Rightarrow> nat option \<Rightarrow> nat option" where
  "floor_loop cp [] least = least"
| "floor_loop cp (r # rs) least = floor_loop cp rs
     (Some (case least of None \<Rightarrow> row_need cp (rg_def r) | Some n \<Rightarrow> min n (row_need cp (rg_def r))))"

definition restoreFloor :: "(string \<times> 'v checkpoint_row) list \<Rightarrow> ('h, 'v) registry \<Rightarrow> nat option" where
  "restoreFloor cp pr = map_option (\<lambda>n. n - 1) (floor_loop cp (pr_registrations pr) None)"

definition view_row ::
    "(string \<times> 'v checkpoint_row) list \<Rightarrow> string list option \<Rightarrow> ('h, 'v) registration
     \<Rightarrow> projection_error + (string \<times> 'v) option" where
  "view_row cp wanted r = (case pu_wire (rg_def r) of
     None \<Rightarrow> Inr None
   | Some (parse, view) \<Rightarrow>
      (if \<not> selected wanted (rg_key r) then Inr None
       else case current_row cp (rg_def r) of
         None \<Rightarrow> Inr None
       | Some row \<Rightarrow> (case pu_parse (rg_def r) (cr_val row) of
           None \<Rightarrow> Inr None
         | Some v \<Rightarrow> (case parse (view v) of
             None \<Rightarrow> Inl (SchemaThrew (rg_key r)) | Some w \<Rightarrow> Inr (Some (rg_key r, w))))))"

fun map_res :: "('a \<Rightarrow> 'e + 'b) \<Rightarrow> 'a list \<Rightarrow> 'e + 'b list" where
  "map_res f [] = Inr []"
| "map_res f (x # xs) = bind_res (f x) (\<lambda>y. bind_res (map_res f xs) (\<lambda>ys. Inr (y # ys)))"

definition viewCheckpoint ::
    "(string \<times> 'v checkpoint_row) list \<Rightarrow> string list option \<Rightarrow> ('h, 'v) registry
     \<Rightarrow> projection_error + (string \<times> 'v) list" where
  "viewCheckpoint cp wanted pr = bind_res (map_res (view_row cp wanted) (pr_registrations pr)) (\<lambda>vs. Inr (present vs))"

text \<open>Where a read of the tail ends.\<close>

definition end_seq :: "session_event list \<Rightarrow> nat \<Rightarrow> int" where
  "end_seq events baseSeq = (if events = [] then cursorBefore baseSeq else last_seq events)"

definition usable_row ::
    "(string \<times> 'v checkpoint_row) list \<Rightarrow> session_event list \<Rightarrow> nat \<Rightarrow> ('h, 'v) projection_unit \<Rightarrow> 'v checkpoint_row option" where
  "usable_row cp events baseSeq u = (case current_row cp u of
     None \<Rightarrow> None
   | Some row \<Rightarrow> if cr_seq row \<ge> cursorBefore baseSeq \<and> cr_seq row \<le> end_seq events baseSeq then Some row else None)"

text \<open>The loop over the supplied events from an index on.\<close>

fun restore_events ::
    "('h, 'v) projection_unit \<Rightarrow> session_event list \<Rightarrow> nat \<Rightarrow> 'v \<Rightarrow> int list \<Rightarrow> projection_error + 'v" where
  "restore_events u events baseSeq v [] = Inr v"
| "restore_events u events baseSeq v (i # is) = (case log_at events i of
     None \<Rightarrow> Inl (MissingSeq (int baseSeq + i))
   | Some e \<Rightarrow> (if int (ev_seq e) \<noteq> int baseSeq + i then Inl (MissingSeq (int baseSeq + i))
               else bind_res (apply_unit u v e) (\<lambda>w. restore_events u events baseSeq w is)))"

definition restore_unit ::
    "(string \<times> 'v checkpoint_row) list \<Rightarrow> session_event list \<Rightarrow> nat \<Rightarrow> 'h \<Rightarrow> nat \<Rightarrow> ('h, 'v) projection_unit
     \<Rightarrow> projection_error + 'v" where
  "restore_unit cp events baseSeq header inherited u = (case usable_row cp events baseSeq u of
     None \<Rightarrow> (if baseSeq > 0 then Inl (CannotRestore (pu_key u))
              else restore_events u events baseSeq (pu_init u header inherited)
                [cursorBefore baseSeq - int baseSeq + 1..int (length events) - 1])
   | Some row \<Rightarrow> (case pu_parse u (cr_val row) of
       None \<Rightarrow> Inl (SchemaThrew (pu_key u))
     | Some v \<Rightarrow> restore_events u events baseSeq v [cr_seq row - int baseSeq + 1..int (length events) - 1]))"

definition restore_registration ::
    "(string \<times> 'v checkpoint_row) list \<Rightarrow> session_event list \<Rightarrow> nat \<Rightarrow> 'h \<Rightarrow> nat \<Rightarrow> ('h, 'v) registration
     \<Rightarrow> projection_error + (string \<times> 'v) option \<times> (string \<times> 'v checkpoint_row)" where
  "restore_registration cp events baseSeq header inherited r =
     bind_res (restore_unit cp events baseSeq header inherited (rg_def r)) (\<lambda>v.
     bind_res (case pu_wire (rg_def r) of
         None \<Rightarrow> Inr None
       | Some (parse, view) \<Rightarrow> (case parse (view v) of
           None \<Rightarrow> Inl (SchemaThrew (rg_key r)) | Some w \<Rightarrow> Inr (Some (rg_key r, w)))) (\<lambda>value.
     Inr (value, (rg_key r, \<lparr>cr_ver = pu_stateVersion (rg_def r), cr_seq = end_seq events baseSeq, cr_val = v\<rparr>))))"

definition restore ::
    "(string \<times> 'v checkpoint_row) list \<Rightarrow> session_event list \<Rightarrow> nat \<Rightarrow> 'h \<Rightarrow> nat \<Rightarrow> ('h, 'v) registry
     \<Rightarrow> projection_error + 'v projection_snapshot \<times> (string \<times> 'v checkpoint_row) list" where
  "restore cp events baseSeq header inherited pr =
     bind_res (map_res (restore_registration cp events baseSeq header inherited) (pr_registrations pr)) (\<lambda>rs.
       Inr (\<lparr>sn_asOfSeq = end_seq events baseSeq, sn_values = present (map fst rs)\<rparr>, map snd rs))"

text \<open>Installing the restored states on a prepared session.\<close>

definition install_row ::
    "nat \<Rightarrow> (string \<times> 'v checkpoint_row) list \<Rightarrow> ('h, 'v) registration \<Rightarrow> ('h, 'v) registration" where
  "install_row sid rows r = (case map_of rows (rg_key r) of
     None \<Rightarrow> r
   | Some row \<Rightarrow>
      (if (case cell_of sid r of None \<Rightarrow> False | Some c \<Rightarrow> uc_observedSeq c > cr_seq row) then r
       else set_cell sid \<lparr>uc_state = cr_val row, uc_observedSeq = cr_seq row, uc_views = (None, None)\<rparr> r))"

definition hydrate ::
    "'h live_session \<Rightarrow> (string \<times> 'v checkpoint_row) list \<Rightarrow> session_event list \<Rightarrow> nat \<Rightarrow> ('h, 'v) registry
     \<Rightarrow> ('h, 'v) registry \<times> (projection_error + 'v projection_snapshot)" where
  "hydrate ps cp events baseSeq pr =
     (if \<forall>r \<in> set (pr_registrations pr). map_option uc_observedSeq (cell_of (ls_id ps) r) = Some (end_seq events baseSeq)
      then (pr, bind_res (map_res (\<lambda>r. if pu_wire (rg_def r) = None then Inr None
               else bind_res (viewCell r (the (cell_of (ls_id ps) r))) (\<lambda>v. Inr (Some (rg_key r, v)))) (pr_registrations pr))
             (\<lambda>vs. Inr \<lparr>sn_asOfSeq = end_seq events baseSeq, sn_values = present vs\<rparr>))
      else case restore cp events baseSeq (ls_header ps) (ls_inheritedEventCount ps) pr of
          Inl err \<Rightarrow> (pr, Inl err)
        | Inr (snap, rows) \<Rightarrow>
            (pr\<lparr>pr_registrations := map (install_row (ls_id ps) rows) (pr_registrations pr)\<rparr>, Inr snap))"

section \<open>Cells hold folds of the log\<close>

definition unit_fold ::
    "('h, 'v) projection_unit \<Rightarrow> 'h \<Rightarrow> nat \<Rightarrow> session_event list \<Rightarrow> projection_error + 'v" where
  "unit_fold u header inherited es = fold_res (apply_unit u) (pu_init u header inherited) es"

abbreviation fold_on :: "('h, 'v) projection_unit \<Rightarrow> 'h live_session \<Rightarrow> session_event list \<Rightarrow> projection_error + 'v" where
  "fold_on u ps es \<equiv> unit_fold u (ls_header ps) (ls_inheritedEventCount ps) es"

text \<open>The events up to and including a cursor.\<close>

definition log_upto :: "int \<Rightarrow> session_event list \<Rightarrow> session_event list" where
  "log_upto k es = take (nat (k + 1)) es"

definition cell_ok :: "'h live_session \<Rightarrow> ('h, 'v) projection_unit \<Rightarrow> 'v unit_cell \<Rightarrow> bool" where
  "cell_ok ps u c \<longleftrightarrow> - 1 \<le> uc_observedSeq c \<and> uc_observedSeq c < int (length (ls_log ps))
     \<and> fold_on u ps (log_upto (uc_observedSeq c) (ls_log ps)) = Inr (uc_state c)"

definition reg_ok :: "'h live_session \<Rightarrow> ('h, 'v) registration \<Rightarrow> bool" where
  "reg_ok ps r \<longleftrightarrow> (\<forall>c. cell_of (ls_id ps) r = Some c \<longrightarrow> cell_ok ps (rg_def r) c)"

lemma log_upto_all: "k = int (length es) - 1 \<Longrightarrow> log_upto k es = es"
  by (simp add: log_upto_def)

lemma log_upto_next:
  assumes "log_at es k = Some e"
  shows "log_upto k es = log_upto (k - 1) es @ [e]"
proof -
  from assms have "0 \<le> k" "k < int (length es)" "e = es ! nat k" by (auto simp: log_at_def split: if_splits)
  moreover from this have "nat (k + 1) = Suc (nat k)" by simp
  ultimately show ?thesis by (simp add: log_upto_def take_Suc_conv_app_nth)
qed

lemma contiguous_log_at:
  "contiguous 0 es \<Longrightarrow> log_at es k = Some e \<Longrightarrow> int (ev_seq e) = k"
  by (auto simp: contiguous_def log_at_def split: if_splits)

lemma log_at_iff: "log_at es k = None \<longleftrightarrow> k < 0 \<or> int (length es) \<le> k"
  by (auto simp: log_at_def)

lemma cell_of_set [simp]: "cell_of sid' (set_cell sid c r) = (if sid' = sid then Some c else cell_of sid' r)"
  by (simp add: cell_of_def set_cell_def update_conv')

lemma set_cell_sel [simp]: "rg_def (set_cell sid c r) = rg_def r" "rg_key (set_cell sid c r) = rg_key r"
  by (simp_all add: set_cell_def rg_key_def)

lemma reg_ok_set: "reg_ok ps (set_cell sid c r) \<longleftrightarrow>
    (if ls_id ps = sid then cell_ok ps (rg_def r) c else reg_ok ps r)"
  by (simp add: reg_ok_def)

lemma advance_one_ok:
  assumes "contiguous 0 (ls_log ps)" "cell_ok ps u c" "advance_one u (ls_log ps) c (uc_observedSeq c + 1) = Inr c'"
  shows "cell_ok ps u c' \<and> uc_observedSeq c' = uc_observedSeq c + 1"
proof -
  from assms(3) obtain e v where e: "log_at (ls_log ps) (uc_observedSeq c + 1) = Some e"
    and v: "apply_unit u (uc_state c) e = Inr v" "uc_state c' = v" "uc_observedSeq c' = uc_observedSeq c + 1"
    by (auto simp: advance_one_def res_simps split: option.splits if_splits)
  have "uc_observedSeq c + 1 < int (length (ls_log ps))" using e by (auto simp: log_at_def split: if_splits)
  with assms(2) v log_upto_next [OF e] show ?thesis
    by (simp add: cell_ok_def unit_fold_def fold_res_snoc)
qed

lemma advance_loop_ok:
  assumes "contiguous 0 (ls_log ps)" "cell_ok ps u c" "advance_loop u (ls_log ps) c [uc_observedSeq c + 1..through] = (c', res)"
  shows "cell_ok ps u c' \<and> (res = Inr () \<longrightarrow> uc_observedSeq c' = max (uc_observedSeq c) through)"
  using assms(2,3)
proof (induction "nat (through - uc_observedSeq c)" arbitrary: c)
  case 0
  then show ?case by (simp add: max_def)
next
  case (Suc n)
  then have lt: "uc_observedSeq c < through" by simp
  then have list: "[uc_observedSeq c + 1..through] = (uc_observedSeq c + 1) # [uc_observedSeq c + 1 + 1..through]"
    by (simp add: upto_rec1)
  show ?case
  proof (cases "advance_one u (ls_log ps) c (uc_observedSeq c + 1)")
    case (Inl err)
    with Suc.prems list show ?thesis by auto
  next
    case (Inr c1)
    note ok = advance_one_ok [OF assms(1) Suc.prems(1) Inr]
    have "advance_loop u (ls_log ps) c1 [uc_observedSeq c1 + 1..through] = (c', res)"
      using Suc.prems(2) list Inr ok by simp
    with Suc.hyps(1) [of c1] Suc.hyps(2) ok lt show ?thesis by (simp add: max_def)
  qed
qed

lemma advanceCell_ok:
  assumes "contiguous 0 (ls_log ps)" "cell_ok ps u c" "advanceCell u (ls_log ps) through c = (c', res)"
  shows "cell_ok ps u c' \<and> (res = Inr () \<longrightarrow> uc_observedSeq c' = max (uc_observedSeq c) through)"
  using assms(3) advance_loop_ok [OF assms(1,2), of through c' res] assms(2)
  by (auto simp: advanceCell_def max_def split: if_splits)

lemma buildCell_ok:
  assumes "contiguous 0 (ls_log ps)" "n \<le> length (ls_log ps)"
    and "buildCell u (ls_header ps) (ls_inheritedEventCount ps) (take n (ls_log ps)) = Inr c"
  shows "cell_ok ps u c \<and> uc_observedSeq c = int n - 1"
proof -
  have "last_seq (take n (ls_log ps)) = int n - 1"
  proof (cases "n = 0")
    case False
    with assms(2) have "take n (ls_log ps) \<noteq> []" by auto
    with assms(2) have "last (take n (ls_log ps)) = ls_log ps ! (n - 1)"
      by (simp add: last_conv_nth min_def)
    with assms(1,2) False show ?thesis by (auto simp: last_seq_def contiguous_def)
  qed (simp add: last_seq_def)
  with assms(2,3) show ?thesis
    by (auto simp: buildCell_def res_simps cell_ok_def unit_fold_def log_upto_def)
qed

lemma cursor_length: "cursorBefore n = int n - 1"
  by (simp add: cursorBefore_def)

text \<open>Both ways to obtain a cell give a fold, and give it when the unit does not throw.\<close>

lemma cellFor_ok:
  assumes "contiguous 0 (ls_log ps)" "reg_ok ps r" "cellFor ps r = (r', res)"
  shows "reg_ok ps r' \<and> rg_def r' = rg_def r \<and> (\<forall>sid. sid \<noteq> ls_id ps \<longrightarrow> cell_of sid r' = cell_of sid r)
    \<and> (\<forall>c. res = Inr c \<longrightarrow> cell_of (ls_id ps) r' = Some c \<and> uc_observedSeq c = int (length (ls_log ps)) - 1
         \<and> fold_on (rg_def r) ps (ls_log ps) = Inr (uc_state c))"
proof (cases "cell_of (ls_id ps) r")
  case None
  show ?thesis
  proof (cases "buildCell (rg_def r) (ls_header ps) (ls_inheritedEventCount ps) (ls_log ps)")
    case (Inr c)
    with buildCell_ok [OF assms(1), of "length (ls_log ps)" "rg_def r" c]
    have "cell_ok ps (rg_def r) c" "uc_observedSeq c = int (length (ls_log ps)) - 1" by simp_all
    with None Inr assms(3) show ?thesis by (auto simp: cellFor_def reg_ok_set cell_ok_def log_upto_all)
  qed (use None assms in \<open>auto simp: cellFor_def\<close>)
next
  case (Some c)
  obtain c' out where adv: "advanceCell (rg_def r) (ls_log ps) (cursorBefore (length (ls_log ps))) c = (c', out)"
    by (cases "advanceCell (rg_def r) (ls_log ps) (cursorBefore (length (ls_log ps))) c")
  have ok: "cell_ok ps (rg_def r) c" using assms(2) Some by (simp add: reg_ok_def)
  from advanceCell_ok [OF assms(1) ok adv] have "cell_ok ps (rg_def r) c'"
    "out = Inr () \<longrightarrow> uc_observedSeq c' = int (length (ls_log ps)) - 1"
    using ok by (auto simp: cursor_length cell_ok_def)
  with Some adv assms(3) show ?thesis
    by (cases out) (auto simp: cellFor_def reg_ok_set cell_ok_def log_upto_all)
qed

lemma fold_on_prefix:
  assumes "returns (fold_on u ps (xs @ ys))"
  shows "returns (fold_on u ps xs)"
  using assms by (auto simp: unit_fold_def fold_res_append returns_iff res_simps)

lemma log_upto_split: "\<exists>ys. es = log_upto k es @ ys"
  by (metis log_upto_def append_take_drop_id)

lemma advance_loop_returns:
  assumes "contiguous 0 (ls_log ps)" "returns (fold_on u ps (ls_log ps))" "through < int (length (ls_log ps))"
    and "cell_ok ps u c" "advance_loop u (ls_log ps) c [uc_observedSeq c + 1..through] = (c', res)"
  shows "res = Inr ()"
  using assms(4,5)
proof (induction "nat (through - uc_observedSeq c)" arbitrary: c)
  case (Suc n)
  then have lt: "uc_observedSeq c < through" by simp
  then have list: "[uc_observedSeq c + 1..through] = (uc_observedSeq c + 1) # [uc_observedSeq c + 1 + 1..through]"
    by (simp add: upto_rec1)
  obtain e where e: "log_at (ls_log ps) (uc_observedSeq c + 1) = Some e"
    using Suc.prems(1) lt assms(3) by (cases "log_at (ls_log ps) (uc_observedSeq c + 1)") (auto simp: log_at_iff cell_ok_def)
  obtain ys where "ls_log ps = log_upto (uc_observedSeq c + 1) (ls_log ps) @ ys" using log_upto_split by blast
  with assms(2) have "returns (fold_on u ps (log_upto (uc_observedSeq c + 1) (ls_log ps)))" using fold_on_prefix by metis
  then obtain v where "apply_unit u (uc_state c) e = Inr v"
    using Suc.prems(1) log_upto_next [OF e] by (auto simp: cell_ok_def unit_fold_def fold_res_snoc returns_iff)
  then obtain c1 where Inr: "advance_one u (ls_log ps) c (uc_observedSeq c + 1) = Inr c1"
    using e contiguous_log_at [OF assms(1) e] by (simp add: advance_one_def)
  note ok = advance_one_ok [OF assms(1) Suc.prems(1) Inr]
  have "advance_loop u (ls_log ps) c1 [uc_observedSeq c1 + 1..through] = (c', res)"
    using Suc.prems(2) list Inr ok by simp
  with Suc.hyps(1) [of c1] Suc.hyps(2) ok show ?case by simp
qed simp

lemma cellFor_returns:
  assumes "contiguous 0 (ls_log ps)" "reg_ok ps r" "returns (fold_on (rg_def r) ps (ls_log ps))"
  shows "returns (snd (cellFor ps r))"
proof (cases "cell_of (ls_id ps) r")
  case None
  with assms(3) show ?thesis by (auto simp: cellFor_def buildCell_def unit_fold_def returns_iff checked_def)
next
  case (Some c)
  then have ok: "cell_ok ps (rg_def r) c" using assms(2) by (simp add: reg_ok_def)
  obtain c' out where adv: "advanceCell (rg_def r) (ls_log ps) (cursorBefore (length (ls_log ps))) c = (c', out)"
    by (cases "advanceCell (rg_def r) (ls_log ps) (cursorBefore (length (ls_log ps))) c")
  have "out = Inr ()"
    using advance_loop_returns [OF assms(1,3) _ ok, of "int (length (ls_log ps)) - 1" c' out] adv
    by (auto simp: advanceCell_def cursor_length split: if_splits)
  with Some adv show ?thesis by (simp add: cellFor_def)
qed

section \<open>One operation on one registration\<close>

text \<open>The unit and the cells of other sessions stay, and cells of the session stay folds.\<close>

definition evolves :: "'h live_session \<Rightarrow> ('h, 'v) registration \<Rightarrow> ('h, 'v) registration \<Rightarrow> bool" where
  "evolves ps r r' \<longleftrightarrow> rg_def r' = rg_def r \<and> (\<forall>sid. sid \<noteq> ls_id ps \<longrightarrow> cell_of sid r' = cell_of sid r)
     \<and> (reg_ok ps r \<longrightarrow> reg_ok ps r')"

lemma evolves_refl [simp]: "evolves ps r r"
  by (simp add: evolves_def)

lemma evolves_trans: "evolves ps a b \<Longrightarrow> evolves ps b c \<Longrightarrow> evolves ps a c"
  by (simp add: evolves_def)

lemma evolves_set: "cell_ok ps (rg_def r) c \<Longrightarrow> evolves ps r (set_cell (ls_id ps) c r)"
  by (simp add: evolves_def reg_ok_set)

lemma cellFor_evolves:
  assumes "contiguous 0 (ls_log ps)" "reg_ok ps r"
  shows "evolves ps r (fst (cellFor ps r))"
  using cellFor_ok [OF assms, of "fst (cellFor ps r)" "snd (cellFor ps r)"] by (simp add: evolves_def)

lemma then_run_evolves:
  assumes "evolves ps r (fst m)" "\<And>c r'. m = (r', Inr c) \<Longrightarrow> evolves ps r' (fst (f c r'))"
  shows "evolves ps r (fst (then_run m f))"
  using assms evolves_trans by (cases m; cases "snd m") fastforce+

lemma cell_before_ok:
  assumes con: "contiguous 0 (ls_log ps)" and ok: "reg_ok ps r" and e: "log_at (ls_log ps) (int (ev_seq e)) = Some e"
    and old: "\<And>c. cell_of (ls_id ps) r = Some c \<Longrightarrow> uc_observedSeq c < int (ev_seq e)"
    and run: "cell_before ps e r = (r', res)"
  shows "evolves ps r r' \<and> (\<forall>c. res = Inr c \<longrightarrow> cell_ok ps (rg_def r) c \<and> uc_observedSeq c = int (ev_seq e) - 1)"
proof (cases "cell_of (ls_id ps) r")
  case None
  show ?thesis
  proof (cases "buildCell (rg_def r) (ls_header ps) (ls_inheritedEventCount ps) (take (ev_seq e) (ls_log ps))")
    case (Inr c)
    have "ev_seq e \<le> length (ls_log ps)" using e by (auto simp: log_at_def split: if_splits)
    from buildCell_ok [OF con this Inr] None Inr run show ?thesis by (auto simp: cell_before_def evolves_set)
  qed (use None run in \<open>auto simp: cell_before_def\<close>)
next
  case (Some c)
  obtain c' out where adv: "advanceCell (rg_def r) (ls_log ps) (int (ev_seq e) - 1) c = (c', out)"
    by (cases "advanceCell (rg_def r) (ls_log ps) (int (ev_seq e) - 1) c")
  have "cell_ok ps (rg_def r) c" using ok Some by (simp add: reg_ok_def)
  from advanceCell_ok [OF con this adv] old [OF Some] Some adv run show ?thesis
    by (cases out) (auto simp: cell_before_def evolves_set)
qed

lemma cell_next:
  assumes "cell_ok ps u c" "uc_observedSeq c = int (ev_seq e) - 1" "log_at (ls_log ps) (int (ev_seq e)) = Some e"
    and "apply_unit u (uc_state c) e = Inr v"
  shows "fold_on u ps (log_upto (int (ev_seq e)) (ls_log ps)) = Inr v"
    and "cell_ok ps u \<lparr>uc_state = v, uc_observedSeq = int (ev_seq e), uc_views = vs\<rparr>"
proof -
  show "fold_on u ps (log_upto (int (ev_seq e)) (ls_log ps)) = Inr v"
    using assms log_upto_next [OF assms(3)] by (simp add: cell_ok_def unit_fold_def fold_res_snoc)
  moreover have "ev_seq e < length (ls_log ps)" using assms(3) by (auto simp: log_at_def split: if_splits)
  ultimately show "cell_ok ps u \<lparr>uc_state = v, uc_observedSeq = int (ev_seq e), uc_views = vs\<rparr>"
    by (simp add: cell_ok_def)
qed

text \<open>A published value is the checked view of the unit's fold up to the event.\<close>

definition published_ok :: "'h live_session \<Rightarrow> ('h, 'v) projection_unit \<Rightarrow> nat \<Rightarrow> 'v \<Rightarrow> bool" where
  "published_ok ps u k w \<longleftrightarrow> (\<exists>v parse view. fold_on u ps (log_upto (int k) (ls_log ps)) = Inr v
     \<and> pu_wire u = Some (parse, view) \<and> parse (view v) = Some w)"

lemma drive_views_published:
  "snd (drive_views listening wire v changed views) = Some x \<Longrightarrow>
     \<exists>parse view. wire = Some (parse, view) \<and> x = parse (view v)"
  by (auto simp: drive_views_def split: option.splits prod.splits if_splits)

lemma drive_cell_ok:
  assumes con: "contiguous 0 (ls_log ps)" and ok: "reg_ok ps r" and e: "log_at (ls_log ps) (int (ev_seq e)) = Some e"
    and old: "\<And>c. cell_of (ls_id ps) r = Some c \<Longrightarrow> uc_observedSeq c < int (ev_seq e)"
    and run: "drive_cell listening ps e r = (r', res)"
  shows "evolves ps r r' \<and> (\<forall>w. res = Inr (Some w) \<longrightarrow> published_ok ps (rg_def r) (ev_seq e) w)"
proof -
  obtain r1 out where b: "cell_before ps e r = (r1, out)" by (cases "cell_before ps e r")
  note before = cell_before_ok [OF con ok e old b]
  show ?thesis
  proof (cases out)
    case (Inl err)
    with b run before show ?thesis by (auto simp: drive_cell_def)
  next
    case (Inr c)
    with before have c: "cell_ok ps (rg_def r) c" "uc_observedSeq c = int (ev_seq e) - 1" and ev1: "evolves ps r r1"
      and def1: "rg_def r1 = rg_def r" by (auto simp: evolves_def)
    show ?thesis
    proof (cases "apply_unit (rg_def r) (uc_state c) e")
      case (Inl err)
      with b Inr run before def1 show ?thesis by (auto simp: drive_cell_def)
    next
      case v: (Inr v)
      obtain vs pub where dv: "drive_views listening (pu_wire (rg_def r)) v (v \<noteq> uc_state c) (uc_views c) = (vs, pub)"
        by (cases "drive_views listening (pu_wire (rg_def r)) v (v \<noteq> uc_state c) (uc_views c)")
      note nx = cell_next [OF c e v]
      from b Inr v run dv def1 have r': "r' = set_cell (ls_id ps) \<lparr>uc_state = v, uc_observedSeq = int (ev_seq e), uc_views = vs\<rparr> r1"
        and res: "res = (case pub of None \<Rightarrow> Inr None | Some None \<Rightarrow> Inl (SchemaThrew (rg_key r1)) | Some (Some w) \<Rightarrow> Inr (Some w))"
        by (simp_all add: drive_cell_def)
      have "evolves ps r1 r'" unfolding r' using nx(2) def1 by (intro evolves_set) simp
      moreover have "published_ok ps (rg_def r) (ev_seq e) w" if "res = Inr (Some w)" for w
        using drive_views_published [of listening "pu_wire (rg_def r)" v "v \<noteq> uc_state c" "uc_views c"] dv that res nx(1)
        by (auto simp: published_ok_def split: option.splits)
      ultimately show ?thesis using evolves_trans [OF ev1] by blast
    qed
  qed
qed

lemma drive_registration_ok:
  assumes "contiguous 0 (ls_log ps)" "reg_ok ps r" "log_at (ls_log ps) (int (ev_seq e)) = Some e"
    and "drive_registration listening ps e r = (r', res)"
  shows "evolves ps r r' \<and> (\<forall>w. res = Inr (Some w) \<longrightarrow> published_ok ps (rg_def r) (ev_seq e) w)"
proof (cases "\<exists>c. cell_of (ls_id ps) r = Some c \<and> uc_observedSeq c \<ge> int (ev_seq e)")
  case True
  with assms(4) show ?thesis by (auto simp: drive_registration_def)
next
  case False
  with assms(4) have run: "drive_cell listening ps e r = (r', res)"
    by (auto simp: drive_registration_def split: option.splits if_splits)
  have "uc_observedSeq c < int (ev_seq e)" if "cell_of (ls_id ps) r = Some c" for c using False that by force
  from drive_cell_ok [OF assms(1-3) this run] show ?thesis .
qed

section \<open>Loops\<close>

lemma each_evolves:
  assumes "\<And>r. r \<in> set rs \<Longrightarrow> evolves ps r (fst (f r))"
  shows "list_all2 (evolves ps) rs (fst (each_registration f rs))"
  using assms
proof (induction rs)
  case (Cons r rs)
  have "list_all2 (evolves ps) rs rs" by (simp add: list_all2_refl)
  with Cons show ?case
    by (cases "f r"; cases "snd (f r)"; cases "each_registration f rs") force+
qed simp

lemma each_returns:
  assumes "\<And>r. r \<in> set rs \<Longrightarrow> returns (snd (f r))"
  shows "returns (snd (each_registration f rs)) \<and> fst (each_registration f rs) = map (fst \<circ> f) rs"
  using assms
proof (induction rs)
  case (Cons r rs)
  then obtain r' a where "f r = (r', Inr a)" by (cases "f r"; cases "snd (f r)") force+
  with Cons show ?case by (cases "each_registration f rs"; cases "snd (each_registration f rs)") auto
qed simp

definition notice_ok :: "'h live_session \<Rightarrow> 'v change_notice \<Rightarrow> bool" where
  "notice_ok ps n \<longleftrightarrow> cn_session n = ls_id ps \<and> cn_seq n < length (ls_log ps)
     \<and> (\<exists>u :: ('h, 'v) projection_unit. pu_key u = cn_key n \<and> published_ok ps u (cn_seq n) (cn_value n))"

lemma drive_loop_ok:
  assumes con: "contiguous 0 (ls_log ps)" and e: "log_at (ls_log ps) (int (ev_seq e)) = Some e"
    and ok: "\<And>r. r \<in> set rs \<Longrightarrow> reg_ok ps r" and run: "drive_loop ls ps e rs = (rs', ns, res)"
  shows "list_all2 (evolves ps) rs rs' \<and> list_all (notice_ok ps) ns"
  using ok run
proof (induction rs arbitrary: rs' ns res)
  case (Cons r rs)
  obtain r' out where d: "drive_registration (ls \<noteq> []) ps e r = (r', out)" by (cases "drive_registration (ls \<noteq> []) ps e r")
  note dr = drive_registration_ok [OF con Cons.prems(1) e d]
  show ?case
  proof (cases out)
    case (Inl err)
    with Cons.prems(2) d dr show ?thesis by (auto simp: list_all2_refl)
  next
    case (Inr pub)
    obtain rs1 ns1 res1 where l: "drive_loop ls ps e rs = (rs1, ns1, res1)" by (cases "drive_loop ls ps e rs")
    have "ev_seq e < length (ls_log ps)" using e by (auto simp: log_at_def split: if_splits)
    then have "list_all (notice_ok ps) (notices ls ps e (rg_key r) pub)"
      using dr Inr by (auto simp: notices_def list_all_iff notice_ok_def rg_key_def split: option.splits)
    moreover have "list_all2 (evolves ps) rs rs1 \<and> list_all (notice_ok ps) ns1"
      using Cons.IH [OF Cons.prems(1) l] by simp
    ultimately show ?thesis using Cons.prems(2) d l Inr dr by auto
  qed
qed simp

section \<open>Restoring\<close>

text \<open>A row that the unit's version and schema accept, within the log, holds the fold at its cut.\<close>

definition rows_valid ::
    "(string \<times> 'v checkpoint_row) list \<Rightarrow> 'h \<Rightarrow> nat \<Rightarrow> session_event list \<Rightarrow> ('h, 'v) registry \<Rightarrow> bool" where
  "rows_valid cp header inherited es pr \<longleftrightarrow> (\<forall>r \<in> set (pr_registrations pr). \<forall>row v.
     current_row cp (rg_def r) = Some row \<longrightarrow> cr_seq row < int (length es) \<longrightarrow> pu_parse (rg_def r) (cr_val row) = Some v \<longrightarrow>
     unit_fold (rg_def r) header inherited (log_upto (cr_seq row) es) = Inr v)"

lemma restore_events_fold:
  assumes "contiguous 0 es" "0 \<le> i"
  shows "restore_events u (drop base es) base v [i..int (length (drop base es)) - 1] =
    fold_res (apply_unit u) v (drop (nat i + base) es)"
  using assms(2)
proof (induction "nat (int (length (drop base es)) - i)" arbitrary: v i)
  case 0
  then have "[i..int (length (drop base es)) - 1] = []" "length es \<le> nat i + base" by auto
  then show ?case by simp
next
  case (Suc k)
  then have lt: "i < int (length (drop base es))" by linarith
  then have list: "[i..int (length (drop base es)) - 1] = i # [i + 1..int (length (drop base es)) - 1]"
    by (simp add: upto_rec1)
  have at: "log_at (drop base es) i = Some (es ! (nat i + base))"
    using lt Suc.prems by (simp add: log_at_def add.commute)
  have len: "nat i + base < length es" using lt Suc.prems by simp
  then have seq: "int (ev_seq (es ! (nat i + base))) = int base + i"
    using assms(1) Suc.prems by (simp add: contiguous_def)
  have "drop (nat i + base) es = es ! (nat i + base) # drop (nat (i + 1) + base) es"
    using len Suc.prems by (simp add: Cons_nth_drop_Suc nat_add_distrib)
  moreover have "restore_events u (drop base es) base w [i + 1..int (length (drop base es)) - 1]
      = fold_res (apply_unit u) w (drop (nat (i + 1) + base) es)" for w
    using Suc.hyps(2) Suc.prems by (intro Suc.hyps(1)) simp_all
  ultimately show ?case by (simp only: list restore_events.simps at option.case seq simp_thms if_False fold_res.simps)
qed

lemma end_seq_drop:
  assumes "contiguous 0 es" "base \<le> length es"
  shows "end_seq (drop base es) base = int (length es) - 1"
proof (cases "base = length es")
  case False
  with assms(2) have "drop base es \<noteq> []" "last (drop base es) = es ! (length es - 1)" by (auto simp: last_conv_nth)
  with assms False show ?thesis by (auto simp: end_seq_def last_seq_def contiguous_def)
qed (simp add: end_seq_def cursor_length)

text \<open>Restoring a unit over the tail of the log is the fold of the whole log, or a throw.\<close>

lemma restore_unit_fold:
  assumes con: "contiguous 0 es" and base: "base \<le> length es" and valid: "rows_valid cp header inherited es pr"
    and r: "r \<in> set (pr_registrations pr)"
  shows "restore_unit cp (drop base es) base header inherited (rg_def r) =
    (case usable_row cp (drop base es) base (rg_def r) of
       None \<Rightarrow> if base > 0 then Inl (CannotRestore (pu_key (rg_def r))) else unit_fold (rg_def r) header inherited es
     | Some row \<Rightarrow> if pu_parse (rg_def r) (cr_val row) = None then Inl (SchemaThrew (pu_key (rg_def r)))
         else unit_fold (rg_def r) header inherited es)"
proof (cases "usable_row cp (drop base es) base (rg_def r)")
  case None
  show ?thesis
  proof (cases "base = 0")
    case True
    with None restore_events_fold [OF con, of 0 "rg_def r" base] show ?thesis
      by (simp add: restore_unit_def cursorBefore_def unit_fold_def)
  qed (use None in \<open>simp add: restore_unit_def\<close>)
next
  case (Some row)
  then have row: "current_row cp (rg_def r) = Some row" "int base - 1 \<le> cr_seq row" "cr_seq row < int (length es)"
    by (auto simp: usable_row_def cursor_length end_seq_drop [OF con base] split: option.splits if_splits)
  show ?thesis
  proof (cases "pu_parse (rg_def r) (cr_val row)")
    case (Some v)
    with valid r row have pre: "unit_fold (rg_def r) header inherited (log_upto (cr_seq row) es) = Inr v"
      by (auto simp: rows_valid_def)
    have cut: "nat (cr_seq row - int base + 1) + base = nat (cr_seq row + 1)" using row(2) by linarith
    have "restore_unit cp (drop base es) base header inherited (rg_def r) =
        fold_res (apply_unit (rg_def r)) v (drop (nat (cr_seq row - int base + 1) + base) es)"
      using restore_events_fold [OF con, of "cr_seq row - int base + 1" "rg_def r" base v] row(2)
        \<open>usable_row _ _ _ _ = _\<close> Some by (simp add: restore_unit_def)
    also have "\<dots> = fold_res (apply_unit (rg_def r)) v (drop (nat (cr_seq row + 1)) es)" by (simp only: cut)
    also have "\<dots> = unit_fold (rg_def r) header inherited (log_upto (cr_seq row) es @ drop (nat (cr_seq row + 1)) es)"
      using pre by (simp add: unit_fold_def fold_res_append)
    also have "log_upto (cr_seq row) es @ drop (nat (cr_seq row + 1)) es = es" by (simp add: log_upto_def)
    finally show ?thesis using \<open>usable_row _ _ _ _ = _\<close> Some by simp
  qed (use Some in \<open>simp add: restore_unit_def\<close>)
qed

lemma map_res_Inr: "map_res f xs = Inr ys \<longleftrightarrow> list_all2 (\<lambda>x y. f x = Inr y) xs ys"
proof (induction xs arbitrary: ys)
  case (Cons x xs)
  then show ?case by (cases ys) (auto simp: res_simps)
qed auto

lemma restore_registration_row:
  "restore_registration cp events base header inherited r = Inr (v, row) \<Longrightarrow>
     \<exists>w. restore_unit cp events base header inherited (rg_def r) = Inr w
       \<and> row = (rg_key r, \<lparr>cr_ver = pu_stateVersion (rg_def r), cr_seq = end_seq events base, cr_val = w\<rparr>)"
  by (auto simp: restore_registration_def res_simps)

lemma restored_rows:
  assumes "list_all2 (\<lambda>r y. restore_registration cp events base header inherited r = Inr y) rs ys"
    and "distinct (map rg_key rs)" and "r \<in> set rs"
  shows "\<exists>w. restore_unit cp events base header inherited (rg_def r) = Inr w \<and>
    map_of (map snd ys) (rg_key r) = Some \<lparr>cr_ver = pu_stateVersion (rg_def r), cr_seq = end_seq events base, cr_val = w\<rparr>"
  using assms
proof (induction rs ys rule: list_all2_induct)
  case (Cons q rs y ys)
  obtain v row where y: "y = (v, row)" by (cases y)
  from Cons.hyps(1) obtain w where w: "restore_unit cp events base header inherited (rg_def q) = Inr w"
    "row = (rg_key q, \<lparr>cr_ver = pu_stateVersion (rg_def q), cr_seq = end_seq events base, cr_val = w\<rparr>)"
    using restore_registration_row [OF Cons.hyps(1) [unfolded y]] by auto
  with Cons y show ?case by (cases "r = q") (auto simp: rev_image_eqI)
qed simp

section \<open>The registry at work\<close>

record ('h, 'v) registry_world =
  rw_sessions :: "nat \<Rightarrow> 'h live_session option"
  rw_registry :: "('h, 'v) registry"

abbreviation put_registry :: "('h, 'v) registry_world \<Rightarrow> ('h, 'v) registry \<Rightarrow> ('h, 'v) registry_world" where
  "put_registry w pr \<equiv> w\<lparr>rw_registry := pr\<rparr>"

text \<open>Sessions appear with any contiguous log and grow by one event at a time, which is driven through
  the registry; between events, units come and go and anyone reads. A prepared session may be hydrated
  from rows that hold folds of its log.\<close>

inductive registry_step :: "('h, 'v) registry_world \<Rightarrow> ('h, 'v) registry_world \<Rightarrow> bool" where
  created: "rw_sessions w (ls_id ps) = None \<Longrightarrow> contiguous 0 (ls_log ps) \<Longrightarrow>
    registry_step w \<lparr>rw_sessions = (rw_sessions w)(ls_id ps \<mapsto> ps), rw_registry = session_created ps (rw_registry w)\<rparr>"
| committed: "rw_sessions w sid = Some ps \<Longrightarrow> ev_seq e = length (ls_log ps) \<Longrightarrow> ps' = ps\<lparr>ls_log := ls_log ps @ [e]\<rparr> \<Longrightarrow>
    registry_step w \<lparr>rw_sessions = (rw_sessions w)(sid \<mapsto> ps'), rw_registry = fst (drive ps' e (rw_registry w))\<rparr>"
| registered: "registry_step w (put_registry w (fst (register u (rw_registry w))))"
| unregistered: "registry_step w (put_registry w (unregister key (rw_registry w)))"
| listening: "registry_step w (put_registry w (onChanged l (rw_registry w)))"
| deaf: "registry_step w (put_registry w (stop_listening l (rw_registry w)))"
| state_read: "rw_sessions w sid = Some ps \<Longrightarrow> registry_step w (put_registry w (fst (stateOf ps key (rw_registry w))))"
| snapshot_read: "rw_sessions w sid = Some ps \<Longrightarrow> registry_step w (put_registry w (fst (snapshot ps wanted (rw_registry w))))"
| checkpointed: "rw_sessions w sid = Some ps \<Longrightarrow> registry_step w (put_registry w (fst (checkpoint ps (rw_registry w))))"
| hydrated: "rw_sessions w sid = Some ps \<Longrightarrow> base \<le> upper \<Longrightarrow> upper \<le> length (ls_log ps) \<Longrightarrow>
    rows_valid cp (ls_header ps) (ls_inheritedEventCount ps) (take upper (ls_log ps)) (rw_registry w) \<Longrightarrow>
    registry_step w (put_registry w (fst (hydrate ps cp (drop base (take upper (ls_log ps))) base (rw_registry w))))"

definition empty_world :: "('h, 'v) registry_world" where
  "empty_world = \<lparr>rw_sessions = (\<lambda>_. None), rw_registry = \<lparr>pr_registrations = [], pr_listeners = [], pr_feed = []\<rparr>\<rparr>"

abbreviation registry_reachable :: "('h, 'v) registry_world \<Rightarrow> bool" where
  "registry_reachable \<equiv> registry_step\<^sup>*\<^sup>* empty_world"

definition world_inv :: "('h, 'v) registry_world \<Rightarrow> bool" where
  "world_inv w \<longleftrightarrow> distinct (map rg_key (pr_registrations (rw_registry w)))
     \<and> (\<forall>sid ps. rw_sessions w sid = Some ps \<longrightarrow> ls_id ps = sid \<and> contiguous 0 (ls_log ps)
          \<and> (\<forall>r \<in> set (pr_registrations (rw_registry w)). reg_ok ps r))
     \<and> (\<forall>sid. rw_sessions w sid = None \<longrightarrow> (\<forall>r \<in> set (pr_registrations (rw_registry w)). cell_of sid r = None))
     \<and> (\<forall>n \<in> set (pr_feed (rw_registry w)). \<exists>ps. rw_sessions w (cn_session n) = Some ps \<and> notice_ok ps n)"

text \<open>Steps that change only the cells of one session.\<close>

lemma evolves_list:
  assumes "list_all2 (evolves ps) rs rs'"
  shows "map rg_key rs' = map rg_key rs"
    and "(\<And>r. r \<in> set rs \<Longrightarrow> reg_ok ps r) \<Longrightarrow> r' \<in> set rs' \<Longrightarrow> reg_ok ps r'"
    and "r' \<in> set rs' \<Longrightarrow> \<exists>r \<in> set rs. rg_def r' = rg_def r \<and> (\<forall>sid. sid \<noteq> ls_id ps \<longrightarrow> cell_of sid r' = cell_of sid r)"
  using assms by (induction rule: list_all2_induct) (auto simp: evolves_def rg_key_def)

lemma reg_ok_cong:
  "rg_def r' = rg_def r \<Longrightarrow> cell_of (ls_id ps) r' = cell_of (ls_id ps) r \<Longrightarrow> reg_ok ps r' = reg_ok ps r"
  by (simp add: reg_ok_def)

lemma world_inv_evolves:
  assumes inv: "world_inv w" and sid: "rw_sessions w sid = Some ps" and ps': "ls_id ps' = sid" "contiguous 0 (ls_log ps')"
    and ok: "\<And>r. r \<in> set (pr_registrations (rw_registry w)) \<Longrightarrow> reg_ok ps' r"
    and ev: "list_all2 (evolves ps') (pr_registrations (rw_registry w)) (pr_registrations pr')"
    and feed: "\<And>n. n \<in> set (pr_feed pr') \<Longrightarrow> \<exists>ps. ((rw_sessions w)(sid \<mapsto> ps')) (cn_session n) = Some ps \<and> notice_ok ps n"
  shows "world_inv \<lparr>rw_sessions = (rw_sessions w)(sid \<mapsto> ps'), rw_registry = pr'\<rparr>"
proof -
  have other: "reg_ok qs r'" if r': "r' \<in> set (pr_registrations pr')" and qs: "rw_sessions w k = Some qs" "k \<noteq> sid" for r' k qs
  proof -
    obtain r where r: "r \<in> set (pr_registrations (rw_registry w))" "rg_def r' = rg_def r"
      "\<forall>sid. sid \<noteq> ls_id ps' \<longrightarrow> cell_of sid r' = cell_of sid r" using evolves_list(3) [OF ev r'] by blast
    moreover have "ls_id qs = k" "reg_ok qs r" using inv qs(1) r(1) by (auto simp: world_inv_def)
    ultimately show ?thesis using reg_ok_cong [of r' r qs] qs(2) ps'(1) by simp
  qed
  have none: "cell_of k r' = None" if "r' \<in> set (pr_registrations pr')" "rw_sessions w k = None" "k \<noteq> sid" for r' k
    using evolves_list(3) [OF ev that(1)] inv that(2,3) ps'(1) by (fastforce simp: world_inv_def)
  show ?thesis unfolding world_inv_def
    using inv evolves_list(1) [OF ev] evolves_list(2) [OF ev ok] other none ps' feed
    by (auto simp: world_inv_def)
qed

lemma world_inv_same:
  assumes inv: "world_inv w" and sid: "rw_sessions w sid = Some ps"
    and ev: "list_all2 (evolves ps) (pr_registrations (rw_registry w)) (pr_registrations pr')"
    and feed: "pr_feed pr' = pr_feed (rw_registry w)"
  shows "world_inv (put_registry w pr')"
proof -
  have "(rw_sessions w)(sid \<mapsto> ps) = rw_sessions w" using sid by (simp add: fun_upd_idem)
  moreover have "ls_id ps = sid" "contiguous 0 (ls_log ps)"
    "\<And>r. r \<in> set (pr_registrations (rw_registry w)) \<Longrightarrow> reg_ok ps r" using inv sid by (auto simp: world_inv_def)
  moreover have "\<exists>ps. rw_sessions w (cn_session n) = Some ps \<and> notice_ok ps n" if "n \<in> set (pr_feed pr')" for n
    using inv that feed by (simp add: world_inv_def)
  ultimately show ?thesis
    using world_inv_evolves [OF inv sid _ _ _ ev] by (cases w) simp
qed

section \<open>Every step keeps the invariant\<close>

lemma reg_ok_extend:
  assumes "reg_ok ps r" "ls_log ps' = ls_log ps @ es" "ls_id ps' = ls_id ps" "ls_header ps' = ls_header ps"
    "ls_inheritedEventCount ps' = ls_inheritedEventCount ps"
  shows "reg_ok ps' r"
  unfolding reg_ok_def
proof (intro allI impI)
  fix c assume "cell_of (ls_id ps') r = Some c"
  with assms have ok: "cell_ok ps (rg_def r) c" by (simp add: reg_ok_def)
  then have "log_upto (uc_observedSeq c) (ls_log ps') = log_upto (uc_observedSeq c) (ls_log ps)"
    using assms(2) by (simp add: log_upto_def cell_ok_def nat_le_iff)
  with ok assms show "cell_ok ps' (rg_def r) c" by (simp add: cell_ok_def)
qed

lemma notice_extend:
  assumes "notice_ok ps n" "ls_log ps' = ls_log ps @ es" "ls_id ps' = ls_id ps" "ls_header ps' = ls_header ps"
    "ls_inheritedEventCount ps' = ls_inheritedEventCount ps"
  shows "notice_ok ps' n"
proof -
  have "cn_seq n < length (ls_log ps)" using assms(1) by (simp add: notice_ok_def)
  then have "log_upto (int (cn_seq n)) (ls_log ps') = log_upto (int (cn_seq n)) (ls_log ps)"
    using assms(2) by (simp add: log_upto_def)
  with assms show ?thesis by (simp add: notice_ok_def published_ok_def)
qed

lemma register_cases:
  "register u pr = (pr', res) \<Longrightarrow> pr' = pr
   \<or> (find_registration (pu_key u) pr = None
      \<and> pr' = pr\<lparr>pr_registrations := pr_registrations pr @ [\<lparr>rg_def = u, rg_cells = [], rg_refs = 1\<rparr>]\<rparr>)
   \<or> pr' = pr\<lparr>pr_registrations := map (\<lambda>r. if rg_key r = pu_key u then r\<lparr>rg_refs := rg_refs r + 1\<rparr> else r) (pr_registrations pr)\<rparr>"
  by (auto simp: register_def split: if_splits option.splits)

lemma refs_only:
  "rg_key (r\<lparr>rg_refs := k\<rparr>) = rg_key r" "rg_def (r\<lparr>rg_refs := k\<rparr>) = rg_def r"
  "cell_of sid (r\<lparr>rg_refs := k\<rparr>) = cell_of sid r" "reg_ok ps (r\<lparr>rg_refs := k\<rparr>) = reg_ok ps r"
  by (simp_all add: rg_key_def cell_of_def reg_ok_def)

text \<open>Adding a unit without cells, dropping units, and recounting registrants.\<close>

definition keeps_cells :: "('h, 'v) registration list \<Rightarrow> ('h, 'v) registration list \<Rightarrow> bool" where
  "keeps_cells rs rs' \<longleftrightarrow> (distinct (map rg_key rs) \<longrightarrow> distinct (map rg_key rs'))
     \<and> (\<forall>r' \<in> set rs'. (\<forall>sid. cell_of sid r' = None)
         \<or> (\<exists>r \<in> set rs. rg_def r' = rg_def r \<and> (\<forall>sid. cell_of sid r' = cell_of sid r)))"

lemma world_inv_keeps:
  assumes "world_inv w" "keeps_cells (pr_registrations (rw_registry w)) (pr_registrations pr')"
    "pr_feed pr' = pr_feed (rw_registry w)"
  shows "world_inv (put_registry w pr')"
proof -
  have "reg_ok ps r'" if "r' \<in> set (pr_registrations pr')" "rw_sessions w sid = Some ps" for r' sid ps
    using assms(1,2) that unfolding world_inv_def keeps_cells_def reg_ok_def by (metis option.distinct(1))
  moreover have "cell_of sid r' = None" if "r' \<in> set (pr_registrations pr')" "rw_sessions w sid = None" for r' sid
    using assms(1,2) that unfolding world_inv_def keeps_cells_def by metis
  ultimately show ?thesis using assms unfolding world_inv_def keeps_cells_def by auto
qed

lemma keeps_map_refs:
  "keeps_cells rs (map (\<lambda>r. if rg_key r = key then r\<lparr>rg_refs := f r\<rparr> else r) rs)"
proof -
  have keys: "map rg_key (map (\<lambda>r. if rg_key r = key then r\<lparr>rg_refs := f r\<rparr> else r) rs) = map rg_key rs"
    by (simp add: refs_only)
  show ?thesis unfolding keeps_cells_def keys by (auto simp: refs_only)
qed

lemma keeps_filter: "keeps_cells rs (filter p rs)"
  unfolding keeps_cells_def by (auto simp: distinct_map_filter)

lemma keeps_add:
  assumes "find (\<lambda>r. rg_key r = pu_key u) rs = None"
  shows "keeps_cells rs (rs @ [\<lparr>rg_def = u, rg_cells = [], rg_refs = k\<rparr>])"
  using assms unfolding keeps_cells_def by (auto simp: find_None_iff rg_key_def cell_of_def)

lemma world_register: "world_inv w \<Longrightarrow> world_inv (put_registry w (fst (register u (rw_registry w))))"
proof -
  assume inv: "world_inv w"
  obtain pr' res where reg: "register u (rw_registry w) = (pr', res)" by (cases "register u (rw_registry w)")
  from register_cases [OF reg] show ?thesis
  proof (elim disjE conjE)
    assume "find_registration (pu_key u) (rw_registry w) = None"
      and pr': "pr' = rw_registry w\<lparr>pr_registrations := pr_registrations (rw_registry w) @ [\<lparr>rg_def = u, rg_cells = [], rg_refs = 1\<rparr>]\<rparr>"
    then show ?thesis using reg keeps_add [of u "pr_registrations (rw_registry w)" 1]
      by (intro world_inv_keeps [OF inv]) (simp_all add: find_registration_def)
  next
    assume "pr' = rw_registry w\<lparr>pr_registrations := map (\<lambda>r. if rg_key r = pu_key u then r\<lparr>rg_refs := rg_refs r + 1\<rparr> else r)
      (pr_registrations (rw_registry w))\<rparr>"
    then show ?thesis using reg by (intro world_inv_keeps [OF inv]) (simp_all add: keeps_map_refs)
  qed (use inv reg in simp)
qed

lemma world_unregister:
  assumes inv: "world_inv w"
  shows "world_inv (put_registry w (unregister key (rw_registry w)))"
proof (cases "find_registration key (rw_registry w)")
  case None
  with inv show ?thesis by (simp add: unregister_def)
next
  case (Some live)
  then show ?thesis
    by (intro world_inv_keeps [OF inv]) (simp_all add: unregister_def keeps_filter keeps_map_refs)
qed

lemma find_registration_in: "find_registration key pr = Some r \<Longrightarrow> r \<in> set (pr_registrations pr) \<and> rg_key r = key"
  by (auto simp: find_registration_def find_Some_iff)

lemma with_registrations_sel [simp]:
  "pr_registrations (fst (with_registrations pr m)) = fst m" "pr_feed (fst (with_registrations pr m)) = pr_feed pr"
  "snd (with_registrations pr m) = snd m"
  by (simp_all add: with_registrations_def)

text \<open>A run of reads: each evolves the registrations and leaves the feed.\<close>

definition read_evolves :: "'h live_session \<Rightarrow> ('h, 'v) registry \<Rightarrow> ('h, 'v) registry \<Rightarrow> bool" where
  "read_evolves ps pr pr' \<longleftrightarrow> list_all2 (evolves ps) (pr_registrations pr) (pr_registrations pr') \<and> pr_feed pr' = pr_feed pr"

lemma read_evolves_refl [simp]: "read_evolves ps pr pr"
  by (simp add: read_evolves_def list_all2_refl)

lemma read_evolves_trans: "read_evolves ps a b \<Longrightarrow> read_evolves ps b c \<Longrightarrow> read_evolves ps a c"
  unfolding read_evolves_def using list_all2_trans [OF evolves_trans] by auto

lemma read_then:
  assumes "read_evolves ps pr (fst m)" "\<And>a pr'. m = (pr', Inr a) \<Longrightarrow> read_evolves ps pr' (fst (f a pr'))"
  shows "read_evolves ps pr (fst (then_run m f))"
proof (cases m)
  case (Pair pr' res)
  show ?thesis
  proof (cases res)
    case (Inr a)
    with Pair assms(1) have "read_evolves ps pr pr'" by simp
    from read_evolves_trans [OF this assms(2) [of pr' a]] Pair Inr show ?thesis by simp
  qed (use Pair assms(1) in simp)
qed

lemma read_each:
  assumes "\<And>r. r \<in> set (pr_registrations pr) \<Longrightarrow> evolves ps r (fst (f r))"
  shows "read_evolves ps pr (fst (with_registrations pr (each_registration f (pr_registrations pr))))"
  unfolding read_evolves_def using each_evolves [OF assms] by simp

lemma read_materialize:
  assumes "contiguous 0 (ls_log ps)" "\<And>r. r \<in> set (pr_registrations pr) \<Longrightarrow> reg_ok ps r"
  shows "read_evolves ps pr (fst (with_registrations pr (materializeCells ps (pr_registrations pr))))"
  unfolding materializeCells_def by (intro read_each cellFor_evolves assms)

lemma read_evolves_ok:
  assumes "read_evolves ps pr pr'" "\<And>r. r \<in> set (pr_registrations pr) \<Longrightarrow> reg_ok ps r" "r' \<in> set (pr_registrations pr')"
  shows "reg_ok ps r'"
  using evolves_list(2) [of ps "pr_registrations pr" "pr_registrations pr'" r'] assms
  unfolding read_evolves_def by blast

lemma evolves_cell_run:
  assumes "contiguous 0 (ls_log ps)" "reg_ok ps r"
  shows "evolves ps r (fst (then_run (cellFor ps r) (\<lambda>c r. (r, g c r))))"
  by (rule then_run_evolves [OF cellFor_evolves [OF assms]]) simp

lemma stateOf_evolves:
  assumes "contiguous 0 (ls_log ps)" "\<And>r. r \<in> set (pr_registrations pr) \<Longrightarrow> reg_ok ps r"
  shows "read_evolves ps pr (fst (stateOf ps key pr))"
proof (cases "find_registration key pr = None")
  case False
  have "read_evolves ps pr (fst (then_run (with_registrations pr (materializeCells ps (pr_registrations pr))) (\<lambda>_ pr.
       case find_registration key pr of None \<Rightarrow> (pr, Inr None)
       | Some r \<Rightarrow> (pr, map_sum id (\<lambda>c. Some (uc_state c)) (snd (cellFor ps r))))))"
    by (rule read_then [OF read_materialize [OF assms]]) (auto split: option.split)
  with False show ?thesis by (simp add: stateOf_def)
qed (simp add: stateOf_def)

lemma snapshot_evolves:
  assumes con: "contiguous 0 (ls_log ps)" and ok: "\<And>r. r \<in> set (pr_registrations pr) \<Longrightarrow> reg_ok ps r"
  shows "read_evolves ps pr (fst (snapshot ps wanted pr))"
  unfolding snapshot_def
proof (rule read_then [OF read_materialize [OF con ok]])
  fix a pr' assume m: "with_registrations pr (materializeCells ps (pr_registrations pr)) = (pr', Inr a)"
  have "read_evolves ps pr (fst (with_registrations pr (materializeCells ps (pr_registrations pr))))"
    by (intro read_materialize con ok)
  then have ev0: "read_evolves ps pr pr'" unfolding m fst_conv .
  have ok': "reg_ok ps r" if "r \<in> set (pr_registrations pr')" for r
    by (rule read_evolves_ok [OF ev0 ok that])
  have ev: "evolves ps r (fst (view_registration ps wanted r))" if "r \<in> set (pr_registrations pr')" for r
    unfolding view_registration_def by (simp add: evolves_cell_run [OF con ok' [OF that]])
  show "read_evolves ps pr' (fst (then_run (with_registrations pr' (each_registration (view_registration ps wanted) (pr_registrations pr')))
     (\<lambda>vs pr. (pr, Inr \<lparr>sn_asOfSeq = cursorBefore (length (ls_log ps)), sn_values = present vs\<rparr>))))"
    by (rule read_then [OF read_each [OF ev]]) simp_all
qed simp_all

lemma checkpoint_evolves:
  assumes "contiguous 0 (ls_log ps)" "\<And>r. r \<in> set (pr_registrations pr) \<Longrightarrow> reg_ok ps r"
  shows "read_evolves ps pr (fst (checkpoint ps pr))"
  unfolding checkpoint_def checkpoint_registration_def by (intro read_each evolves_cell_run assms)

lemma world_read:
  assumes inv: "world_inv w" and sid: "rw_sessions w sid = Some ps" and ev: "read_evolves ps (rw_registry w) pr'"
  shows "world_inv (put_registry w pr')"
  using world_inv_same [OF inv sid, of pr'] ev by (simp add: read_evolves_def)

lemma world_created:
  assumes inv: "world_inv w" and new: "rw_sessions w (ls_id ps) = None" and con: "contiguous 0 (ls_log ps)"
  shows "world_inv \<lparr>rw_sessions = (rw_sessions w)(ls_id ps \<mapsto> ps), rw_registry = session_created ps (rw_registry w)\<rparr>"
proof -
  let ?rs = "pr_registrations (rw_registry w)" and ?rs' = "pr_registrations (session_created ps (rw_registry w))"
  have none: "cell_of (ls_id ps) r = None" if "r \<in> set ?rs" for r using inv new that by (simp add: world_inv_def)
  have keys: "map rg_key ?rs' = map rg_key ?rs" by (simp add: session_created_def)
  have from_old: "\<exists>r \<in> set ?rs. rg_def r' = rg_def r \<and> (\<forall>sid. sid \<noteq> ls_id ps \<longrightarrow> cell_of sid r' = cell_of sid r)"
    if "r' \<in> set ?rs'" for r' using that by (auto simp: session_created_def split: if_splits)
  have "reg_ok ps r'" if "r' \<in> set ?rs'" for r'
  proof (cases "ls_log ps = []")
    case True
    with that show ?thesis
      by (auto simp: session_created_def reg_ok_set cell_ok_def log_upto_def unit_fold_def none)
  next
    case False
    with that none show ?thesis by (auto simp: session_created_def reg_ok_def)
  qed
  moreover have "reg_ok qs r'" if r': "r' \<in> set ?rs'" and qs: "rw_sessions w k = Some qs" for r' k qs
  proof -
    obtain r where r: "r \<in> set ?rs" "rg_def r' = rg_def r" "\<forall>sid. sid \<noteq> ls_id ps \<longrightarrow> cell_of sid r' = cell_of sid r"
      using from_old [OF r'] by blast
    moreover have "ls_id qs = k" "reg_ok qs r" "k \<noteq> ls_id ps" using inv qs r(1) new by (auto simp: world_inv_def)
    ultimately show ?thesis using reg_ok_cong [of r' r qs] by simp
  qed
  moreover have "cell_of k r' = None" if "r' \<in> set ?rs'" "rw_sessions w k = None" "k \<noteq> ls_id ps" for r' k
    using from_old [OF that(1)] inv that(2,3) by (fastforce simp: world_inv_def)
  moreover have "pr_feed (session_created ps (rw_registry w)) = pr_feed (rw_registry w)" by (simp add: session_created_def)
  ultimately show ?thesis unfolding world_inv_def using inv keys con new by (auto simp: world_inv_def)
qed

lemma contiguous_snoc: "contiguous 0 es \<Longrightarrow> ev_seq e = length es \<Longrightarrow> contiguous 0 (es @ [e])"
  by (auto simp: contiguous_def nth_append less_Suc_eq)

lemma world_committed:
  assumes inv: "world_inv w" and sid: "rw_sessions w sid = Some ps" and seq: "ev_seq e = length (ls_log ps)"
    and ps': "ps' = ps\<lparr>ls_log := ls_log ps @ [e]\<rparr>"
  shows "world_inv \<lparr>rw_sessions = (rw_sessions w)(sid \<mapsto> ps'), rw_registry = fst (drive ps' e (rw_registry w))\<rparr>"
proof -
  let ?pr = "rw_registry w"
  have old: "ls_id ps = sid" "contiguous 0 (ls_log ps)" "\<And>r. r \<in> set (pr_registrations ?pr) \<Longrightarrow> reg_ok ps r"
    using inv sid by (auto simp: world_inv_def)
  have con: "contiguous 0 (ls_log ps')" using contiguous_snoc [OF old(2) seq] ps' by simp
  have ok: "reg_ok ps' r" if "r \<in> set (pr_registrations ?pr)" for r
    by (rule reg_ok_extend [OF old(3) [OF that], where es = "[e]"]) (simp_all add: ps')
  have e: "log_at (ls_log ps') (int (ev_seq e)) = Some e" by (simp add: ps' seq log_at_def)
  obtain rs ns res where d: "drive_loop (pr_listeners ?pr) ps' e (pr_registrations ?pr) = (rs, ns, res)"
    by (cases "drive_loop (pr_listeners ?pr) ps' e (pr_registrations ?pr)")
  note loop = drive_loop_ok [OF con e ok d]
  have regs: "pr_registrations (fst (drive ps' e ?pr)) = rs" "pr_feed (fst (drive ps' e ?pr)) = pr_feed ?pr @ ns"
    by (simp_all add: drive_def d)
  show ?thesis
  proof (rule world_inv_evolves [OF inv sid _ con ok])
    show "ls_id ps' = sid" using old(1) ps' by simp
    show "list_all2 (evolves ps') (pr_registrations ?pr) (pr_registrations (fst (drive ps' e ?pr)))" using loop regs by simp
    fix n assume "n \<in> set (pr_feed (fst (drive ps' e ?pr)))"
    then consider "n \<in> set (pr_feed ?pr)" | "n \<in> set ns" using regs by auto
    then show "\<exists>qs. ((rw_sessions w)(sid \<mapsto> ps')) (cn_session n) = Some qs \<and> notice_ok qs n"
    proof cases
      case 1
      then obtain qs where qs: "rw_sessions w (cn_session n) = Some qs" "notice_ok qs n" using inv by (auto simp: world_inv_def)
      show ?thesis
      proof (cases "cn_session n = sid")
        case True
        with qs(1) sid have "qs = ps" by simp
        with qs(2) have "notice_ok ps n" by simp
        then have "notice_ok ps' n" by (rule notice_extend [where es = "[e]"]) (simp_all add: ps')
        with True show ?thesis by simp
      qed (use qs in simp)
    next
      case 2
      with loop have "notice_ok ps' n" by (simp add: list_all_iff)
      then show ?thesis using old(1) ps' by (auto simp: notice_ok_def)
    qed
  qed
qed

lemma world_hydrated:
  assumes inv: "world_inv w" and sid: "rw_sessions w sid = Some ps" and up: "base \<le> upper" "upper \<le> length (ls_log ps)"
    and valid: "rows_valid cp (ls_header ps) (ls_inheritedEventCount ps) (take upper (ls_log ps)) (rw_registry w)"
  shows "world_inv (put_registry w (fst (hydrate ps cp (drop base (take upper (ls_log ps))) base (rw_registry w))))"
proof -
  let ?pr = "rw_registry w" and ?es = "take upper (ls_log ps)"
  have con: "contiguous 0 ?es" and dist: "distinct (map rg_key (pr_registrations ?pr))" and len: "length ?es = upper"
    using inv sid up by (auto simp: world_inv_def contiguous_def)
  show ?thesis
  proof (cases "restore cp (drop base ?es) base (ls_header ps) (ls_inheritedEventCount ps) ?pr")
    case (Inl err)
    with inv show ?thesis by (simp add: hydrate_def)
  next
    case (Inr snap_rows)
    then obtain ys where ys: "list_all2 (\<lambda>r y. restore_registration cp (drop base ?es) base (ls_header ps)
        (ls_inheritedEventCount ps) r = Inr y) (pr_registrations ?pr) ys" and rows: "snd snap_rows = map snd ys"
      by (auto simp: restore_def res_simps map_res_Inr)
    have "evolves ps r (install_row (ls_id ps) (map snd ys) r)" if r: "r \<in> set (pr_registrations ?pr)" for r
    proof -
      obtain v where v: "restore_unit cp (drop base ?es) base (ls_header ps) (ls_inheritedEventCount ps) (rg_def r) = Inr v"
        "map_of (map snd ys) (rg_key r) = Some \<lparr>cr_ver = pu_stateVersion (rg_def r),
          cr_seq = end_seq (drop base ?es) base, cr_val = v\<rparr>" using restored_rows [OF ys dist r] by blast
      have "fold_on (rg_def r) ps ?es = Inr v"
        using v(1) restore_unit_fold [OF con _ valid r, of base] up len by (simp split: option.splits if_splits)
      moreover have "end_seq (drop base ?es) base = int upper - 1" using end_seq_drop [OF con, of base] up len by simp
      ultimately have "cell_ok ps (rg_def r) \<lparr>uc_state = v, uc_observedSeq = end_seq (drop base ?es) base, uc_views = (None, None)\<rparr>"
        using up by (simp add: cell_ok_def log_upto_def)
      with v(2) show ?thesis by (auto simp: install_row_def evolves_set)
    qed
    then have "list_all2 (evolves ps) (pr_registrations ?pr) (map (install_row (ls_id ps) (map snd ys)) (pr_registrations ?pr))"
      by (auto simp: list_all2_conv_all_nth)
    with Inr rows inv show ?thesis
      by (cases snap_rows) (auto simp: hydrate_def intro!: world_inv_same [OF inv sid])
  qed
qed

lemma registry_step_inv:
  assumes "registry_step w w'" "world_inv w"
  shows "world_inv w'"
  using assms
proof (induction rule: registry_step.induct)
  case (created w ps)
  then show ?case by (intro world_created)
next
  case (committed w sid ps e ps')
  then show ?case by (intro world_committed)
next
  case (state_read w sid ps key)
  then have "read_evolves ps (rw_registry w) (fst (stateOf ps key (rw_registry w)))"
    by (intro stateOf_evolves) (auto simp: world_inv_def)
  with state_read world_read show ?case by blast
next
  case (snapshot_read w sid ps wanted)
  then have "read_evolves ps (rw_registry w) (fst (snapshot ps wanted (rw_registry w)))"
    by (intro snapshot_evolves) (auto simp: world_inv_def)
  with snapshot_read world_read show ?case by blast
next
  case (checkpointed w sid ps)
  then have "read_evolves ps (rw_registry w) (fst (checkpoint ps (rw_registry w)))"
    by (intro checkpoint_evolves) (auto simp: world_inv_def)
  with checkpointed world_read show ?case by blast
next
  case (hydrated w sid ps base upper cp)
  then show ?case by (intro world_hydrated)
next
  case (listening w l)
  then show ?case by (auto simp: onChanged_def world_inv_def)
next
  case (deaf w l)
  then show ?case by (auto simp: stop_listening_def world_inv_def)
qed (simp_all add: world_register world_unregister)

lemma registry_reachable_inv: "registry_reachable w \<Longrightarrow> world_inv w"
proof (induction rule: rtranclp_induct)
  case base
  show ?case by (simp add: world_inv_def empty_world_def)
next
  case (step y z)
  from registry_step_inv [OF step(2,3)] show ?case .
qed

section \<open>Reads\<close>

lemma each_values:
  "snd (each_registration f rs) = Inr as \<Longrightarrow> list_all2 (\<lambda>r a. snd (f r) = Inr a) rs as"
proof (induction rs arbitrary: as)
  case (Cons r rs)
  obtain r' res where f: "f r = (r', res)" by (cases "f r")
  obtain rs' out where e: "each_registration f rs = (rs', out)" by (cases "each_registration f rs")
  from Cons.prems f e obtain a bs where "res = Inr a" "out = Inr bs" "as = a # bs" by (cases res; cases out) auto
  with Cons.IH f e show ?case by simp
qed simp

lemma find_evolved:
  "list_all2 (evolves ps) rs rs' \<Longrightarrow> find (\<lambda>r. rg_key r = key) rs' = None \<longleftrightarrow> find (\<lambda>r. rg_key r = key) rs = None"
  "list_all2 (evolves ps) rs rs' \<Longrightarrow> find (\<lambda>r. rg_key r = key) rs = Some r \<Longrightarrow>
     \<exists>r'. find (\<lambda>r. rg_key r = key) rs' = Some r' \<and> rg_def r' = rg_def r"
  by (induction rule: list_all2_induct) (auto simp: evolves_def rg_key_def)

text \<open>C8: Whatever happened before (events driven eagerly or found lazily, units registered late, shared and
  released, hydrations, reads, throwing units in the past), the state that a live read returns for a
  registered unit is the fold of that unit over the session's whole log.\<close>

theorem registry_reads_are_folds:
  assumes "registry_reachable w" and "rw_sessions w sid = Some ps"
    and "\<forall>r \<in> set (pr_registrations (rw_registry w)). returns (fold_on (rg_def r) ps (ls_log ps))"
  shows "snd (stateOf ps key (rw_registry w)) = (case find_registration key (rw_registry w) of
     None \<Rightarrow> Inr None | Some r \<Rightarrow> map_sum id Some (fold_on (rg_def r) ps (ls_log ps)))"
proof -
  let ?pr = "rw_registry w"
  have con: "contiguous 0 (ls_log ps)" and ok: "\<And>r. r \<in> set (pr_registrations ?pr) \<Longrightarrow> reg_ok ps r"
    using registry_reachable_inv [OF assms(1)] assms(2) by (auto simp: world_inv_def)
  let ?m = "each_registration (cellFor ps) (pr_registrations ?pr)"
  have ev: "list_all2 (evolves ps) (pr_registrations ?pr) (fst ?m)"
    by (rule each_evolves) (intro cellFor_evolves con ok)
  have "returns (snd ?m)" using each_returns [of "pr_registrations ?pr" "cellFor ps"] cellFor_returns [OF con ok] assms(3) by blast
  then obtain cs where cs: "snd ?m = Inr cs" by (auto simp: returns_iff)
  show ?thesis
  proof (cases "find_registration key ?pr")
    case None
    then show ?thesis by (simp add: stateOf_def)
  next
    case (Some r)
    then obtain r' where r': "find (\<lambda>r. rg_key r = key) (fst ?m) = Some r'" "rg_def r' = rg_def r"
      using find_evolved(2) [OF ev] by (auto simp: find_registration_def)
    have "r' \<in> set (fst ?m)" using r'(1) by (auto simp: find_Some_iff)
    with evolves_list(2) [OF ev ok] have ok': "reg_ok ps r'" by blast
    have "r \<in> set (pr_registrations ?pr)" using find_registration_in [OF Some] by simp
    with assms(3) r'(2) have "returns (snd (cellFor ps r'))" by (intro cellFor_returns [OF con ok']) simp
    then obtain c where c: "snd (cellFor ps r') = Inr c" by (auto simp: returns_iff)
    with cellFor_ok [OF con ok', of "fst (cellFor ps r')" "Inr c"] have "fold_on (rg_def r) ps (ls_log ps) = Inr (uc_state c)"
      using r'(2) by (metis prod.collapse)
    with Some c r' cs show ?thesis
      by (simp add: stateOf_def materializeCells_def with_registrations_def then_run_def find_registration_def split: prod.split)
  qed
qed


section \<open>Checkpoints resume\<close>

lemma floor_loop_least:
  "floor_loop cp rs least = Some n \<Longrightarrow> (\<forall>r \<in> set rs. n \<le> row_need cp (rg_def r)) \<and> (\<forall>m. least = Some m \<longrightarrow> n \<le> m)
     \<and> (least = None \<longrightarrow> rs \<noteq> [])"
  by (induction rs arbitrary: least) (fastforce split: option.splits)+

lemma floor_loop_const:
  "(\<And>r. r \<in> set rs \<Longrightarrow> row_need cp (rg_def r) = n) \<Longrightarrow> least = Some n \<or> least = None \<and> rs \<noteq> [] \<Longrightarrow>
     floor_loop cp rs least = Some n"
  by (induction rs arbitrary: least) auto

text \<open>C10: A cold restore from a checkpoint, reading the log from the floor the checkpoint asks for, is never
  wrong: if the rows within the log are sound it either throws (for a log that shrank below a row, among
  others) or returns, for every unit, the fold of the whole log with a fresh row at the end of the log.\<close>

theorem restore_never_wrong:
  assumes "distinct (map rg_key (pr_registrations pr))" and "contiguous 0 es"
    and "rows_valid cp header inherited es pr" and "restoreFloor cp pr = Some base"
    and "restore cp (drop base es) base header inherited pr = Inr (snap, rows)"
  shows "sn_asOfSeq snap = int (length es) - 1 \<and> (\<forall>r \<in> set (pr_registrations pr).
    \<exists>v. unit_fold (rg_def r) header inherited es = Inr v \<and> map_of rows (rg_key r) =
      Some \<lparr>cr_ver = pu_stateVersion (rg_def r), cr_seq = int (length es) - 1, cr_val = v\<rparr>)"
proof -
  from assms(4) obtain n where n: "floor_loop cp (pr_registrations pr) None = Some n" "base = n - 1"
    by (auto simp: restoreFloor_def)
  note least = floor_loop_least [OF n(1)]
  obtain ys where ys: "list_all2 (\<lambda>r y. restore_registration cp (drop base es) base header inherited r = Inr y)
      (pr_registrations pr) ys" and rows: "rows = map snd ys" and snap: "sn_asOfSeq snap = end_seq (drop base es) base"
    using assms(5) by (auto simp: restore_def res_simps map_res_Inr)
  have unit: "\<exists>v. restore_unit cp (drop base es) base header inherited (rg_def r) = Inr v \<and> map_of rows (rg_key r) =
      Some \<lparr>cr_ver = pu_stateVersion (rg_def r), cr_seq = end_seq (drop base es) base, cr_val = v\<rparr>"
    if "r \<in> set (pr_registrations pr)" for r
    using restored_rows [OF ys assms(1) that] rows by simp
  have base: "base \<le> length es"
  proof (rule ccontr)
    assume "\<not> base \<le> length es"
    then have long: "drop base es = []" "base > 0" by simp_all
    obtain r where r: "r \<in> set (pr_registrations pr)" using least by (cases "pr_registrations pr") auto
    with least n(2) long(2) have "base < row_need cp (rg_def r)" by fastforce
    then have "usable_row cp (drop base es) base (rg_def r) = None"
      using long by (auto simp: row_need_def usable_row_def end_seq_def cursor_length split: option.splits)
    with unit [OF r] long(2) show False by (simp add: restore_unit_def)
  qed
  have "unit_fold (rg_def r) header inherited es = Inr v"
    if "r \<in> set (pr_registrations pr)" "restore_unit cp (drop base es) base header inherited (rg_def r) = Inr v" for r v
    using restore_unit_fold [OF assms(2) base assms(3) that(1)] that(2)
    by (cases "usable_row cp (drop base es) base (rg_def r)") (auto split: if_splits)
  with snap unit show ?thesis unfolding end_seq_drop [OF assms(2) base] by blast
qed

text \<open>The contract under which checkpoints of a unit resume: its version is one that registration accepts,
  its schema accepts every state its fold reaches and returns it unchanged, and the view of such a state
  passes the wire schema.\<close>

locale checkpointable =
  fixes u :: "('h, 'v) projection_unit"
  assumes version: "is_safe_integer (pu_stateVersion u)"
    and parse_fold: "unit_fold u header inherited es = Inr v \<Longrightarrow> pu_parse u v = Some v"
    and view_fold: "unit_fold u header inherited es = Inr v \<Longrightarrow> pu_wire u = Some (parse, view) \<Longrightarrow> parse (view v) \<noteq> None"
begin

lemma version_same: "number_eq (pu_stateVersion u) (pu_stateVersion u)"
  using version by (intro number_eq_refl) (auto simp: is_safe_integer_def)

lemma row_usable:
  assumes "map_of cp (pu_key u) = Some \<lparr>cr_ver = pu_stateVersion u, cr_seq = k, cr_val = v\<rparr>"
  shows "current_row cp u = Some \<lparr>cr_ver = pu_stateVersion u, cr_seq = k, cr_val = v\<rparr>"
  using assms version_same by (simp add: current_row_def)

lemma restores:
  assumes "pu_key u = key" "restore_unit cp events base header inherited u = Inr v" "unit_fold u header inherited es = Inr v"
  shows "returns (restore_registration cp events base header inherited \<lparr>rg_def = u, rg_cells = cells, rg_refs = n\<rparr>)"
proof (cases "pu_wire u")
  case (Some w)
  obtain parse view where w: "w = (parse, view)" by (cases w)
  from view_fold [OF assms(3)] Some w obtain x where "parse (view v) = Some x" by blast
  with assms Some w show ?thesis by (simp add: restore_registration_def)
qed (use assms in \<open>simp add: restore_registration_def\<close>)

end

lemma checkpoint_rows:
  assumes con: "contiguous 0 (ls_log ps)" and ok: "\<And>r. r \<in> set rs \<Longrightarrow> reg_ok ps r"
    and folds: "\<And>r. r \<in> set rs \<Longrightarrow> fold_on (rg_def r) ps (ls_log ps) = Inr (f r)"
  shows "snd (each_registration (checkpoint_registration ps) rs) = Inr (map (\<lambda>r. (rg_key r,
    \<lparr>cr_ver = pu_stateVersion (rg_def r), cr_seq = int (length (ls_log ps)) - 1, cr_val = f r\<rparr>)) rs)"
proof -
  have one: "snd (checkpoint_registration ps r) = Inr (rg_key r, \<lparr>cr_ver = pu_stateVersion (rg_def r),
      cr_seq = int (length (ls_log ps)) - 1, cr_val = f r\<rparr>)" if r: "r \<in> set rs" for r
  proof -
    obtain r' res where run: "cellFor ps r = (r', res)" by (cases "cellFor ps r")
    obtain c where "res = Inr c" using cellFor_returns [OF con ok [OF r]] folds [OF r] run by (auto simp: returns_iff)
    with cellFor_ok [OF con ok [OF r] run] folds [OF r] run show ?thesis
      by (simp add: checkpoint_registration_def rg_key_def)
  qed
  then have "returns (snd (each_registration (checkpoint_registration ps) rs))"
    using each_returns [of rs "checkpoint_registration ps"] by (metis returns_simps(1))
  then obtain out where out: "snd (each_registration (checkpoint_registration ps) rs) = Inr out" by (auto simp: returns_iff)
  from each_values [OF out] one have "list_all2 (\<lambda>r a. a = (rg_key r, \<lparr>cr_ver = pu_stateVersion (rg_def r),
      cr_seq = int (length (ls_log ps)) - 1, cr_val = f r\<rparr>)) rs out"
    by (auto simp: list_all2_conv_all_nth)
  then have "out = map (\<lambda>r. (rg_key r, \<lparr>cr_ver = pu_stateVersion (rg_def r), cr_seq = int (length (ls_log ps)) - 1, cr_val = f r\<rparr>)) rs"
    by (auto simp: list_all2_conv_all_nth intro: nth_equalityI)
  with out show ?thesis by simp
qed

lemma restore_registration_returns:
  assumes "checkpointable (rg_def r)" "restore_unit cp events base header inherited (rg_def r) = Inr v"
    "unit_fold (rg_def r) header inherited es = Inr v"
  shows "returns (restore_registration cp events base header inherited r)"
  using checkpointable.restores [OF assms(1) refl assms(2,3), of "rg_cells r" "rg_refs r"] by (cases r) simp

lemma map_res_returns: "(\<And>x. x \<in> set xs \<Longrightarrow> returns (f x)) \<Longrightarrow> returns (map_res f xs)"
proof (induction xs)
  case (Cons x xs)
  then obtain y ys where "f x = Inr y" "map_res f xs = Inr ys" by (metis list.set_intros(1,2) returns_iff)
  then show ?case by simp
qed simp


section \<open>A registry with one unit\<close>

text \<open>A unit that counts events, one session with one event, a listener, and a second event.\<close>

definition counting_unit :: "(unit, nat) projection_unit" where
  "counting_unit = \<lparr>pu_key = ''n'', pu_parse = Some, pu_init = (\<lambda>_ _. 0), pu_apply = (\<lambda>v e. Inr (v + 1)),
     pu_wire = Some (Some, \<lambda>v. v), pu_stateVersion = js_int 1\<rparr>"

definition sample_live :: "unit live_session" where
  "sample_live = \<lparr>ls_id = 4, ls_header = (), ls_inheritedEventCount = 0, ls_log = [log_event 0 0 (TurnStart 1)]\<rparr>"

definition sample_next :: session_event where
  "sample_next = log_event 1 0 (TurnEnd 1 Completed)"

definition sample_registry :: "(unit, nat) registry" where
  "sample_registry = session_created sample_live (onChanged 7 (fst (register counting_unit (rw_registry empty_world))))"

definition sample_grown :: "unit live_session" where
  "sample_grown = sample_live\<lparr>ls_log := ls_log sample_live @ [sample_next]\<rparr>"

definition sample_world :: "(unit, nat) registry_world" where
  "sample_world = \<lparr>rw_sessions = [4 \<mapsto> sample_grown],
     rw_registry = fst (drive sample_grown sample_next sample_registry)\<rparr>"

lemma reach_step: "registry_reachable w \<Longrightarrow> registry_step w w' \<Longrightarrow> registry_reachable w'"
  by (rule rtranclp.rtrancl_into_rtrancl)

lemma sample_world_reachable: "registry_reachable sample_world"
proof -
  define w0 where "w0 = (empty_world :: (unit, nat) registry_world)"
  define w1 where "w1 = put_registry w0 (fst (register counting_unit (rw_registry w0)))"
  define w2 where "w2 = put_registry w1 (onChanged 7 (rw_registry w1))"
  define w3 where "w3 = \<lparr>rw_sessions = (rw_sessions w2)(ls_id sample_live \<mapsto> sample_live),
    rw_registry = session_created sample_live (rw_registry w2)\<rparr>"
  have "registry_reachable w0" unfolding w0_def by simp
  moreover have "registry_step w0 w1" unfolding w1_def by (rule registered)
  ultimately have "registry_reachable w1" by (rule reach_step)
  moreover have "registry_step w1 w2" unfolding w2_def by (rule listening)
  ultimately have "registry_reachable w2" by (rule reach_step)
  moreover have none: "rw_sessions w2 = (\<lambda>_. None)" by (simp add: w2_def w1_def w0_def empty_world_def)
  then have "registry_step w2 w3" unfolding w3_def
    by (intro created) (simp_all add: contiguous_def sample_live_def)
  ultimately have "registry_reachable w3" by (rule reach_step)
  moreover have "registry_step w3 \<lparr>rw_sessions = (rw_sessions w3)(4 \<mapsto> sample_grown),
      rw_registry = fst (drive sample_grown sample_next (rw_registry w3))\<rparr>"
    by (rule committed [of _ _ sample_live]) (simp_all add: w3_def sample_live_def sample_next_def sample_grown_def)
  moreover have "\<lparr>rw_sessions = (rw_sessions w3)(4 \<mapsto> sample_grown),
      rw_registry = fst (drive sample_grown sample_next (rw_registry w3))\<rparr> = sample_world"
    using none by (simp add: sample_world_def sample_registry_def w3_def w2_def w1_def w0_def) (simp add: sample_live_def)
  ultimately show ?thesis using reach_step by metis
qed

lemma counting_fold: "unit_fold counting_unit h n es = Inr (length es)"
proof -
  have "fold_res (apply_unit counting_unit) v es = Inr (v + length es)" for v
    by (induction es arbitrary: v) (simp_all add: apply_unit_def counting_unit_def)
  then show ?thesis by (simp add: unit_fold_def counting_unit_def)
qed

lemma sample_registrations: "map rg_key (pr_registrations (rw_registry sample_world)) = [''n'']
   \<and> list_all (\<lambda>r. rg_def r = counting_unit) (pr_registrations (rw_registry sample_world))"
proof -
  have "pr_registrations (rw_registry sample_world) =
    [\<lparr>rg_def = counting_unit, rg_cells = [(4, \<lparr>uc_state = 2, uc_observedSeq = 1, uc_views = (None, Some 2)\<rparr>)], rg_refs = 1\<rparr>]"
    by (simp add: sample_world_def sample_registry_def empty_world_def register_def find_registration_def onChanged_def
        session_created_def sample_live_def sample_grown_def sample_next_def drive_def drive_registration_def cell_of_def
        drive_cell_def cell_before_def buildCell_def counting_unit_def apply_unit_def last_seq_def set_cell_def
        drive_views_def then_run_def is_safe_integer_def int_of_number_def js_int_def max_safe_integer_def)
  then show ?thesis by (simp add: rg_key_def) (simp add: counting_unit_def)
qed

theorem registry_reads_are_folds_witness:
  "snd (stateOf sample_grown ''n'' (rw_registry sample_world)) = Inr (Some 2)"
proof -
  have "rw_sessions sample_world 4 = Some sample_grown" by (simp add: sample_world_def)
  moreover have all: "\<forall>r \<in> set (pr_registrations (rw_registry sample_world)). rg_def r = counting_unit"
    using sample_registrations by (simp add: list_all_iff)
  then have "\<forall>r \<in> set (pr_registrations (rw_registry sample_world)). returns (fold_on (rg_def r) sample_grown (ls_log sample_grown))"
    by (simp add: counting_fold)
  ultimately have "snd (stateOf sample_grown ''n'' (rw_registry sample_world)) =
      (case find_registration ''n'' (rw_registry sample_world) of
         None \<Rightarrow> Inr None | Some r \<Rightarrow> map_sum id Some (fold_on (rg_def r) sample_grown (ls_log sample_grown)))"
    by (rule registry_reads_are_folds [OF sample_world_reachable])
  moreover obtain r where "find_registration ''n'' (rw_registry sample_world) = Some r"
    using sample_registrations by (auto simp: find_registration_def map_eq_Cons_conv)
  moreover from find_registration_in [OF this] all have "rg_def r = counting_unit" by simp
  ultimately show ?thesis by (simp add: counting_fold sample_grown_def sample_live_def)
qed


lemma counting_checkpointable: "checkpointable counting_unit"
  by unfold_locales (auto simp: counting_unit_def is_safe_integer_def int_of_number_def js_int_def max_safe_integer_def)


theorem restore_never_wrong_witness:
  "\<exists>v. unit_fold counting_unit () 0 (ls_log sample_grown) = Inr v \<and> v = 2"
proof -
  define r where "r = \<lparr>rg_def = counting_unit, rg_cells = [], rg_refs = 1\<rparr>"
  define pr where "pr = (\<lparr>pr_registrations = [r], pr_listeners = [], pr_feed = []\<rparr> :: (unit, nat) registry)"
  define cp where "cp = [(''n'', \<lparr>cr_ver = js_int 1, cr_seq = 0, cr_val = 1 :: nat\<rparr>)]"
  have con: "contiguous 0 (ls_log sample_grown)"
    by (simp add: sample_grown_def sample_live_def sample_next_def contiguous_def less_Suc_eq)
  have valid: "rows_valid cp () 0 (ls_log sample_grown) pr"
    by (simp add: rows_valid_def pr_def r_def cp_def current_row_def counting_fold log_upto_def sample_grown_def sample_live_def)
      (simp add: counting_unit_def)
  have floor: "restoreFloor cp pr = Some 0"
    by (simp add: restoreFloor_def pr_def r_def cp_def row_need_def current_row_def counting_unit_def)
  have "returns (restore cp (drop 0 (ls_log sample_grown)) 0 () 0 pr)"
    by (simp add: restore_def pr_def r_def cp_def restore_registration_def restore_unit_def usable_row_def current_row_def
        counting_unit_def cursorBefore_def end_seq_def last_seq_def sample_grown_def sample_live_def sample_next_def
        log_at_def apply_unit_def)
  then obtain snap rows where res: "restore cp (drop 0 (ls_log sample_grown)) 0 () 0 pr = Inr (snap, rows)"
    by (auto simp: returns_iff)
  have "distinct (map rg_key (pr_registrations pr))" by (simp add: pr_def)
  from restore_never_wrong [OF this con valid floor res] obtain v where
    "unit_fold (rg_def r) () 0 (ls_log sample_grown) = Inr v" by (auto simp: pr_def)
  then show ?thesis by (auto simp: r_def counting_fold sample_grown_def sample_live_def)
qed

end
