(* ===== verification/Projection_Units.thy ===== *)
theory Projection_Units
  imports Projection_Registry Inbox Goal_Fold
begin

text \<open>
  Units of the registry: the inbox projection (\<^verbatim>\<open>packages/core/agent-loop/src/inbox.ts\<close>), which meets the
  contract under which checkpoints resume, and the goal projection (\<^verbatim>\<open>packages/goal/goal/src/index.ts\<close>),
  which does not: its own fold reaches a state that its checkpoint schema rejects.
\<close>

section \<open>The inbox unit\<close>

text \<open>The schemas ask for two arrays, of anything.\<close>

definition inboxProjectionDefinition :: "('h, inbox_state) projection_unit" where
  "inboxProjectionDefinition = \<lparr>pu_key = ''inbox'', pu_parse = Some, pu_init = (\<lambda>_ _. inbox_init),
     pu_apply = (\<lambda>st e. case apply_inbox st e of
        Inl err \<Rightarrow> Inl ''invalid persisted inbox splice'' | Inr st' \<Rightarrow> Inr st'),
     pu_wire = Some (Some, \<lambda>st. st), pu_stateVersion = js_int 1\<rparr>"

interpretation inbox_checkpoint: checkpointable inboxProjectionDefinition
  by unfold_locales (auto simp: inboxProjectionDefinition_def is_safe_integer_def js_int_def max_safe_integer_def)

lemma inbox_unit_fold:
  "unit_fold inboxProjectionDefinition header inherited es = Inr st \<longleftrightarrow> fold_res apply_inbox inbox_init es = Inr st"
proof -
  have "fold_res (apply_unit inboxProjectionDefinition) s es = Inr st \<longleftrightarrow> fold_res apply_inbox s es = Inr st" for s
    by (induction es arbitrary: s) (auto simp: apply_unit_def inboxProjectionDefinition_def res_simps split: sum.splits)
  then show ?thesis by (simp add: unit_fold_def inboxProjectionDefinition_def)
qed

section \<open>The goal unit\<close>

text \<open>States and client views of the goal unit are values of different shapes.\<close>

datatype goal_value = GoalState goal_projection_state | GoalValue "goal_projection option"

definition goalProjectionDefinition :: "('h, goal_value) projection_unit" where
  "goalProjectionDefinition = \<lparr>pu_key = ''goal'',
     pu_parse = (\<lambda>v. case v of GoalState ps \<Rightarrow> if goalProjectionStateSchema ps then Some v else None | _ \<Rightarrow> None),
     pu_init = (\<lambda>_ _. GoalState goal_projection_init),
     pu_apply = (\<lambda>v e. case v of GoalState ps \<Rightarrow> Inr (GoalState (applyGoalProjection ps e)) | GoalValue p \<Rightarrow> Inr v),
     pu_wire = Some
       (\<lambda>v. case v of GoalValue p \<Rightarrow> if (case p of None \<Rightarrow> True | Some c \<Rightarrow> current_schema c) then Some v else None | _ \<Rightarrow> None,
        \<lambda>v. case v of GoalState ps \<Rightarrow> GoalValue (ps_current ps) | _ \<Rightarrow> v),
     pu_stateVersion = js_int 6\<rparr>"

lemma goal_unit_fold:
  "unit_fold goalProjectionDefinition header inherited es = Inr (GoalState (foldl applyGoalProjection goal_projection_init es))"
proof -
  have "fold_res (apply_unit goalProjectionDefinition) (GoalState ps) es = Inr (GoalState (foldl applyGoalProjection ps es))" for ps
    by (induction es arbitrary: ps) (simp_all add: apply_unit_def goalProjectionDefinition_def)
  then show ?thesis by (simp add: unit_fold_def goalProjectionDefinition_def)
qed

text \<open>The registry that holds the goal unit alone.\<close>

definition goal_registry :: "('h, goal_value) registry" where
  "goal_registry = \<lparr>pr_registrations = [\<lparr>rg_def = goalProjectionDefinition, rg_cells = [], rg_refs = 1\<rparr>],
     pr_listeners = [], pr_feed = []\<rparr>"

text \<open>C39: Whenever the rounds started exceed the round cap of the current goal, the checkpoint of the goal
  unit still succeeds, and restoring the same session from that checkpoint throws at the goal schema.\<close>

theorem capped_checkpoint_unrestorable:
  assumes "contiguous 0 (ls_log s)"
    and "ps_current (foldl applyGoalProjection goal_projection_init (ls_log s)) = Some p"
    and "gs_maxGoalRounds (gp_goal p) < gp_roundsStarted p"
  shows "\<exists>cp. snd (checkpoint s goal_registry) = Inr cp \<and>
     restore cp (ls_log s) 0 (ls_header s) (ls_inheritedEventCount s) goal_registry = Inl (SchemaThrew ''goal'')"
proof -
  let ?ps = "foldl applyGoalProjection goal_projection_init (ls_log s)"
  let ?r = "\<lparr>rg_def = goalProjectionDefinition :: ('a, goal_value) projection_unit, rg_cells = [], rg_refs = 1\<rparr>"
  let ?cp = "[(''goal'', \<lparr>cr_ver = js_int 6, cr_seq = int (length (ls_log s)) - 1, cr_val = GoalState ?ps\<rparr>)]"
  have "fold_on (rg_def ?r) s (ls_log s) = Inr (GoalState ?ps)" by (simp add: goal_unit_fold)
  then have cp: "snd (checkpoint s goal_registry) = Inr ?cp"
    using checkpoint_rows [of s "[?r]" "\<lambda>_. GoalState ?ps"] assms(1)
    by (simp add: checkpoint_def goal_registry_def reg_ok_def cell_of_def rg_key_def)
      (simp add: goalProjectionDefinition_def)
  have "\<not> goalProjectionStateSchema ?ps"
    using assms(2,3) by (simp add: goalProjectionStateSchema_def rounds_within_cap_def)
  then have "restore_unit ?cp (ls_log s) 0 (ls_header s) (ls_inheritedEventCount s) goalProjectionDefinition
      = Inl (SchemaThrew ''goal'')"
    using end_seq_drop [OF assms(1), of 0]
    by (simp add: restore_unit_def usable_row_def current_row_def goalProjectionDefinition_def cursorBefore_def)
  with cp show ?thesis by (simp add: restore_def goal_registry_def restore_registration_def)
qed

text \<open>A session whose goal was edited to a cap below its rounds.\<close>

definition capped_session :: "unit live_session" where
  "capped_session = \<lparr>ls_id = 0, ls_header = (), ls_inheritedEventCount = 0, ls_log = sample_goal_log\<rparr>"

lemma contiguous_goal_log: "contiguous 0 sample_goal_log"
  by (simp add: contiguous_def sample_goal_log_def sample_change_def sample_round_def less_Suc_eq nth_Cons split: nat.split)

theorem capped_checkpoint_unrestorable_witness:
  "\<exists>cp. snd (checkpoint capped_session goal_registry) = Inr cp \<and>
     restore cp sample_goal_log 0 () 0 goal_registry = Inl (SchemaThrew ''goal'')"
proof -
  have "map_option (\<lambda>p. (gs_maxGoalRounds (gp_goal p), gp_roundsStarted p))
      (ps_current (foldl applyGoalProjection goal_projection_init sample_goal_log)) = Some (1, 2)" by code_simp
  then obtain p where "ps_current (foldl applyGoalProjection goal_projection_init (ls_log capped_session)) = Some p"
    "gs_maxGoalRounds (gp_goal p) < gp_roundsStarted p" by (auto simp: capped_session_def)
  from capped_checkpoint_unrestorable [OF _ this] contiguous_goal_log show ?thesis by (simp add: capped_session_def)
qed

end
