(* ===== verification/Json_Text.thy ===== *)
theory Json_Text
  imports Js_Value
begin

text \<open>
  \<open>JSON.stringify\<close> without indentation, as far as the sources use it to build keys: strings are quoted
  and escaped, arrays and objects are comma-separated, \<open>undefined\<close> is \<open>null\<close> in an array and left out of an
  object, and a number that is not finite is \<open>null\<close>. The decimal form of a finite number
  (\<open>Number::toString\<close>) is a parameter. The lemmas show that a list of strings can be read back, so that
  keys built from lists of strings are equal only when the lists are.
\<close>

section \<open>Strings\<close>

definition hex_digit :: "nat \<Rightarrow> char" where
  "hex_digit d = char_of (if d < 10 then 48 + d else 87 + d)"

definition escape_char :: "char \<Rightarrow> string" where
  "escape_char c = (let n = of_char c :: nat; bs = char_of (92 :: nat) in
     if n = 34 then [bs, c] else if n = 92 then [bs, c]
     else if n = 8 then [bs, CHR ''b''] else if n = 9 then [bs, CHR ''t'']
     else if n = 10 then [bs, CHR ''n''] else if n = 12 then [bs, CHR ''f'']
     else if n = 13 then [bs, CHR ''r'']
     else if n < 32 then [bs, CHR ''u'', CHR ''0'', CHR ''0'', hex_digit (n div 16), hex_digit (n mod 16)]
     else [c])"

definition quote_char :: char where
  "quote_char = char_of (34 :: nat)"

fun escape_string :: "string \<Rightarrow> string" where
  "escape_string [] = [quote_char]"
| "escape_string (c # cs) = escape_char c @ escape_string cs"

definition json_string :: "string \<Rightarrow> string" where
  "json_string s = quote_char # escape_string s"

section \<open>Values\<close>

fun json_text :: "(rat \<Rightarrow> string) \<Rightarrow> jsval \<Rightarrow> string"
  and json_elements :: "(rat \<Rightarrow> string) \<Rightarrow> jsval list \<Rightarrow> string list"
  and json_fields :: "(rat \<Rightarrow> string) \<Rightarrow> (string \<times> jsval) list \<Rightarrow> string list" where
  "json_text num JUndef = ''null''"
| "json_text num JNull = ''null''"
| "json_text num (JBool b) = (if b then ''true'' else ''false'')"
| "json_text num (JNum n) = (if is_finite n then num (rat_of_number n) else ''null'')"
| "json_text num (JStr s) = json_string s"
| "json_text num (JArr vs) = ''['' @ join_comma (json_elements num vs) @ '']''"
| "json_text num (JObj fs) = ''{'' @ join_comma (json_fields num fs) @ ''}''"
| "json_elements num [] = []"
| "json_elements num (v # vs) = json_text num v # json_elements num vs"
| "json_fields num [] = []"
| "json_fields num ((k, v) # fs) =
     (if v = JUndef then json_fields num fs
      else (json_string k @ '':'' @ json_text num v) # json_fields num fs)"

section \<open>Reading strings back\<close>

text \<open>The first character of an escaped string and what follows it; \<open>None\<close> at the closing quote.\<close>

definition unhex :: "char \<Rightarrow> nat" where
  "unhex c = (let n = of_char c :: nat in if n < 58 then n - 48 else n - 87)"

definition unescape_code :: "nat \<Rightarrow> nat" where
  "unescape_code n = (if n = 98 then 8 else if n = 116 then 9 else if n = 110 then 10 else if n = 102 then 12
     else if n = 114 then 13 else n)"

definition unescape :: "string \<Rightarrow> (char \<times> string) option" where
  "unescape s = (case s of
     [] \<Rightarrow> None
   | c # cs \<Rightarrow> if of_char c = (34 :: nat) then None
       else if of_char c \<noteq> (92 :: nat) then Some (c, cs)
       else (case cs of [] \<Rightarrow> None | d # ds \<Rightarrow>
         if of_char d = (117 :: nat) then Some (char_of (16 * unhex (ds ! 2) + unhex (ds ! 3)), drop 4 ds)
         else Some (char_of (unescape_code (of_char d)), ds)))"

lemma unhex_hex: "d < 16 \<Longrightarrow> unhex (hex_digit d) = d"
  by (simp add: unhex_def hex_digit_def of_char_of)

lemma unescape_escape: "unescape (escape_char c @ rest) = Some (c, rest)"
proof -
  define n where "n = (of_char c :: nat)"
  have c: "c = char_of n" by (simp add: n_def)
  have n: "n < 256" by (simp add: n_def)
  consider "n = 34 \<or> n = 92 \<or> n = 8 \<or> n = 9 \<or> n = 10 \<or> n = 12 \<or> n = 13"
    | "n \<notin> {8, 9, 10, 12, 13}" "n < 32" | "n \<notin> {34, 92}" "32 \<le> n" by force
  then show ?thesis
  proof cases
    case 1
    then show ?thesis
      unfolding escape_char_def n_def [symmetric]
      by (elim disjE) (simp_all add: unescape_def unescape_code_def c)
  next
    case 2
    have h: "unhex (hex_digit (n div 16)) = n div 16" "unhex (hex_digit (n mod 16)) = n mod 16"
      using 2(2) by (simp_all add: unhex_hex)
    have "16 * (n div 16) + n mod 16 = n" by simp
    then show ?thesis using 2 unfolding escape_char_def n_def [symmetric] Let_def
      by (simp add: unescape_def h) (simp add: c)
  next
    case 3
    then show ?thesis unfolding escape_char_def n_def [symmetric] Let_def
      by (simp add: unescape_def n_def)
  qed
qed

lemma unescape_quote: "unescape (quote_char # rest) = None"
  by (simp add: unescape_def quote_char_def)

lemma escape_string_inject:
  "escape_string s @ xs = escape_string t @ ys \<Longrightarrow> s = t \<and> xs = ys"
proof (induction s arbitrary: t)
  case Nil
  then have "unescape (escape_string t @ ys) = None" by (metis append_Cons append_Nil escape_string.simps(1) unescape_quote)
  with Nil show ?case by (cases t) (auto simp: unescape_escape)
next
  case (Cons c cs)
  then have u: "unescape (escape_string t @ ys) = Some (c, escape_string cs @ xs)"
    by (metis append.assoc escape_string.simps(2) unescape_escape)
  then obtain d ds where t: "t = d # ds" by (cases t) (auto simp: unescape_quote)
  with u have "d = c" "escape_string ds @ ys = escape_string cs @ xs" by (simp_all add: unescape_escape)
  with Cons.IH [of ds] t show ?case by simp
qed

lemma json_string_inject: "json_string s @ xs = json_string t @ ys \<longleftrightarrow> s = t \<and> xs = ys"
  by (auto simp: json_string_def dest: escape_string_inject)

lemma json_pair_inject:
  "json_text num (JArr [JStr a, JStr b]) = json_text num (JArr [JStr c, JStr d]) \<longleftrightarrow> a = c \<and> b = d"
  using json_string_inject [of b "[]" d "[]"] by (auto simp: json_string_inject)

end
