(* ===== verification/Retry_Policy.thy ===== *)
theory Retry_Policy
  imports Json_Text
begin

text \<open>
  Resolution of a provider's retry policy (\<^verbatim>\<open>packages/llm/llm/src/retry-policy.ts\<close>) and the delay it
  schedules (\<^verbatim>\<open>packages/llm/llm-retry/src/index.ts\<close>). The configuration is an untyped value. Finite
  numbers are exact rationals; every floating-point operation of the delay is rounded by the parameter
  \<open>rnd\<close>, of which the lemmas use that it is monotone and keeps zero.
\<close>

section \<open>Policies\<close>

record retry_backoff =
  rb_initialDelayMs :: rat
  rb_maxDelayMs :: rat
  rb_jitterRatio :: rat

datatype retry_policy = NormalPolicy int "string list" retry_backoff | AlwaysPolicy retry_backoff

datatype policy_error =
    NotAnObject | UnknownKey string | BadInitialDelay | BadMaxDelay | InitialAboveMax | BadJitter
  | BadMaxRetries | NotAnArray | EmptyCodes | BadCode | DuplicateCodes | BadPolicyMode | MisplacedPolicy

definition MAX_TIMER_DELAY_MS :: rat where
  "MAX_TIMER_DELAY_MS = 2147483647"

definition DEFAULT_MAX_RETRIES :: int where
  "DEFAULT_MAX_RETRIES = 5"

text \<open>The default ratio is the double that the literal \<open>0.1\<close> denotes.\<close>

definition DEFAULT_BACKOFF :: retry_backoff where
  "DEFAULT_BACKOFF = \<lparr>rb_initialDelayMs = 500, rb_maxDelayMs = 10000,
     rb_jitterRatio = 3602879701896397 / 36028797018963968\<rparr>"

definition DEFAULT_RETRYABLE_CODES :: "string list" where
  "DEFAULT_RETRYABLE_CODES = [''EMPTY_RESPONSE'', ''RATE_LIMIT'', ''SERVER'', ''TIMEOUT'', ''TRANSPORT'']"

section \<open>Resolution\<close>

text \<open>\<open>Object.keys\<close>, which throws on \<open>null\<close> and \<open>undefined\<close>.\<close>

definition object_keys :: "jsval \<Rightarrow> string list option" where
  "object_keys v = (case v of
     JUndef \<Rightarrow> None | JNull \<Rightarrow> None | JObj fs \<Rightarrow> Some (map fst fs)
   | JArr xs \<Rightarrow> Some (map nat_string [0..<length xs]) | JStr s \<Rightarrow> Some (map nat_string [0..<length s])
   | _ \<Rightarrow> Some [])"

definition validateKeys :: "jsval \<Rightarrow> string list \<Rightarrow> policy_error + unit" where
  "validateKeys v allowed = (case object_keys v of
     None \<Rightarrow> Inl NotAnObject
   | Some ks \<Rightarrow> (case find (\<lambda>k. k \<notin> set allowed) ks of Some k \<Rightarrow> Inl (UnknownKey k) | None \<Rightarrow> Inr ()))"

definition POLICY_KEYS :: "string list" where
  "POLICY_KEYS = [''mode'', ''maxRetries'', ''retryableCodes'', ''backoff'']"

definition BACKOFF_KEYS :: "string list" where
  "BACKOFF_KEYS = [''initialDelayMs'', ''maxDelayMs'', ''jitterRatio'']"

text \<open>\<open>value ?? other\<close>.\<close>

definition or_else :: "jsval \<Rightarrow> jsval \<Rightarrow> jsval" where
  "or_else v w = (if v \<in> {JUndef, JNull} then w else v)"

text \<open>The value of a finite number; \<open>None\<close> for everything else.\<close>

definition finite_value :: "jsval \<Rightarrow> rat option" where
  "finite_value v = (case v of JNum n \<Rightarrow> if is_finite n then Some (rat_of_number n) else None | _ \<Rightarrow> None)"

definition resolveBackoff :: "jsval \<Rightarrow> policy_error + retry_backoff" where
  "resolveBackoff config =
     bind_res (if config \<noteq> JUndef then validateKeys config BACKOFF_KEYS else Inr ()) (\<lambda>_.
     let initialDelayMs = or_else (get config ''initialDelayMs'') (JNum (Num (rb_initialDelayMs DEFAULT_BACKOFF)));
         maxDelayMs = or_else (get config ''maxDelayMs'') (JNum (Num (rb_maxDelayMs DEFAULT_BACKOFF)));
         jitterRatio = or_else (get config ''jitterRatio'') (JNum (Num (rb_jitterRatio DEFAULT_BACKOFF)))
     in case finite_value initialDelayMs of None \<Rightarrow> Inl BadInitialDelay | Some i \<Rightarrow>
        if i \<le> 0 \<or> i > MAX_TIMER_DELAY_MS then Inl BadInitialDelay
        else case finite_value maxDelayMs of None \<Rightarrow> Inl BadMaxDelay | Some m \<Rightarrow>
        if m \<le> 0 \<or> m > MAX_TIMER_DELAY_MS then Inl BadMaxDelay
        else if i > m then Inl InitialAboveMax
        else case finite_value jitterRatio of None \<Rightarrow> Inl BadJitter | Some j \<Rightarrow>
        if j < 0 \<or> j > 1 then Inl BadJitter
        else Inr \<lparr>rb_initialDelayMs = i, rb_maxDelayMs = m, rb_jitterRatio = j\<rparr>)"

text \<open>The code list: an array, not empty, of distinct strings that are not empty.\<close>

definition nonempty_code :: "jsval \<Rightarrow> string option" where
  "nonempty_code v = (case v of JStr s \<Rightarrow> if s = [] then None else Some s | _ \<Rightarrow> None)"

definition resolve_codes :: "jsval \<Rightarrow> policy_error + string list" where
  "resolve_codes v = (case v of
     JArr vs \<Rightarrow> (if vs = [] then Inl EmptyCodes
       else case those (map nonempty_code vs) of None \<Rightarrow> Inl BadCode
       | Some codes \<Rightarrow> if distinct codes then Inr codes else Inl DuplicateCodes)
   | JStr s \<Rightarrow> Inl (if s = [] then EmptyCodes else NotAnArray)
   | JObj fs \<Rightarrow> Inl (case get v ''length'' of JNum n \<Rightarrow> if number_eq n (js_int 0) then EmptyCodes else NotAnArray | _ \<Rightarrow> NotAnArray)
   | _ \<Rightarrow> Inl NotAnArray)"

definition resolve_max_retries :: "jsval \<Rightarrow> policy_error + int" where
  "resolve_max_retries v = (case v of
     JNum n \<Rightarrow> if \<not> is_safe_integer n \<or> int_of_number n < 0 then Inl BadMaxRetries else Inr (int_of_number n)
   | _ \<Rightarrow> Inl BadMaxRetries)"

definition resolveRetryPolicy :: "jsval \<Rightarrow> policy_error + retry_policy" where
  "resolveRetryPolicy config =
     (if config = JUndef then
        bind_res (resolveBackoff JUndef) (\<lambda>b. Inr (NormalPolicy DEFAULT_MAX_RETRIES DEFAULT_RETRYABLE_CODES b))
      else if config = JNull then Inl NotAnObject
      else if get config ''mode'' = JStr ''normal'' then
        bind_res (validateKeys config POLICY_KEYS) (\<lambda>_.
        bind_res (resolve_max_retries (or_else (get config ''maxRetries'') (JNum (js_int DEFAULT_MAX_RETRIES)))) (\<lambda>maxRetries.
        bind_res (resolve_codes (or_else (get config ''retryableCodes'') (JArr (map JStr DEFAULT_RETRYABLE_CODES)))) (\<lambda>codes.
        bind_res (resolveBackoff (get config ''backoff'')) (\<lambda>b. Inr (NormalPolicy maxRetries codes b)))))
      else if get config ''mode'' = JStr ''always'' then
        bind_res (validateKeys config POLICY_KEYS) (\<lambda>_.
        bind_res (resolveBackoff (get config ''backoff'')) (\<lambda>b. Inr (AlwaysPolicy b)))
      else Inl BadPolicyMode)"

text \<open>The executor itself takes no configuration.\<close>

definition validateConfig :: "jsval \<Rightarrow> policy_error + unit" where
  "validateConfig config = (case object_keys config of
     None \<Rightarrow> Inl NotAnObject | Some [] \<Rightarrow> Inr ()
   | Some (k # ks) \<Rightarrow> Inl (if k = ''retryPolicy'' then MisplacedPolicy else UnknownKey k))"

section \<open>Keys\<close>

definition policy_backoff :: "retry_policy \<Rightarrow> retry_backoff" where
  "policy_backoff policy = (case policy of NormalPolicy n codes b \<Rightarrow> b | AlwaysPolicy b \<Rightarrow> b)"

text \<open>\<open>num\<close> is the decimal form of a number (see \<open>Json_Text\<close>).\<close>

definition retryPolicyKey :: "(rat \<Rightarrow> string) \<Rightarrow> retry_policy \<Rightarrow> string" where
  "retryPolicyKey num policy = json_text num (case policy of
     AlwaysPolicy b \<Rightarrow> JArr [JStr ''always'', JNum (Num (rb_initialDelayMs b)), JNum (Num (rb_maxDelayMs b)),
       JNum (Num (rb_jitterRatio b))]
   | NormalPolicy maxRetries codes b \<Rightarrow> JArr [JStr ''normal'', JNum (js_int maxRetries), JArr (map JStr (sort codes)),
       JNum (Num (rb_initialDelayMs b)), JNum (Num (rb_maxDelayMs b)), JNum (Num (rb_jitterRatio b))])"

definition retryStateKey :: "(rat \<Rightarrow> string) \<Rightarrow> jsval \<Rightarrow> jsval \<Rightarrow> string" where
  "retryStateKey num provider policyKey = json_text num (JArr [provider, policyKey])"

lemma retryStateKey_inject [simp]:
  "retryStateKey num (JStr p) (JStr k) = retryStateKey num (JStr p') (JStr k') \<longleftrightarrow> p = p' \<and> k = k'"
  unfolding retryStateKey_def by (rule json_pair_inject)

lemma retryPolicyKey_nonempty [simp]: "retryPolicyKey num policy \<noteq> []"
  by (simp add: retryPolicyKey_def split: retry_policy.split)

section \<open>Delays\<close>

text \<open>\<open>initialDelayMs * 2 ** exponent\<close> capped at \<open>maxDelayMs\<close>: \<open>2 ** 1024\<close> is the infinity.\<close>

definition exponential_delay :: "(rat \<Rightarrow> rat) \<Rightarrow> retry_backoff \<Rightarrow> int \<Rightarrow> rat" where
  "exponential_delay rnd b retry =
     (let exponent = min (retry - 1) 1024 in
      if exponent = 1024 then rb_maxDelayMs b
      else min (rnd (rb_initialDelayMs b * 2 ^ nat exponent)) (rb_maxDelayMs b))"

definition localDelay :: "(rat \<Rightarrow> rat) \<Rightarrow> retry_backoff \<Rightarrow> int \<Rightarrow> rat \<Rightarrow> rat" where
  "localDelay rnd b retry sample =
     (let jitter = rnd (rnd (1 - rb_jitterRatio b) + rnd (rnd (2 * rb_jitterRatio b) * sample)) in
      min (rnd (exponential_delay rnd b retry * jitter)) (rb_maxDelayMs b))"

definition rounds_monotonically :: "(rat \<Rightarrow> rat) \<Rightarrow> bool" where
  "rounds_monotonically rnd \<longleftrightarrow> (\<forall>x y. x \<le> y \<longrightarrow> rnd x \<le> rnd y) \<and> rnd 0 = 0"

definition backoff_ok :: "retry_backoff \<Rightarrow> bool" where
  "backoff_ok b \<longleftrightarrow> 0 < rb_initialDelayMs b \<and> rb_initialDelayMs b \<le> rb_maxDelayMs b
     \<and> rb_maxDelayMs b \<le> MAX_TIMER_DELAY_MS \<and> 0 \<le> rb_jitterRatio b \<and> rb_jitterRatio b \<le> 1"

lemma resolveBackoff_ok: "resolveBackoff config = Inr b \<Longrightarrow> backoff_ok b"
  by (auto simp: resolveBackoff_def backoff_ok_def Let_def res_simps split: if_splits option.splits)

fun policy_ok :: "retry_policy \<Rightarrow> bool" where
  "policy_ok (NormalPolicy maxRetries codes b) \<longleftrightarrow>
     0 \<le> maxRetries \<and> safe_int maxRetries \<and> codes \<noteq> [] \<and> distinct codes \<and> [] \<notin> set codes \<and> backoff_ok b"
| "policy_ok (AlwaysPolicy b) \<longleftrightarrow> backoff_ok b"

lemma nonempty_code_Some: "nonempty_code v = Some c \<Longrightarrow> c \<noteq> []"
  by (cases v) (auto simp: nonempty_code_def split: if_splits)

lemma those_nonempty_codes:
  "those (map nonempty_code vs) = Some codes \<Longrightarrow> length codes = length vs \<and> [] \<notin> set codes"
proof (induction vs arbitrary: codes)
  case (Cons v vs)
  then obtain c cs where "nonempty_code v = Some c" "those (map nonempty_code vs) = Some cs" "codes = c # cs"
    by (auto split: option.splits)
  with Cons.IH nonempty_code_Some show ?case by auto
qed simp

lemma resolve_codes_ok: 
  assumes "resolve_codes v = Inr codes"
  shows "codes \<noteq> [] \<and> distinct codes \<and> [] \<notin> set codes"
proof (cases v)
  case (JArr vs)
  with assms have "vs \<noteq> []" "those (map nonempty_code vs) = Some codes" "distinct codes"
    by (auto simp: resolve_codes_def split: if_splits option.splits)
  with those_nonempty_codes [of vs codes] show ?thesis by auto
qed (use assms in \<open>auto simp: resolve_codes_def\<close>)

lemma resolve_max_retries_ok: "resolve_max_retries v = Inr n \<Longrightarrow> 0 \<le> n \<and> safe_int n"
  by (cases v) (auto simp: resolve_max_retries_def is_safe_int_of split: if_splits)

lemma resolved_policy_ok: 
  assumes "resolveRetryPolicy config = Inr policy"
  shows "policy_ok policy"
proof -
  have "0 \<le> DEFAULT_MAX_RETRIES \<and> safe_int DEFAULT_MAX_RETRIES"
    "DEFAULT_RETRYABLE_CODES \<noteq> [] \<and> distinct DEFAULT_RETRYABLE_CODES \<and> [] \<notin> set DEFAULT_RETRYABLE_CODES"
    by code_simp+
  with assms show ?thesis unfolding resolveRetryPolicy_def
    by (auto simp: res_simps dest!: resolveBackoff_ok resolve_codes_ok resolve_max_retries_ok split: if_splits)
qed

lemma rounds_nonneg: "rounds_monotonically rnd \<Longrightarrow> 0 \<le> x \<Longrightarrow> 0 \<le> rnd x"
  unfolding rounds_monotonically_def by fastforce

lemma exponential_delay_nonneg:
  assumes "rounds_monotonically rnd" "backoff_ok b"
  shows "0 \<le> exponential_delay rnd b retry"
proof -
  have b: "0 \<le> rb_initialDelayMs b" "0 \<le> rb_maxDelayMs b" using assms(2) by (auto simp: backoff_ok_def)
  have "0 \<le> rnd (rb_initialDelayMs b * 2 ^ n)" for n
    using b(1) by (intro rounds_nonneg [OF assms(1)]) simp
  with b show ?thesis unfolding exponential_delay_def Let_def by (simp add: min_def)
qed

lemma localDelay_bounds:
  assumes "rounds_monotonically rnd" "backoff_ok b" "0 \<le> sample"
  shows "0 \<le> localDelay rnd b retry sample" "localDelay rnd b retry sample \<le> rb_maxDelayMs b"
proof -
  note nonneg = rounds_nonneg [OF assms(1)]
  have b: "0 \<le> rb_maxDelayMs b" "0 \<le> rb_jitterRatio b" "0 \<le> 1 - rb_jitterRatio b"
    using assms(2) by (auto simp: backoff_ok_def)
  have "0 \<le> rnd (rnd (1 - rb_jitterRatio b) + rnd (rnd (2 * rb_jitterRatio b) * sample))"
    using b assms(3) by (intro nonneg add_nonneg_nonneg mult_nonneg_nonneg) simp_all
  then have "0 \<le> rnd (exponential_delay rnd b retry *
      rnd (rnd (1 - rb_jitterRatio b) + rnd (rnd (2 * rb_jitterRatio b) * sample)))"
    by (intro nonneg [OF mult_nonneg_nonneg] exponential_delay_nonneg [OF assms(1,2)])
  with b(1) show "0 \<le> localDelay rnd b retry sample" unfolding localDelay_def Let_def by (intro min.boundedI)
  show "localDelay rnd b retry sample \<le> rb_maxDelayMs b" unfolding localDelay_def Let_def by (rule min.cobounded2)
qed

end
