(* ===== verification/Retry.thy ===== *)
theory Retry
  imports Retry_Policy Session_Trace "HOL-Library.AList"
begin

text \<open>
  Provider-routed request retries, \<^verbatim>\<open>packages/llm/llm-retry/src\<close>: the recovery that schedules a retry and
  records it in the session log (\<^verbatim>\<open>index.ts\<close>), the projection it counts with, and the durable invariant
  that validates each record against the log before it (\<^verbatim>\<open>invariant.ts\<close>, \<^verbatim>\<open>history.ts\<close>); then the loop of
  request attempts of one step (\<^verbatim>\<open>packages/core/agent-loop/src/agent.ts\<close>).

  The recovery is asynchronous. What happens while it waits is the environment's: whether the signals
  have aborted at each point where they are read, the decision of the downstream recovery and the events
  it appends, the events appended during the delay, the random sample and the random identity.
\<close>

section \<open>Reading the log backwards\<close>

definition findLast :: "(session_event \<Rightarrow> bool) \<Rightarrow> session_event list \<Rightarrow> session_event option" where
  "findLast p es = find p (rev es)"

text \<open>The events after the last one that satisfies \<open>p\<close>; \<open>None\<close> when there is none.\<close>

definition after_last :: "(session_event \<Rightarrow> bool) \<Rightarrow> session_event list \<Rightarrow> session_event list option" where
  "after_last p es = (if list_ex p es then Some (rev (takeWhile (\<lambda>e. \<not> p e) (rev es))) else None)"

definition providerForOpenStep :: "session_event list \<Rightarrow> int \<Rightarrow> int \<Rightarrow> string option" where
  "providerForOpenStep events turn step =
     (case after_last (\<lambda>e. ev_data e = StepStart turn step) events of
        None \<Rightarrow> None
      | Some rest \<Rightarrow>
          if list_ex (\<lambda>e. case ev_data e of StepEnd _ _ \<Rightarrow> True | TurnEnd _ _ \<Rightarrow> True | _ \<Rightarrow> False) rest then None
          else (case findLast (\<lambda>e. case ev_data e of RequestHeader _ \<Rightarrow> True | _ \<Rightarrow> False) events of
                  Some e \<Rightarrow> (case ev_data e of RequestHeader provider \<Rightarrow> Some provider | _ \<Rightarrow> None)
                | None \<Rightarrow> None))"

section \<open>The durable invariant\<close>

datatype retry_violation =
    BadRetryId | BadFailure | BadRetry | BadProvider | BadPolicyKey | ExceedsMaxRetries | AlwaysWithMaxRetries
  | BadMode | BadDelay | RetryOutsideTurn | RetryWrongTurn | RetryOutsideStep | RetryWrongStep | RetryWrongProvider
  | UnexpectedRetry | RetryIdChanged | RetryIdOwned | BadStartedId | Unscheduled | StartedMismatch | RepeatedStart

definition nonempty_str :: "jsval \<Rightarrow> bool" where
  "nonempty_str v = (case v of JStr s \<Rightarrow> s \<noteq> [] | _ \<Rightarrow> False)"

text \<open>A positive safe integer.\<close>

definition positive_safe :: "jsval \<Rightarrow> bool" where
  "positive_safe v = (case v of JNum n \<Rightarrow> is_safe_integer n \<and> int_of_number n \<ge> 1 | _ \<Rightarrow> False)"

definition int_value :: "jsval \<Rightarrow> int" where
  "int_value v = (case v of JNum n \<Rightarrow> int_of_number n | _ \<Rightarrow> 0)"

text \<open>Strict equality; the objects of different events are different.\<close>

fun js_same :: "jsval \<Rightarrow> jsval \<Rightarrow> bool" where
  "js_same (JNum m) (JNum n) = number_eq m n"
| "js_same (JArr xs) v = False"
| "js_same (JObj fs) v = False"
| "js_same v w = (v = w)"

definition status_ok :: "jsval \<Rightarrow> bool" where
  "status_ok v = (v = JUndef \<or> (case finite_value v of None \<Rightarrow> False
     | Some r \<Rightarrow> of_int \<lfloor>r\<rfloor> = r \<and> \<not> r < 100 \<and> \<not> r > 599))"

definition retry_after_ok :: "jsval \<Rightarrow> bool" where
  "retry_after_ok v = (v = JUndef \<or> (case finite_value v of None \<Rightarrow> False | Some r \<Rightarrow> \<not> r \<le> 0))"

definition validateFailure :: "jsval \<Rightarrow> retry_violation + unit" where
  "validateFailure failure =
     (if \<not> (case failure of JObj _ \<Rightarrow> True | JArr _ \<Rightarrow> True | _ \<Rightarrow> False) then Inl BadFailure
      else if \<not> nonempty_str (get failure ''message'') then Inl BadFailure
      else if \<not> nonempty_str (get failure ''code'') then Inl BadFailure
      else if \<not> status_ok (get failure ''status'') then Inl BadFailure
      else if \<not> retry_after_ok (get failure ''providerRetryAfterMs'') then Inl BadFailure
      else if get failure ''requestId'' \<noteq> JUndef \<and> \<not> nonempty_str (get failure ''requestId'') then Inl BadFailure
      else Inr ())"

definition validate_mode :: "llm_retry \<Rightarrow> retry_violation + unit" where
  "validate_mode d =
     (if lr_mode d = JStr ''normal'' then
        (if \<not> positive_safe (lr_maxRetries d) \<or> int_value (lr_retry d) > int_value (lr_maxRetries d)
         then Inl ExceedsMaxRetries else Inr ())
      else if lr_mode d = JStr ''always'' then
        (if lr_maxRetries d \<noteq> JUndef then Inl AlwaysWithMaxRetries else Inr ())
      else Inl BadMode)"

definition delay_ok :: "jsval \<Rightarrow> bool" where
  "delay_ok v = (case finite_value v of None \<Rightarrow> False | Some r \<Rightarrow> \<not> r < 0 \<and> \<not> r > MAX_TIMER_DELAY_MS)"

definition validate_fields :: "llm_retry \<Rightarrow> retry_violation + unit" where
  "validate_fields d =
     (if \<not> nonempty_str (lr_retryId d) then Inl BadRetryId
      else bind_res (validateFailure (lr_failure d)) (\<lambda>_.
        if \<not> positive_safe (lr_retry d) then Inl BadRetry
        else if \<not> nonempty_str (lr_provider d) then Inl BadProvider
        else if \<not> nonempty_str (lr_policyKey d) then Inl BadPolicyKey
        else bind_res (validate_mode d) (\<lambda>_.
          if \<not> delay_ok (lr_delayMs d) then Inl BadDelay else Inr ())))"

definition turn_boundary :: "session_event list \<Rightarrow> event_data option" where
  "turn_boundary history = map_option ev_data
     (findLast (\<lambda>e. case ev_data e of TurnStart _ \<Rightarrow> True | TurnEnd _ _ \<Rightarrow> True | _ \<Rightarrow> False) history)"

definition step_boundary :: "session_event list \<Rightarrow> event_data option" where
  "step_boundary history = map_option ev_data
     (findLast (\<lambda>e. case ev_data e of StepStart _ _ \<Rightarrow> True | StepEnd _ _ \<Rightarrow> True | _ \<Rightarrow> False) history)"

definition validate_place :: "session_event list \<Rightarrow> llm_retry \<Rightarrow> retry_violation + unit" where
  "validate_place history d = (case turn_boundary history of
     Some (TurnStart current) \<Rightarrow>
       (if \<not> js_same (lr_turn d) (JNum (js_int current)) then Inl RetryWrongTurn
        else case step_boundary history of
          Some (StepStart turn step) \<Rightarrow>
            (if \<not> js_same (lr_step d) (JNum (js_int step)) \<or> \<not> js_same (lr_turn d) (JNum (js_int turn)) then Inl RetryWrongStep
             else case providerForOpenStep history turn step of
               Some routed \<Rightarrow> if JStr routed \<noteq> lr_provider d then Inl RetryWrongProvider else Inr ()
             | None \<Rightarrow> Inl RetryWrongProvider)
        | _ \<Rightarrow> Inl RetryOutsideStep)
   | _ \<Rightarrow> Inl RetryOutsideTurn)"

text \<open>The record of an \<open>llm/retry\<close> event, and the last one of a chain.\<close>

definition retry_of :: "session_event \<Rightarrow> llm_retry option" where
  "retry_of e = (case ev_data e of LlmRetry d \<Rightarrow> Some d | _ \<Rightarrow> None)"

definition same_chain :: "llm_retry \<Rightarrow> llm_retry \<Rightarrow> bool" where
  "same_chain d prior \<longleftrightarrow> js_same (lr_turn prior) (lr_turn d) \<and> js_same (lr_step prior) (lr_step d)
     \<and> js_same (lr_provider prior) (lr_provider d) \<and> js_same (lr_policyKey prior) (lr_policyKey d)"

definition priorPolicyRetry :: "session_event list \<Rightarrow> llm_retry \<Rightarrow> llm_retry option" where
  "priorPolicyRetry history d = Option.bind
     (findLast (\<lambda>e. case retry_of e of Some prior \<Rightarrow> same_chain d prior | None \<Rightarrow> False) history) retry_of"

definition owns_retryId :: "jsval \<Rightarrow> session_event \<Rightarrow> bool" where
  "owns_retryId i e = (case ev_data e of
     LlmRetry d \<Rightarrow> js_same (lr_retryId d) i | LlmRetryStarted d \<Rightarrow> js_same (ls_retryId d) i | _ \<Rightarrow> False)"

definition validate_chain :: "session_event list \<Rightarrow> llm_retry \<Rightarrow> retry_violation + unit" where
  "validate_chain history d = (case priorPolicyRetry history d of
     None \<Rightarrow> (if int_value (lr_retry d) \<noteq> 1 then Inl UnexpectedRetry
              else if list_ex (owns_retryId (lr_retryId d)) history then Inl RetryIdOwned else Inr ())
   | Some prior \<Rightarrow> (if int_value (lr_retry d) \<noteq> int_value (lr_retry prior) + 1 then Inl UnexpectedRetry
              else if \<not> js_same (lr_retryId prior) (lr_retryId d) then Inl RetryIdChanged else Inr ()))"

definition validateRetry :: "session_event list \<Rightarrow> llm_retry \<Rightarrow> retry_violation + unit" where
  "validateRetry history d = bind_res (validate_fields d) (\<lambda>_.
     bind_res (validate_place history d) (\<lambda>_. validate_chain history d))"

definition validateStarted :: "session_event list \<Rightarrow> llm_retry_started \<Rightarrow> retry_violation + unit" where
  "validateStarted history d =
     (if \<not> nonempty_str (ls_retryId d) then Inl BadStartedId
      else case findLast (\<lambda>e. case retry_of e of
          Some prior \<Rightarrow> js_same (lr_retryId prior) (ls_retryId d) \<and> js_same (lr_retry prior) (ls_retry d)
        | None \<Rightarrow> False) history of
        None \<Rightarrow> Inl Unscheduled
      | Some e \<Rightarrow> (case retry_of e of None \<Rightarrow> Inl Unscheduled | Some scheduled \<Rightarrow>
          if \<not> js_same (lr_turn scheduled) (ls_turn d) \<or> \<not> js_same (lr_step scheduled) (ls_step d)
          then Inl StartedMismatch
          else if list_ex (\<lambda>e. case ev_data e of
              LlmRetryStarted prior \<Rightarrow> js_same (ls_retryId prior) (ls_retryId d) \<and> js_same (ls_retry prior) (ls_retry d)
            | _ \<Rightarrow> False) history
          then Inl RepeatedStart else Inr ()))"

definition validate_record :: "session_event list \<Rightarrow> session_event \<Rightarrow> retry_violation + unit" where
  "validate_record history e = (case ev_data e of
     LlmRetry d \<Rightarrow> validateRetry history d | LlmRetryStarted d \<Rightarrow> validateStarted history d | _ \<Rightarrow> Inr ())"

fun validate_from :: "session_event list \<Rightarrow> session_event list \<Rightarrow> retry_violation + unit" where
  "validate_from history [] = Inr ()"
| "validate_from history (e # es) = bind_res (validate_record history e) (\<lambda>_. validate_from (history @ [e]) es)"

definition validateSession :: "session_event list \<Rightarrow> retry_violation + unit" where
  "validateSession events = validate_from [] events"

section \<open>The retry projection\<close>

type_synonym retry_state = "(string \<times> (jsval \<times> jsval)) list"  \<comment> \<open>retry and retryId, by provider and policy\<close>

definition apply_retry :: "(rat \<Rightarrow> string) \<Rightarrow> retry_state \<Rightarrow> session_event \<Rightarrow> retry_state" where
  "apply_retry num state e = (case ev_data e of
     StepStart _ _ \<Rightarrow> [] | TurnEnd _ _ \<Rightarrow> []
   | LlmRetry d \<Rightarrow>
       (let key = retryStateKey num (lr_provider d) (lr_policyKey d); entry = (lr_retry d, lr_retryId d) in
        if map_of state key = Some entry then state else AList.update key entry state)
   | _ \<Rightarrow> state)"

definition retry_projection :: "(rat \<Rightarrow> string) \<Rightarrow> session_event list \<Rightarrow> retry_state" where
  "retry_projection num events = foldl (apply_retry num) [] events"

definition llmRetryStateSchema :: "retry_state \<Rightarrow> bool" where
  "llmRetryStateSchema state = list_all (\<lambda>(key, retry, retryId).
     (case retry of JNum n \<Rightarrow> is_safe_integer n \<and> \<not> int_of_number n < 0 | _ \<Rightarrow> False)
     \<and> (case retryId of JStr s \<Rightarrow> True | _ \<Rightarrow> False)) state"

section \<open>Recovery\<close>

record retry_env =
  rv_num :: "rat \<Rightarrow> string"              \<comment> \<open>decimal form of numbers\<close>
  rv_rnd :: "rat \<Rightarrow> rat"                 \<comment> \<open>rounding of floating-point results\<close>
  rv_now :: int
  rv_uuid :: string
  rv_random :: rat
  rv_disposed :: bool                     \<comment> \<open>the plugin lifetime has ended when the listener is called\<close>
  rv_aborted :: bool                      \<comment> \<open>either signal, on entry\<close>
  rv_abortedLater :: bool                 \<comment> \<open>either signal, when the downstream recovery has settled\<close>
  rv_next :: "session_event list \<Rightarrow> session_event list \<times> (string + bool)"
  rv_wait :: "session_event list \<Rightarrow> session_event list \<times> bool"

text \<open>The results of recovery are the failure of the downstream recovery, \<open>Inr True\<close> for the action
  \<open>retry\<close>, and \<open>Inr False\<close> for none.\<close>

record retry_request =
  rq_turn :: int
  rq_step :: int
  rq_provider :: string
  rq_failure :: jsval
  rq_policy :: "retry_policy option"

definition append_event :: "retry_env \<Rightarrow> event_data \<Rightarrow> session_event list \<Rightarrow> session_event list" where
  "append_event env d es = es @ [log_event (length es) (rv_now env) d]"

definition retry_record ::
    "retry_env \<Rightarrow> retry_request \<Rightarrow> retry_policy \<Rightarrow> int \<Rightarrow> jsval \<Rightarrow> rat \<Rightarrow> llm_retry" where
  "retry_record env rq policy retry retryId delayMs =
     \<lparr>lr_retryId = retryId, lr_turn = JNum (js_int (rq_turn rq)), lr_step = JNum (js_int (rq_step rq)),
      lr_provider = JStr (rq_provider rq),
      lr_mode = (case policy of NormalPolicy n codes b \<Rightarrow> JStr ''normal'' | AlwaysPolicy b \<Rightarrow> JStr ''always''),
      lr_policyKey = JStr (retryPolicyKey (rv_num env) policy), lr_retry = JNum (js_int retry),
      lr_maxRetries = (case policy of NormalPolicy n codes b \<Rightarrow> JNum (js_int n) | AlwaysPolicy b \<Rightarrow> JUndef),
      lr_delayMs = JNum (Num delayMs), lr_failure = rq_failure rq\<rparr>"

definition started_record :: "retry_request \<Rightarrow> int \<Rightarrow> jsval \<Rightarrow> llm_retry_started" where
  "started_record rq retry retryId = \<lparr>ls_retryId = retryId, ls_turn = JNum (js_int (rq_turn rq)),
     ls_step = JNum (js_int (rq_step rq)), ls_retry = JNum (js_int retry)\<rparr>"

definition backoff ::
    "retry_env \<Rightarrow> retry_request \<Rightarrow> retry_policy \<Rightarrow> int \<Rightarrow> jsval \<Rightarrow> rat \<Rightarrow> session_event list
     \<Rightarrow> session_event list \<times> (string + bool)" where
  "backoff env rq policy retry retryId delayMs es =
     (if rv_abortedLater env then (es, Inr False)
      else case rv_wait env (append_event env (LlmRetry (retry_record env rq policy retry retryId delayMs)) es) of
        (es1, elapsed) \<Rightarrow>
          if \<not> elapsed then (es1, Inr False)
          else (append_event env (LlmRetryStarted (started_record rq retry retryId)) es1, Inr True))"

text \<open>The delay before the retry; \<open>None\<close> leaves the failure to the downstream recovery.\<close>

definition retry_delay :: "retry_env \<Rightarrow> retry_policy \<Rightarrow> jsval \<Rightarrow> int \<Rightarrow> rat option" where
  "retry_delay env policy failure retry =
     (let b = policy_backoff policy; own = localDelay (rv_rnd env) b retry (rv_random env) in
      case finite_value (get failure ''providerRetryAfterMs'') of
        None \<Rightarrow> Some own
      | Some after \<Rightarrow>
          if \<not> after > 0 then Some own
          else if after > rb_maxDelayMs b then
            (case policy of NormalPolicy n codes b \<Rightarrow> None | AlwaysPolicy b \<Rightarrow> Some own)
          else Some after)"

text \<open>The chain's entry in the projection, and the number and identity of the next retry.\<close>

definition previous_retry :: "retry_env \<Rightarrow> retry_request \<Rightarrow> retry_policy \<Rightarrow> session_event list \<Rightarrow> (jsval \<times> jsval) option" where
  "previous_retry env rq policy es = map_of (retry_projection (rv_num env) es)
     (retryStateKey (rv_num env) (JStr (rq_provider rq)) (JStr (retryPolicyKey (rv_num env) policy)))"

definition previous_number :: "(jsval \<times> jsval) option \<Rightarrow> int" where
  "previous_number previous = (case previous of None \<Rightarrow> 0 | Some (retry, retryId) \<Rightarrow> int_value retry)"

definition chain_retryId :: "retry_env \<Rightarrow> (jsval \<times> jsval) option \<Rightarrow> jsval" where
  "chain_retryId env previous = (case previous of None \<Rightarrow> JStr (rv_uuid env) | Some (retry, retryId) \<Rightarrow> retryId)"

fun exhausted :: "retry_policy \<Rightarrow> int \<Rightarrow> bool" where
  "exhausted (NormalPolicy maxRetries codes b) previousRetry \<longleftrightarrow> previousRetry \<ge> maxRetries"
| "exhausted (AlwaysPolicy b) previousRetry \<longleftrightarrow> False"

definition schedule ::
    "retry_env \<Rightarrow> retry_request \<Rightarrow> retry_policy \<Rightarrow> session_event list \<Rightarrow> session_event list \<times> (string + bool)" where
  "schedule env rq policy es =
     (let previous = previous_retry env rq policy es; retry = previous_number previous + 1 in
      if exhausted policy (previous_number previous) then rv_next env es
      else case retry_delay env policy (rq_failure rq) retry of
        None \<Rightarrow> rv_next env es
      | Some delayMs \<Rightarrow> backoff env rq policy retry (chain_retryId env previous) delayMs es)"

definition recover ::
    "retry_env \<Rightarrow> retry_request \<Rightarrow> session_event list \<Rightarrow> session_event list \<times> (string + bool)" where
  "recover env rq es = (case rq_policy rq of
     None \<Rightarrow> rv_next env es
   | Some (AlwaysPolicy b) \<Rightarrow>
       (if rv_aborted env then (es, Inr False)
        else case rv_next env es of (es1, downstream) \<Rightarrow>
          if rv_abortedLater env then (es1, Inr False)
          else if downstream = Inr True then (es1, Inr True)
          else schedule env rq (AlwaysPolicy b) es1)
   | Some (NormalPolicy maxRetries codes b) \<Rightarrow>
       (if get (rq_failure rq) ''code'' \<notin> JStr ` set codes then rv_next env es
        else schedule env rq (NormalPolicy maxRetries codes b) es))"

text \<open>The listener on \<open>agent/request-error\<close>.\<close>

definition on_request_error ::
    "retry_env \<Rightarrow> retry_request \<Rightarrow> session_event list \<Rightarrow> session_event list \<times> (string + bool)" where
  "on_request_error env rq es = (if rv_disposed env then (es, Inr False) else recover env rq es)"

section \<open>Accepted logs\<close>

lemma findLast_snoc [simp]: "findLast p (es @ [e]) = (if p e then Some e else findLast p es)"
  by (simp add: findLast_def)

lemma validate_from_append:
  "validate_from h (xs @ ys) = bind_res (validate_from h xs) (\<lambda>_. validate_from (h @ xs) ys)"
  by (induction xs arbitrary: h) (simp_all add: bind_res_assoc)

lemma validateSession_snoc:
  "validateSession (es @ [e]) = Inr () \<longleftrightarrow> validateSession es = Inr () \<and> validate_record es e = Inr ()"
  by (auto simp: validateSession_def validate_from_append res_simps)

lemma seedSession_snoc:
  "seedSession (es @ [e]) = Inr t' \<longleftrightarrow> (\<exists>t. seedSession es = Inr t \<and> trace_step t e = Inr t')"
  by (simp add: seedSession_def fold_res_snoc res_simps)

lemma seedSession_inv: "seedSession es = Inr t \<Longrightarrow> trace_inv t"
  unfolding seedSession_def by (rule trace_fold.replay_from_init)

lemma boundary_snoc:
  "turn_boundary (es @ [e]) = (case ev_data e of TurnStart n \<Rightarrow> Some (TurnStart n) | TurnEnd n r \<Rightarrow> Some (TurnEnd n r)
     | _ \<Rightarrow> turn_boundary es)"
  "step_boundary (es @ [e]) = (case ev_data e of StepStart n s \<Rightarrow> Some (StepStart n s) | StepEnd n s \<Rightarrow> Some (StepEnd n s)
     | _ \<Rightarrow> step_boundary es)"
  by (simp_all add: turn_boundary_def step_boundary_def split: event_data.split)

lemma trace_step_open:
  assumes "trace_step u e = Inr t"
  shows "openTurn t = (case ev_data e of TurnStart n \<Rightarrow> Some n | TurnEnd n r \<Rightarrow> None | _ \<Rightarrow> openTurn u)"
    and "openStep t = (case ev_data e of StepStart n s \<Rightarrow> Some s | StepEnd n s \<Rightarrow> None | _ \<Rightarrow> openStep u)"
    and "ev_data e = TurnStart n \<Longrightarrow> openTurn u = None"
    and "ev_data e = TurnEnd n r \<Longrightarrow> openStep u = None"
    and "ev_data e = StepStart n s \<Longrightarrow> openTurn u = Some n"
  using assms by (cases "ev_data e"; auto simp: trace_simps res_simps split: if_splits)+

lemma boundaries:
  assumes "seedSession es = Inr t"
  shows "(turn_boundary es = Some (TurnStart n) \<longleftrightarrow> openTurn t = Some n)
    \<and> (step_boundary es = Some (StepStart n s) \<longleftrightarrow> openTurn t = Some n \<and> openStep t = Some s)"
  using assms
proof (induction es arbitrary: t n s rule: rev_induct)
  case Nil
  then show ?case
    by (auto simp: seedSession_def freshTrace_def turn_boundary_def step_boundary_def findLast_def)
next
  case (snoc e es)
  then obtain u where u: "seedSession es = Inr u" "trace_step u e = Inr t" by (auto simp: seedSession_snoc)
  note IH = snoc.IH [OF u(1), of n s] and at = trace_step_open [OF u(2)]
  have inv: "openTurn u = None \<longrightarrow> openStep u = None" using seedSession_inv [OF u(1)] by (simp add: trace_inv_def)
  show ?case by (cases "ev_data e") (use IH at inv in \<open>auto simp: boundary_snoc\<close>)
qed

section \<open>Records of a validated log\<close>

definition at_place :: "llm_retry \<Rightarrow> int \<Rightarrow> int \<Rightarrow> bool" where
  "at_place d n s \<longleftrightarrow> lr_turn d = JNum (js_int n) \<and> lr_step d = JNum (js_int s)"

definition in_chain :: "llm_retry \<Rightarrow> string \<Rightarrow> string \<Rightarrow> bool" where
  "in_chain d p k \<longleftrightarrow> lr_provider d = JStr p \<and> lr_policyKey d = JStr k"

definition numbered :: "llm_retry \<Rightarrow> string \<Rightarrow> int \<Rightarrow> bool" where
  "numbered d i m \<longleftrightarrow> lr_retryId d = JStr i \<and> i \<noteq> [] \<and> lr_retry d = JNum (js_int m) \<and> 1 \<le> m \<and> safe_int m"

lemma nonempty_str_iff: "nonempty_str v \<longleftrightarrow> (\<exists>s. v = JStr s \<and> s \<noteq> [])"
  by (cases v) (auto simp: nonempty_str_def)

lemma js_same_positive: "1 \<le> n \<Longrightarrow> js_same v (JNum (js_int n)) \<longleftrightarrow> v = JNum (js_int n)"
proof (cases v)
  case (JNum x)
  assume "1 \<le> n"
  then show ?thesis using JNum by (cases x) (auto simp: js_int_def)
qed simp_all

lemma js_same_positive': "1 \<le> n \<Longrightarrow> js_same (JNum (js_int n)) v \<longleftrightarrow> v = JNum (js_int n)"
proof (cases v)
  case (JNum x)
  assume "1 \<le> n"
  then show ?thesis using JNum by (cases x) (auto simp: js_int_def)
qed simp_all

lemma js_same_str [simp]: "js_same (JStr s) v \<longleftrightarrow> v = JStr s"
  by (cases v) auto

lemma js_same_int [simp]: "js_same (JNum (js_int m)) (JNum (js_int n)) \<longleftrightarrow> m = n"
  by simp

lemma positive_safe_iff: "positive_safe v \<longleftrightarrow> (\<exists>m. v = JNum (js_int m) \<and> 1 \<le> m \<and> safe_int m)"
proof
  assume *: "positive_safe v"
  then obtain x where x: "v = JNum x" "is_safe_integer x" "1 \<le> int_of_number x"
    by (cases v) (auto simp: positive_safe_def)
  then have "x = js_int (int_of_number x)"
    by (cases x) (auto simp: js_int_def int_of_number_def is_safe_integer_def)
  with x is_safe_int_of show "\<exists>m. v = JNum (js_int m) \<and> 1 \<le> m \<and> safe_int m" by blast
qed (auto simp: positive_safe_def)

lemma validated_fields:
  assumes "validate_fields d = Inr ()"
  obtains p k i m where "in_chain d p k" "numbered d i m"
  using assms by (auto simp: validate_fields_def res_simps nonempty_str_iff positive_safe_iff in_chain_def numbered_def
      split: if_splits)

lemma validated_place:
  assumes "validateRetry es d = Inr ()" "seedSession es = Inr t"
  obtains n s where "openTurn t = Some n" "openStep t = Some s" "at_place d n s"
proof -
  from assms(1) have "validate_place es d = Inr ()" by (simp add: validateRetry_def res_simps)
  then obtain n s c where *: "turn_boundary es = Some (TurnStart c)" "step_boundary es = Some (StepStart n s)"
    "js_same (lr_turn d) (JNum (js_int n))" "js_same (lr_step d) (JNum (js_int s))"
    by (auto simp: validate_place_def split: option.splits event_data.splits if_splits)
  with boundaries [OF assms(2)] have "openTurn t = Some n" "openStep t = Some s" by auto
  with seedSession_inv [OF assms(2)] have "1 \<le> n" "1 \<le> s" by (auto simp: trace_inv_def)
  with * that \<open>openTurn t = Some n\<close> \<open>openStep t = Some s\<close> show ?thesis by (simp add: at_place_def js_same_positive)
qed

abbreviation records :: "session_event list \<Rightarrow> llm_retry list" where
  "records \<equiv> List.map_filter retry_of"

lemma records_snoc [simp]: "records (es @ [e]) = records es @ (case retry_of e of None \<Rightarrow> [] | Some d \<Rightarrow> [d])"
  by (simp add: List.map_filter_def split: option.split)

lemma records_Cons [simp]: "records (e # es) = (case retry_of e of None \<Rightarrow> [] | Some d \<Rightarrow> [d]) @ records es"
  by (simp add: List.map_filter_def split: option.split)

lemma records_Nil [simp]: "records [] = []"
  by (simp add: List.map_filter_def)

lemma records_append: "records (xs @ ys) = records xs @ records ys"
  by (induction xs) (simp_all split: option.split)

lemma records_rev: "records (rev es) = rev (records es)"
  by (induction es) (simp_all split: option.split)

lemma records_iff: "d \<in> set (records es) \<longleftrightarrow> (\<exists>e \<in> set es. retry_of e = Some d)"
  by (induction es) (auto split: option.splits)

lemma retry_of_Some: "retry_of e = Some d \<longleftrightarrow> ev_data e = LlmRetry d"
  by (auto simp: retry_of_def split: event_data.splits)

lemma validated_records:
  "validateSession es = Inr () \<Longrightarrow> d \<in> set (records es) \<Longrightarrow> \<exists>p k i m. in_chain d p k \<and> numbered d i m"
proof (induction es rule: rev_induct)
  case (snoc e es)
  then have IH: "d \<in> set (records es) \<Longrightarrow> \<exists>p k i m. in_chain d p k \<and> numbered d i m"
    and e: "validate_record es e = Inr ()" by (simp_all add: validateSession_snoc)
  from snoc.prems(2) consider "d \<in> set (records es)" | "ev_data e = LlmRetry d"
    by (cases "retry_of e") (auto simp: retry_of_Some)
  then show ?case
  proof cases
    case 2
    with e have "validate_fields d = Inr ()" by (simp add: validate_record_def validateRetry_def res_simps)
    then show ?thesis by (rule validated_fields) blast
  qed (rule IH)
qed simp

text \<open>The records since the last event that resets the projection, and those before it.\<close>

definition resets :: "session_event \<Rightarrow> bool" where
  "resets e = (case ev_data e of StepStart _ _ \<Rightarrow> True | TurnEnd _ _ \<Rightarrow> True | _ \<Rightarrow> False)"

definition recent :: "session_event list \<Rightarrow> session_event list" where
  "recent es = takeWhile (\<lambda>e. \<not> resets e) (rev es)"

definition older :: "session_event list \<Rightarrow> session_event list" where
  "older es = dropWhile (\<lambda>e. \<not> resets e) (rev es)"

lemma recent_older: "rev es = recent es @ older es"
  by (simp add: recent_def older_def)

lemma recent_snoc: "recent (es @ [e]) = (if resets e then [] else e # recent es)"
  and older_snoc: "older (es @ [e]) = (if resets e then e # rev es else older es)"
  by (simp_all add: recent_def older_def)

text \<open>A place whose step has ended.\<close>

definition before :: "session_trace \<Rightarrow> int \<Rightarrow> int \<Rightarrow> bool" where
  "before t n s \<longleftrightarrow> n < nextTurn t \<or> openTurn t = Some n \<and> s < nextStep t"

definition placed :: "session_trace \<Rightarrow> llm_retry \<Rightarrow> bool" where
  "placed t d \<longleftrightarrow> (\<exists>n s. at_place d n s \<and> before t n s)"

definition current :: "session_trace \<Rightarrow> llm_retry \<Rightarrow> bool" where
  "current t d \<longleftrightarrow> (\<exists>n s. at_place d n s \<and> openTurn t = Some n \<and> openStep t = Some s)"

text \<open>The records before the reset lie in ended steps. Those after it belong to the open step, or to an
  ended one when no step is open.\<close>

definition records_placed :: "session_trace \<Rightarrow> session_event list \<Rightarrow> bool" where
  "records_placed t es \<longleftrightarrow> (\<forall>d \<in> set (records (older es)). placed t d)
     \<and> (\<forall>d \<in> set (records (recent es)). if openStep t = None then placed t d else current t d)"

lemma placed_step:
  assumes "trace_inv t" "trace_step t e = Inr t'" "placed t d"
  shows "placed t' d"
proof -
  from assms(3) obtain n s where "at_place d n s" "before t n s" by (auto simp: placed_def)
  moreover from this assms(1,2) have "before t' n s" unfolding trace_inv_def before_def
    by (cases "ev_data e") (auto simp: trace_simps res_simps split: if_splits)
  ultimately show ?thesis by (auto simp: placed_def)
qed

lemma records_placed_step:
  assumes "trace_inv u" "trace_step u e = Inr t" "validate_record es e = Inr ()" "seedSession es = Inr u"
    and placed: "records_placed u es"
  shows "records_placed t (es @ [e])"
proof -
  note keeps = placed_step [OF assms(1,2)] and at = trace_step_open [OF assms(2)]
  have old: "\<forall>d \<in> set (records (older es)). placed t d" using placed keeps by (auto simp: records_placed_def)
  show ?thesis
  proof (cases "resets e")
    case True
    then have none: "openStep u = None"
      using assms(2) at by (cases "ev_data e") (auto simp: resets_def trace_simps split: if_splits)
    have "retry_of e = None" using True by (auto simp: resets_def retry_of_def split: event_data.splits)
    moreover have "\<forall>d \<in> set (records (recent es)). placed t d"
      using placed keeps none by (auto simp: records_placed_def)
    ultimately show ?thesis using old True
      by (auto simp: records_placed_def recent_snoc older_snoc recent_older records_append)
  next
    case False
    have "if openStep t = None then placed t d else current t d" if d: "d \<in> set (records (recent es))" for d
    proof -
      from placed d have u: "if openStep u = None then placed u d else current u d" by (auto simp: records_placed_def)
      consider "openStep u = None" | n s where "ev_data e = StepEnd n s"
        | "openStep u \<noteq> None" "openTurn t = openTurn u" "openStep t = openStep u"
        using at False assms(1) by (cases "ev_data e") (auto simp: resets_def trace_inv_def)
      then show ?thesis
      proof cases
        case 1
        then have "openStep t = None" using at False by (auto simp: resets_def split: event_data.splits)
        with 1 u keeps show ?thesis by simp
      next
        case (2 n s)
        then have "openStep u \<noteq> None" "openStep t = None" "openTurn t = openTurn u" "nextStep t = nextStep u + 1"
          using assms(2) by (auto simp: trace_simps res_simps split: if_splits)
        with u assms(1) show ?thesis by (auto simp: current_def placed_def before_def trace_inv_def)
      next
        case 3
        with u show ?thesis by (auto simp: current_def)
      qed
    qed
    moreover have "current t d" if "retry_of e = Some d" for d
    proof -
      have d: "ev_data e = LlmRetry d" using that by (simp add: retry_of_Some)
      with assms(3) have "validateRetry es d = Inr ()" by (simp add: validate_record_def)
      from validated_place [OF this assms(4)] obtain n s
        where "openTurn u = Some n" "openStep u = Some s" "at_place d n s" .
      with at d show ?thesis by (auto simp: current_def)
    qed
    ultimately show ?thesis using old False
      by (cases "retry_of e") (auto simp: records_placed_def recent_snoc older_snoc current_def)
  qed
qed

lemma validated_placed:
  "seedSession es = Inr t \<Longrightarrow> validateSession es = Inr () \<Longrightarrow> records_placed t es"
proof (induction es arbitrary: t rule: rev_induct)
  case Nil
  then show ?case by (simp add: records_placed_def recent_def older_def)
next
  case (snoc e es)
  then obtain u where "seedSession es = Inr u" "trace_step u e = Inr t" "validateSession es = Inr ()"
    "validate_record es e = Inr ()" by (auto simp: seedSession_snoc validateSession_snoc)
  with snoc.IH seedSession_inv records_placed_step show ?case by blast
qed

section \<open>The projection and the history\<close>

lemma priorPolicyRetry_find: "priorPolicyRetry es d = find (same_chain d) (records (rev es))"
proof -
  have "Option.bind (find (\<lambda>e. case retry_of e of Some prior \<Rightarrow> same_chain d prior | None \<Rightarrow> False) xs) retry_of
      = find (same_chain d) (records xs)" for xs
  proof (induction xs)
    case (Cons e xs)
    then show ?case by (cases "retry_of e") simp_all
  qed simp
  then show ?thesis by (simp add: priorPolicyRetry_def findLast_def)
qed

lemma same_chain_iff:
  assumes "at_place d n s" "in_chain d p k" "1 \<le> n" "1 \<le> s" "in_chain prior p' k'"
  shows "same_chain d prior \<longleftrightarrow> at_place prior n s \<and> in_chain prior p k"
  using assms by (auto simp: same_chain_def at_place_def in_chain_def js_same_positive)

definition entry_of :: "llm_retry \<Rightarrow> jsval \<times> jsval" where
  "entry_of d = (lr_retry d, lr_retryId d)"

lemma projection_recent:
  assumes "\<forall>d \<in> set (records es). \<exists>p k. in_chain d p k"
  shows "map_of (retry_projection num es) (retryStateKey num (JStr p) (JStr k))
    = map_option entry_of (find (\<lambda>d. in_chain d p k) (records (recent es)))"
  using assms
proof (induction es rule: rev_induct)
  case Nil
  then show ?case by (simp add: retry_projection_def recent_def)
next
  case (snoc e es)
  then have IH: "map_of (retry_projection num es) (retryStateKey num (JStr p) (JStr k))
      = map_option entry_of (find (\<lambda>d. in_chain d p k) (records (recent es)))" by simp
  have step: "retry_projection num (es @ [e]) = apply_retry num (retry_projection num es) e"
    by (simp add: retry_projection_def)
  show ?case
  proof (cases "retry_of e")
    case None
    then have "apply_retry num st e = (if resets e then [] else st)" for st
      by (auto simp: resets_def apply_retry_def retry_of_def split: event_data.splits)
    with None IH show ?thesis by (simp add: step recent_snoc)
  next
    case (Some d)
    with snoc.prems obtain p' k' where d: "in_chain d p' k'" by auto
    from Some d have "map_of (apply_retry num (retry_projection num es) e) key
        = (if key = retryStateKey num (JStr p') (JStr k') then Some (entry_of d) else map_of (retry_projection num es) key)" for key
      by (simp add: retry_of_Some apply_retry_def in_chain_def entry_of_def Let_def update_conv)
    moreover have "\<not> resets e" using Some by (simp add: retry_of_Some resets_def)
    ultimately show ?thesis using Some d IH by (auto simp: step recent_snoc in_chain_def)
  qed
qed

lemma projection_history:
  assumes "seedSession es = Inr t" "validateSession es = Inr ()"
    and "openTurn t = Some n" "openStep t = Some s" "at_place d n s" "in_chain d p k"
  shows "map_of (retry_projection num es) (retryStateKey num (JStr p) (JStr k))
    = map_option entry_of (priorPolicyRetry es d)"
proof -
  have inv: "trace_inv t" "1 \<le> n" "1 \<le> s" "n = nextTurn t" "s = nextStep t"
    using seedSession_inv [OF assms(1)] assms(3,4) by (auto simp: trace_inv_def)
  have chain: "\<forall>d \<in> set (records es). \<exists>p k. in_chain d p k"
    using validated_records [OF assms(2)] by blast
  then have same: "same_chain d x \<longleftrightarrow> at_place x n s \<and> in_chain x p k" if "x \<in> set (records (rev es))" for x
    using that assms(5,6) inv(2,3) by (force simp: records_rev same_chain_iff)
  have placed: "records_placed t es" by (rule validated_placed [OF assms(1,2)])
  have old: "\<not> same_chain d x" if "x \<in> set (records (older es))" for x
  proof -
    from placed that obtain m r where "at_place x m r" "before t m r" by (auto simp: records_placed_def placed_def)
    moreover have "x \<in> set (records (rev es))" using that by (simp add: recent_older records_append)
    ultimately show ?thesis using same inv assms(3) by (auto simp: at_place_def before_def)
  qed
  have new: "same_chain d x \<longleftrightarrow> in_chain x p k" if "x \<in> set (records (recent es))" for x
  proof -
    from placed that assms(3,4) have "at_place x n s" by (auto simp: records_placed_def current_def)
    moreover have "x \<in> set (records (rev es))" using that by (simp add: recent_older records_append)
    ultimately show ?thesis using same by simp
  qed
  have none: "find (same_chain d) (records (older es)) = None" using old by (simp add: find_None_iff_all)
  have "priorPolicyRetry es d = find (same_chain d) (records (recent es))"
    using none by (simp add: priorPolicyRetry_find recent_older records_append find_append split: option.split)
  also have "\<dots> = find (\<lambda>x. in_chain x p k) (records (recent es))"
    using new by (rule find_cong_on)
  finally show ?thesis by (simp add: projection_recent [OF chain])
qed

lemma set_update: "set (AList.update k v al) \<subseteq> insert (k, v) (set al)"
  by (induction al) auto

text \<open>The projection of a validated log satisfies the schema of its checkpoint.\<close>

lemma projection_schema_valid:
  assumes "validateSession es = Inr ()"
  shows "llmRetryStateSchema (retry_projection num es)"
proof -
  have "llmRetryStateSchema (retry_projection num es)" if "\<forall>d \<in> set (records es). \<exists>i m. numbered d i m"
    using that
  proof (induction es rule: rev_induct)
    case (snoc e es)
    then have IH: "llmRetryStateSchema (retry_projection num es)" by simp
    show ?case
    proof (cases "retry_of e")
      case None
      then have "apply_retry num st e = (if resets e then [] else st)" for st
        by (auto simp: resets_def apply_retry_def retry_of_def split: event_data.splits)
      with IH show ?thesis by (simp add: retry_projection_def llmRetryStateSchema_def)
    next
      case (Some d)
      with snoc.prems obtain i m where "numbered d i m" by auto
      then have "case (lr_retry d, lr_retryId d) of (retry, retryId) \<Rightarrow>
          (case retry of JNum n \<Rightarrow> is_safe_integer n \<and> \<not> int_of_number n < 0 | _ \<Rightarrow> False)
          \<and> (case retryId of JStr s \<Rightarrow> True | _ \<Rightarrow> False)"
        by (simp add: numbered_def)
      with IH Some show ?thesis
        by (auto simp: retry_projection_def retry_of_Some apply_retry_def llmRetryStateSchema_def list_all_iff Let_def
            dest!: set_update [THEN subsetD])
    qed
  qed (simp add: retry_projection_def llmRetryStateSchema_def)
  with validated_records [OF assms] show ?thesis by blast
qed

text \<open>C32: In an accepted session log whose retry records are valid, the entry that the projection holds for a
  provider and a policy is the record that the durable invariant finds by scanning the history, for every
  record that could be appended in the open step.\<close>

theorem projection_is_history:
  assumes "seedSession es = Inr t" "validateSession es = Inr ()"
    and "openTurn t = Some n" "openStep t = Some s" "at_place d n s" "in_chain d p k"
  shows "map_of (retry_projection num es) (retryStateKey num (JStr p) (JStr k))
    = map_option entry_of (priorPolicyRetry es d)"
  by (rule projection_history [OF assms])

text \<open>An open step with one retry under way.\<close>

definition sample_retry :: llm_retry where
  "sample_retry = \<lparr>lr_retryId = JStr ''u1'', lr_turn = JNum (js_int 1), lr_step = JNum (js_int 1), lr_provider = JStr ''deepseek'',
     lr_mode = JStr ''always'', lr_policyKey = JStr ''k'', lr_retry = JNum (js_int 1), lr_maxRetries = JUndef,
     lr_delayMs = JNum (js_int 500), lr_failure = JObj [(''message'', JStr ''down''), (''code'', JStr ''SERVER'')]\<rparr>"

definition sample_retry_log :: "session_event list" where
  "sample_retry_log = [log_event 0 0 (TurnStart 1), log_event 1 0 (StepStart 1 1), log_event 2 0 (RequestHeader ''deepseek''),
     log_event 3 0 (LlmRetry sample_retry)]"

theorem projection_is_history_witness:
  "map_of (retry_projection (\<lambda>r. ''0'') sample_retry_log) (retryStateKey (\<lambda>r. ''0'') (JStr ''deepseek'') (JStr ''k''))
    = map_option entry_of (priorPolicyRetry sample_retry_log sample_retry)"
proof -
  have "map_sum id (\<lambda>t. (openTurn t, openStep t)) (seedSession sample_retry_log) = Inr (Some 1, Some 1)" by code_simp
  then obtain t where t: "seedSession sample_retry_log = Inr t" "openTurn t = Some 1" "openStep t = Some 1"
    by (cases "seedSession sample_retry_log") auto
  have valid: "validateSession sample_retry_log = Inr ()" by code_simp
  show ?thesis
    by (rule projection_is_history [OF t(1) valid t(2,3)]) (simp_all add: at_place_def in_chain_def sample_retry_def)
qed

section \<open>Identities and numbers of a chain\<close>

definition chain_of :: "llm_retry \<Rightarrow> jsval \<times> jsval \<times> jsval \<times> jsval" where
  "chain_of d = (lr_turn d, lr_step d, lr_provider d, lr_policyKey d)"

definition typed_record :: "llm_retry \<Rightarrow> bool" where
  "typed_record d \<longleftrightarrow> (\<exists>n s p k i m. at_place d n s \<and> 1 \<le> n \<and> 1 \<le> s \<and> in_chain d p k \<and> numbered d i m)"

lemma typed_chain: "typed_record d \<Longrightarrow> typed_record d' \<Longrightarrow> same_chain d d' \<longleftrightarrow> chain_of d' = chain_of d"
  by (auto simp: typed_record_def same_chain_def chain_of_def at_place_def in_chain_def js_same_positive)

lemma typed_ids:
  assumes "typed_record d"
  shows "js_same (lr_retryId d) v \<longleftrightarrow> v = lr_retryId d"
proof -
  from assms obtain i where "lr_retryId d = JStr i" by (auto simp: typed_record_def numbered_def)
  then show ?thesis by (cases v) auto
qed

lemma validated_typed:
  assumes "validateRetry es d = Inr ()" "seedSession es = Inr t"
  shows "typed_record d"
proof -
  from assms(1) have "validate_fields d = Inr ()" by (simp add: validateRetry_def res_simps)
  then obtain p k i m where "in_chain d p k" "numbered d i m" by (rule validated_fields)
  moreover from validated_place [OF assms] obtain n s where "openTurn t = Some n" "openStep t = Some s" "at_place d n s" .
  moreover from this seedSession_inv [OF assms(2)] have "1 \<le> n" "1 \<le> s" by (auto simp: trace_inv_def)
  ultimately show ?thesis by (auto simp: typed_record_def)
qed

lemma typed_records:
  "seedSession es = Inr t \<Longrightarrow> validateSession es = Inr () \<Longrightarrow> \<forall>d \<in> set (records es). typed_record d"
proof (induction es arbitrary: t rule: rev_induct)
  case (snoc e es)
  then obtain u where u: "seedSession es = Inr u" "validateSession es = Inr ()" "validate_record es e = Inr ()"
    by (auto simp: seedSession_snoc validateSession_snoc)
  then have "typed_record d" if "retry_of e = Some d" for d
    using that validated_typed [of es d u] by (simp add: retry_of_Some validate_record_def)
  with snoc.IH [OF u(1,2)] show ?case by (auto split: option.splits)
qed simp

text \<open>One identity belongs to one chain, and the last record of a chain has its identity and its largest number.\<close>

definition chain_ids_ok :: "session_event list \<Rightarrow> bool" where
  "chain_ids_ok es \<longleftrightarrow> (\<forall>d \<in> set (records es). \<forall>d' \<in> set (records es).
     lr_retryId d = lr_retryId d' \<longrightarrow> chain_of d = chain_of d')"

definition heads :: "session_event list \<Rightarrow> llm_retry \<Rightarrow> llm_retry \<Rightarrow> bool" where
  "heads es d l \<longleftrightarrow> priorPolicyRetry es d = Some l \<and> int_value (lr_retry d) \<le> int_value (lr_retry l)
     \<and> lr_retryId l = lr_retryId d"

definition chains_ok :: "session_event list \<Rightarrow> bool" where
  "chains_ok es \<longleftrightarrow> chain_ids_ok es \<and> (\<forall>d \<in> set (records es). \<exists>l. heads es d l)"

lemma prior_in_records: "priorPolicyRetry es d = Some l \<Longrightarrow> l \<in> set (records es) \<and> same_chain d l"
  by (auto simp: priorPolicyRetry_find records_rev dest!: find_in_set)

lemma prior_snoc: "priorPolicyRetry (es @ [e]) d = (case retry_of e of
    Some x \<Rightarrow> if same_chain d x then Some x else priorPolicyRetry es d | None \<Rightarrow> priorPolicyRetry es d)"
  by (simp add: priorPolicyRetry_find split: option.split)

lemma prior_cong: "typed_record d \<Longrightarrow> typed_record d' \<Longrightarrow> chain_of d = chain_of d'
    \<Longrightarrow> \<forall>x \<in> set (records es). typed_record x \<Longrightarrow> priorPolicyRetry es d = priorPolicyRetry es d'"
  unfolding priorPolicyRetry_find by (rule find_cong_on) (auto simp: typed_chain records_rev)

lemma chain_ids_snoc:
  assumes "chain_ids_ok es" "retry_of e = Some d"
    and "\<And>x. x \<in> set (records es) \<Longrightarrow> lr_retryId x = lr_retryId d \<Longrightarrow> chain_of x = chain_of d"
  shows "chain_ids_ok (es @ [e])"
proof -
  have R: "set (records (es @ [e])) = insert d (set (records es))" using assms(2) by simp
  have "chain_of x = chain_of y" if "lr_retryId x = lr_retryId y" "x \<in> insert d (set (records es))"
    "y \<in> insert d (set (records es))" for x y
  proof -
    from that(2,3) consider "x = d" "y = d" | "x = d" "y \<in> set (records es)" | "x \<in> set (records es)" "y = d"
      | "x \<in> set (records es)" "y \<in> set (records es)" by blast
    then show ?thesis
    proof cases
      case 2
      with assms(3) [of y] that(1) show ?thesis by simp
    next
      case 3
      with assms(3) [of x] that(1) show ?thesis by simp
    next
      case 4
      with assms(1) that(1) show ?thesis unfolding chain_ids_ok_def by blast
    qed simp
  qed
  then show ?thesis unfolding chain_ids_ok_def R by blast
qed

lemma chains_ok_snoc:
  assumes ok: "chains_ok es" and typed: "\<forall>x \<in> set (records es). typed_record x" "typed_record d"
    and e: "retry_of e = Some d" and chain: "validate_chain es d = Inr ()"
  shows "chains_ok (es @ [e])"
proof (cases "priorPolicyRetry es d")
  case None
  with chain have fresh: "\<not> list_ex (owns_retryId (lr_retryId d)) es" by (auto simp: validate_chain_def split: if_splits)
  have ids: "lr_retryId x \<noteq> lr_retryId d" if "x \<in> set (records es)" for x
  proof
    assume *: "lr_retryId x = lr_retryId d"
    from that obtain f where "f \<in> set es" "retry_of f = Some x" by (auto simp: records_iff)
    with * typed_ids [OF typed(2)] have "f \<in> set es \<and> owns_retryId (lr_retryId d) f"
      by (simp add: owns_retryId_def retry_of_Some)
    with fresh show False by (auto simp: list_ex_iff)
  qed
  have other: "\<not> same_chain x d" if "x \<in> set (records es)" for x
    using that None typed by (auto simp: priorPolicyRetry_find find_None_iff_all records_rev typed_chain)
  have "same_chain d d" using typed(2) by (simp add: typed_chain)
  have "chain_ids_ok (es @ [e])"
    using ok ids by (intro chain_ids_snoc [OF _ e]) (auto simp: chains_ok_def)
  moreover have "\<exists>l. heads (es @ [e]) x l" if "x \<in> set (records es)" for x
    using that ok e other [OF that] by (auto simp: chains_ok_def heads_def prior_snoc)
  moreover have "heads (es @ [e]) d d"
    using e \<open>same_chain d d\<close> by (simp add: heads_def prior_snoc)
  ultimately show ?thesis using e by (auto simp: chains_ok_def)
next
  case (Some prior)
  then have prior: "prior \<in> set (records es)" "same_chain d prior" using prior_in_records by blast+
  from Some chain have num: "int_value (lr_retry d) = int_value (lr_retry prior) + 1"
    and "js_same (lr_retryId prior) (lr_retryId d)" by (auto simp: validate_chain_def split: if_splits)
  with typed prior have id: "lr_retryId d = lr_retryId prior" and ch: "chain_of d = chain_of prior"
    by (auto simp: typed_ids typed_chain)
  have self: "same_chain d d" using typed(2) by (simp add: typed_chain)
  have same: "same_chain x d \<longleftrightarrow> chain_of x = chain_of prior" if "x \<in> set (records es)" for x
    using that typed ch by (auto simp: typed_chain)
  have last: "int_value (lr_retry x) \<le> int_value (lr_retry prior) \<and> lr_retryId prior = lr_retryId x"
    if "x \<in> set (records es)" "chain_of x = chain_of prior" for x
  proof -
    have "priorPolicyRetry es x = priorPolicyRetry es d"
      using that typed ch by (intro prior_cong) auto
    with Some ok that show ?thesis by (auto simp: chains_ok_def heads_def)
  qed
  have "chain_of x = chain_of d" if "x \<in> set (records es)" "lr_retryId x = lr_retryId d" for x
  proof -
    from that(2) id have "lr_retryId x = lr_retryId prior" by (rule trans)
    with ok that(1) prior(1) have "chain_of x = chain_of prior" unfolding chains_ok_def chain_ids_ok_def by blast
    with ch show ?thesis by simp
  qed
  with ok have "chain_ids_ok (es @ [e])" unfolding chains_ok_def by (intro chain_ids_snoc [OF _ e]) blast+
  moreover have "\<exists>l. heads (es @ [e]) x l" if x: "x \<in> set (records es)" for x
  proof (cases "same_chain x d")
    case True
    with last [OF x] same [OF x] num id e have "heads (es @ [e]) x d" by (auto simp: heads_def prior_snoc)
    then show ?thesis ..
  next
    case False
    with x ok e show ?thesis by (auto simp: chains_ok_def heads_def prior_snoc)
  qed
  moreover have "heads (es @ [e]) d d" using self e by (simp add: heads_def prior_snoc)
  ultimately show ?thesis using e by (auto simp: chains_ok_def)
qed

lemma validated_chains: "seedSession es = Inr t \<Longrightarrow> validateSession es = Inr () \<Longrightarrow> chains_ok es"
proof (induction es arbitrary: t rule: rev_induct)
  case Nil
  then show ?case by (simp add: chains_ok_def chain_ids_ok_def)
next
  case (snoc e es)
  then obtain u where u: "seedSession es = Inr u" "validateSession es = Inr ()" "validate_record es e = Inr ()"
    by (auto simp: seedSession_snoc validateSession_snoc)
  note ok = snoc.IH [OF u(1,2)] and typed = typed_records [OF u(1,2)]
  show ?case
  proof (cases "retry_of e")
    case None
    then have "heads (es @ [e]) = heads es" by (intro ext) (simp add: heads_def prior_snoc)
    moreover have "records (es @ [e]) = records es" using None by simp
    ultimately show ?thesis using ok unfolding chains_ok_def chain_ids_ok_def by (simp only:)
  next
    case (Some d)
    with u(3) have valid: "validateRetry es d = Inr ()" by (simp add: retry_of_Some validate_record_def)
    then have "validate_chain es d = Inr ()" by (simp add: validateRetry_def res_simps)
    with ok typed validated_typed [OF valid u(1)] Some show ?thesis by (rule chains_ok_snoc)
  qed
qed

end
