(* ===== verification/Retry_Recovery.thy ===== *)
theory Retry_Recovery
  imports Retry
begin

text \<open>
  What the request recovery guarantees: the records it appends to an accepted session log pass the durable
  invariant (\<open>recover_writes_valid\<close>), a step under a normal policy ends within its retry bound, and a step
  under an always policy lasts until the provider answers. The loop is the request loop of one step,
  \<^verbatim>\<open>packages/core/agent-loop/src/agent.ts\<close>.
\<close>

section \<open>The scheduled record\<close>

text \<open>The log can take a retry record of the request: its step is open, the log is accepted and its retry
  records are valid, the routed provider is the request's, and the fresh identity is not in use.\<close>

definition ready :: "retry_env \<Rightarrow> retry_request \<Rightarrow> session_event list \<Rightarrow> bool" where
  "ready env rq es \<longleftrightarrow>
     (case seedSession es of Inl err \<Rightarrow> False
      | Inr t \<Rightarrow> openTurn t = Some (rq_turn rq) \<and> openStep t = Some (rq_step rq))
     \<and> validateSession es = Inr ()
     \<and> providerForOpenStep es (rq_turn rq) (rq_step rq) = Some (rq_provider rq)
     \<and> \<not> list_ex (owns_retryId (JStr (rv_uuid env))) es
     \<and> int (length es) < max_safe_integer"

text \<open>What the recovery relies on of its environment and request.\<close>

definition sound_request :: "retry_env \<Rightarrow> retry_request \<Rightarrow> bool" where
  "sound_request env rq \<longleftrightarrow> rounds_monotonically (rv_rnd env) \<and> 0 \<le> rv_random env \<and> rv_uuid env \<noteq> []
     \<and> rq_provider rq \<noteq> [] \<and> validateFailure (rq_failure rq) = Inr ()
     \<and> (case rq_policy rq of None \<Rightarrow> True | Some policy \<Rightarrow> policy_ok policy)"

lemma numbers_bounded:
  "validateSession es = Inr () \<Longrightarrow> d \<in> set (records es) \<Longrightarrow> int_value (lr_retry d) \<le> int (length es)"
proof (induction es arbitrary: d rule: rev_induct)
  case (snoc e es)
  then have IH: "int_value (lr_retry x) \<le> int (length es)" if "x \<in> set (records es)" for x
    using that by (simp add: validateSession_snoc)
  from snoc.prems(2) consider "d \<in> set (records es)" | "retry_of e = Some d" by (cases "retry_of e") auto
  then show ?case
  proof cases
    case 2
    with snoc.prems(1) have "validate_chain es d = Inr ()"
      by (simp add: validateSession_snoc validate_record_def validateRetry_def retry_of_Some res_simps)
    then have "int_value (lr_retry d) = 1 \<or>
        (\<exists>x. priorPolicyRetry es d = Some x \<and> int_value (lr_retry d) = int_value (lr_retry x) + 1)"
      by (auto simp: validate_chain_def split: option.splits if_splits)
    with prior_in_records IH show ?thesis by fastforce
  qed (use IH in fastforce)
qed simp

lemma retry_delay_ok:
  assumes "sound_request env rq" "policy_ok policy" "retry_delay env policy failure retry = Some d"
  shows "delay_ok (JNum (Num d))"
proof -
  let ?b = "policy_backoff policy"
  have b: "backoff_ok ?b" using assms(2) by (cases policy) (simp_all add: policy_backoff_def)
  note own = localDelay_bounds [OF _ this, of "rv_rnd env" "rv_random env" retry]
  from assms(3) have "d = localDelay (rv_rnd env) ?b retry (rv_random env) \<or> 0 < d \<and> d \<le> rb_maxDelayMs ?b"
    by (auto simp: retry_delay_def Let_def split: option.splits if_splits retry_policy.splits)
  with own assms(1) have "0 \<le> d \<and> d \<le> rb_maxDelayMs ?b" by (auto simp: sound_request_def)
  with b show ?thesis by (auto simp: delay_ok_def finite_value_def is_finite_def rat_of_number_def backoff_ok_def)
qed

lemma ready_trace:
  assumes "ready env rq es"
  obtains t where "seedSession es = Inr t" "openTurn t = Some (rq_turn rq)" "openStep t = Some (rq_step rq)"
  using assms by (auto simp: ready_def split: sum.splits)

lemma record_sel [simp]:
  "at_place (retry_record env rq policy retry i d) (rq_turn rq) (rq_step rq)"
  "in_chain (retry_record env rq policy retry i d) (rq_provider rq) (retryPolicyKey (rv_num env) policy)"
  "lr_retry (retry_record env rq policy retry i d) = JNum (js_int retry)"
  "lr_turn (retry_record env rq policy retry i d) = JNum (js_int (rq_turn rq))"
  "lr_step (retry_record env rq policy retry i d) = JNum (js_int (rq_step rq))"
  "lr_provider (retry_record env rq policy retry i d) = JStr (rq_provider rq)"
  "lr_policyKey (retry_record env rq policy retry i d) = JStr (retryPolicyKey (rv_num env) policy)"
  "lr_retryId (retry_record env rq policy retry i d) = i"
  "lr_delayMs (retry_record env rq policy retry i d) = JNum (Num d)"
  "lr_failure (retry_record env rq policy retry i d) = rq_failure rq"
  by (simp_all add: retry_record_def at_place_def in_chain_def)

lemma previous_is_prior:
  assumes "ready env rq es"
  shows "previous_retry env rq policy es = map_option entry_of (priorPolicyRetry es (retry_record env rq policy retry i d))"
proof -
  from assms obtain t where t: "seedSession es = Inr t" "openTurn t = Some (rq_turn rq)" "openStep t = Some (rq_step rq)"
    by (rule ready_trace)
  have valid: "validateSession es = Inr ()" using assms by (simp add: ready_def)
  show ?thesis unfolding previous_retry_def by (rule projection_history [OF t(1) valid t(2,3) record_sel(1,2)])
qed

lemma previous_facts:
  assumes "ready env rq es"
  obtains (None) "previous_retry env rq policy es = None"
      "\<And>retry i d. priorPolicyRetry es (retry_record env rq policy retry i d) = None"
  | (Some) prior i m where "previous_retry env rq policy es = Some (JNum (js_int m), JStr i)"
      "\<And>retry i d. priorPolicyRetry es (retry_record env rq policy retry i d) = Some prior"
      "prior \<in> set (records es)" "numbered prior i m" "m \<le> int (length es)"
proof (cases "previous_retry env rq policy es")
  case None
  with previous_is_prior [OF assms, of policy] show ?thesis by (intro that(1)) simp_all
next
  case (Some entry)
  have valid: "validateSession es = Inr ()" using assms by (simp add: ready_def)
  have "map_option entry_of (priorPolicyRetry es (retry_record env rq policy 0 JUndef 0)) = Some entry"
    using previous_is_prior [OF assms, of policy 0 JUndef 0] Some by simp
  then obtain prior where prior: "priorPolicyRetry es (retry_record env rq policy 0 JUndef 0) = Some prior"
    "entry = entry_of prior" by auto
  have same: "same_chain (retry_record env rq policy r i d) = same_chain (retry_record env rq policy 0 JUndef 0)" for r i d
    by (intro ext) (simp add: same_chain_def)
  have "priorPolicyRetry es (retry_record env rq policy r i d) = Some prior" for r i d
    unfolding priorPolicyRetry_find same [of r i d] using prior(1) by (simp only: priorPolicyRetry_find)
  moreover have rec: "prior \<in> set (records es)" using prior_in_records [OF prior(1)] by blast
  moreover from validated_records [OF valid rec] obtain i m where num: "numbered prior i m" by blast
  moreover have "m \<le> int (length es)"
    using numbers_bounded [OF valid rec] num by (simp add: numbered_def int_value_def)
  moreover have "previous_retry env rq policy es = Some (JNum (js_int m), JStr i)"
    using Some prior(2) num by (simp add: entry_of_def numbered_def)
  ultimately show ?thesis by (intro that(2))
qed

lemma place_valid:
  assumes "ready env rq es" "at_place d (rq_turn rq) (rq_step rq)" "lr_provider d = JStr (rq_provider rq)"
  shows "validate_place es d = Inr ()"
proof -
  from assms(1) obtain t where t: "seedSession es = Inr t" "openTurn t = Some (rq_turn rq)" "openStep t = Some (rq_step rq)"
    by (rule ready_trace)
  from boundaries [OF t(1), of "rq_turn rq" "rq_step rq"] t(2,3) assms show ?thesis
    by (simp add: validate_place_def ready_def at_place_def)
qed

lemma scheduled_valid:
  assumes ready: "ready env rq es" and sound: "sound_request env rq" and policy: "policy_ok policy"
    and delay: "delay_ok (JNum (Num d))"
    and retry: "\<not> exhausted policy (previous_number (previous_retry env rq policy es))"
  defines "m \<equiv> previous_number (previous_retry env rq policy es) + 1"
    and "i \<equiv> chain_retryId env (previous_retry env rq policy es)"
  shows "validateRetry es (retry_record env rq policy m i d) = Inr ()" "\<exists>s. i = JStr s \<and> s \<noteq> []"
proof -
  let ?d = "retry_record env rq policy m i d"
  have facts: "1 \<le> m \<and> safe_int m \<and> (\<exists>s. i = JStr s \<and> s \<noteq> []) \<and> validate_chain es ?d = Inr ()"
    using ready
  proof (cases rule: previous_facts [where policy = policy])
    case None
    with ready sound show ?thesis
      by (simp add: m_def i_def previous_number_def chain_retryId_def validate_chain_def int_value_def ready_def
          sound_request_def safe_int_def max_safe_integer_def)
  next
    case (Some prior j k)
    with ready show ?thesis
      by (simp add: m_def i_def previous_number_def chain_retryId_def validate_chain_def int_value_def ready_def
          numbered_def safe_int_def)
  qed
  then show "\<exists>s. i = JStr s \<and> s \<noteq> []" by blast
  have mode: "validate_mode ?d = Inr ()"
  proof (cases policy)
    case (NormalPolicy maxRetries codes b)
    with retry policy facts show ?thesis
      by (auto simp: validate_mode_def retry_record_def positive_safe_iff int_value_def m_def)
  qed (simp add: validate_mode_def retry_record_def)
  have "validate_fields ?d = Inr ()"
    using facts mode delay sound
    by (simp add: validate_fields_def nonempty_str_iff positive_safe_iff sound_request_def)
  moreover have "validate_place es ?d = Inr ()"
    by (rule place_valid [OF ready]) (simp_all add: retry_record_def at_place_def)
  ultimately show "validateRetry es ?d = Inr ()" using facts by (simp add: validateRetry_def)
qed

section \<open>The started record\<close>

text \<open>Events that are not retry records.\<close>

definition is_record :: "session_event \<Rightarrow> bool" where
  "is_record e = (case ev_data e of LlmRetry _ \<Rightarrow> True | LlmRetryStarted _ \<Rightarrow> True | _ \<Rightarrow> False)"

definition quiet :: "session_event list \<Rightarrow> bool" where
  "quiet es \<longleftrightarrow> (\<forall>e \<in> set es. \<not> is_record e)"

lemma validated_at:
  "validateSession (pre @ e # post) = Inr () \<Longrightarrow> validate_record pre e = Inr ()"
  by (auto simp: validateSession_def validate_from_append res_simps)

lemma started_scheduled:
  assumes "validateSession es = Inr ()" "e \<in> set es" "ev_data e = LlmRetryStarted x"
  shows "\<exists>d \<in> set (records es). js_same (lr_retryId d) (ls_retryId x) \<and> js_same (lr_retry d) (ls_retry x)"
proof -
  from assms(2) obtain pre post where es: "es = pre @ e # post" by (auto simp: in_set_conv_decomp)
  with assms validated_at [of pre e post] have "validateStarted pre x = Inr ()" by (simp add: validate_record_def)
  then obtain f d where "findLast (\<lambda>e. case retry_of e of
      Some prior \<Rightarrow> js_same (lr_retryId prior) (ls_retryId x) \<and> js_same (lr_retry prior) (ls_retry x)
    | None \<Rightarrow> False) pre = Some f" "retry_of f = Some d"
    by (auto simp: validateStarted_def split: if_splits option.splits)
  then have f: "f \<in> set pre" "retry_of f = Some d" "js_same (lr_retryId d) (ls_retryId x)" "js_same (lr_retry d) (ls_retry x)"
    by (auto simp: findLast_def dest!: find_in_set)
  have "d \<in> set (records pre)" using f(1,2) by (auto simp: records_iff)
  with f es show ?thesis by (auto simp: records_append)
qed

lemma record_typed:
  assumes "ready env rq es"
  shows "typed_record (retry_record env rq policy 1 (JStr ''r'') d)"
proof -
  from assms obtain t where t: "seedSession es = Inr t" "openTurn t = Some (rq_turn rq)" "openStep t = Some (rq_step rq)"
    by (rule ready_trace)
  from seedSession_inv [OF t(1)] t(2,3) have "1 \<le> rq_turn rq" "1 \<le> rq_step rq" by (auto simp: trace_inv_def)
  then show ?thesis unfolding typed_record_def numbered_def
    by (intro exI conjI) (rule record_sel | simp add: safe_int_def max_safe_integer_def)+
qed

text \<open>No record of the retry that was just scheduled has been started.\<close>

lemma not_started:
  assumes ready: "ready env rq es"
    and "e \<in> set es" "ev_data e = LlmRetryStarted x"
    and "js_same (ls_retryId x) (chain_retryId env (previous_retry env rq policy es))"
    and "js_same (ls_retry x) (JNum (js_int (previous_number (previous_retry env rq policy es) + 1)))"
  shows False
proof -
  have valid: "validateSession es = Inr ()" using ready by (simp add: ready_def)
  from ready obtain t where seed: "seedSession es = Inr t" by (rule ready_trace)
  from started_scheduled [OF valid assms(2,3)] obtain d where d: "d \<in> set (records es)"
    "js_same (lr_retryId d) (ls_retryId x)" "js_same (lr_retry d) (ls_retry x)" by blast
  show False using ready
  proof (cases rule: previous_facts [where policy = policy])
    case None
    with assms have "owns_retryId (JStr (rv_uuid env)) e" by (simp add: owns_retryId_def chain_retryId_def)
    with ready assms(2) show False by (auto simp: ready_def list_ex_iff)
  next
    case (Some prior i m)
    from validated_records [OF valid d(1)] obtain j k where k: "numbered d j k" by blast
    then have "ls_retryId x = JStr j" "ls_retry x = JNum (js_int k)"
      using d(2,3) by (simp_all add: numbered_def js_same_positive')
    with Some(1) assms(4,5) k have eq: "j = i" "k = m + 1"
      by (simp_all add: chain_retryId_def previous_number_def int_value_def)
    then have "lr_retryId d = lr_retryId prior" using k Some(4) by (simp add: numbered_def)
    with validated_chains [OF seed valid] d(1) Some(3) obtain l where l: "heads es d l" "chain_of d = chain_of prior"
      unfolding chains_ok_def chain_ids_ok_def by blast
    note typed = typed_records [OF seed valid]
    let ?r = "retry_record env rq policy 1 (JStr ''r'') 0"
    have r: "typed_record ?r" by (rule record_typed [OF ready])
    have "same_chain ?r prior" using prior_in_records [OF Some(2)] by blast
    with r typed Some(3) have "chain_of prior = chain_of ?r" by (simp add: typed_chain)
    then have "priorPolicyRetry es d = priorPolicyRetry es ?r"
      using l(2) r typed d(1) by (intro prior_cong) simp_all
    then have "l = prior" using l(1) Some(2) by (simp add: heads_def)
    with l(1) k Some(4) eq show False by (simp add: heads_def numbered_def int_value_def)
  qed
qed

lemma started_valid:
  assumes ready: "ready env rq es"
    and num: "m = previous_number (previous_retry env rq policy es) + 1" "1 \<le> m"
    and i: "i = chain_retryId env (previous_retry env rq policy es)" "i = JStr s" "s \<noteq> []"
    and e: "ev_data e = LlmRetry (retry_record env rq policy m i d)"
    and extra: "quiet extra"
  shows "validateStarted (es @ e # extra) (started_record rq m i) = Inr ()"
proof -
  let ?p = "\<lambda>e. case retry_of e of
      Some prior \<Rightarrow> js_same (lr_retryId prior) i \<and> js_same (lr_retry prior) (JNum (js_int m)) | None \<Rightarrow> False"
  have r: "retry_of e = Some (retry_record env rq policy m i d)" using e by (simp add: retry_of_Some)
  have "find ?p (rev extra) = None" unfolding find_None_iff_all
    using extra by (force simp: quiet_def is_record_def retry_of_def split: event_data.splits)
  then have found: "findLast ?p (es @ e # extra) = Some e"
    using r i(2) by (simp add: findLast_def find_append)
  have "False" if "f \<in> set (es @ e # extra)" "ev_data f = LlmRetryStarted x" "js_same (ls_retryId x) i"
    "js_same (ls_retry x) (JNum (js_int m))" for f x
  proof -
    from that(1) consider "f \<in> set es" | "f = e" | "f \<in> set extra" by auto
    then show False
    proof cases
      case 1
      from not_started [OF ready this that(2)] that(3,4) num i show False by simp
    qed (use that(2) e extra in \<open>auto simp: quiet_def is_record_def\<close>)
  qed
  then have "\<not> list_ex (\<lambda>e. case ev_data e of LlmRetryStarted prior \<Rightarrow>
      js_same (ls_retryId prior) i \<and> js_same (ls_retry prior) (JNum (js_int m)) | _ \<Rightarrow> False) (es @ e # extra)"
    unfolding list_ex_iff by (force split: event_data.splits)
  with found r i(2,3) show ?thesis
    unfolding validateStarted_def started_record_def llm_retry_started.simps by (simp add: nonempty_str_def)
qed

section \<open>Recovery keeps the durable invariant\<close>

text \<open>During the delay nobody else appends retry records; the downstream recovery leaves the log ready.\<close>

definition waits_quietly :: "retry_env \<Rightarrow> bool" where
  "waits_quietly env \<longleftrightarrow> (\<forall>es. \<exists>extra. fst (rv_wait env es) = es @ extra \<and> quiet extra)"

definition downstream_keeps :: "retry_env \<Rightarrow> retry_request \<Rightarrow> bool" where
  "downstream_keeps env rq \<longleftrightarrow> (\<forall>es. ready env rq es \<longrightarrow> ready env rq (fst (rv_next env es)))"

lemma validate_quiet: "validateSession es = Inr () \<Longrightarrow> quiet extra \<Longrightarrow> validateSession (es @ extra) = Inr ()"
proof (induction extra rule: rev_induct)
  case (snoc e extra)
  then have "validateSession (es @ extra) = Inr ()" "\<not> is_record e" by (simp_all add: quiet_def)
  then have "validateSession ((es @ extra) @ [e]) = Inr ()" unfolding validateSession_snoc
    by (auto simp: validate_record_def is_record_def split: event_data.splits)
  then show ?case by simp
qed simp

lemma backoff_valid:
  assumes ready: "ready env rq es" and sound: "sound_request env rq" and policy: "policy_ok policy"
    and delay: "retry_delay env policy (rq_failure rq) (previous_number (previous_retry env rq policy es) + 1) = Some d"
    and retry: "\<not> exhausted policy (previous_number (previous_retry env rq policy es))"
    and wait: "waits_quietly env"
  shows "validateSession (fst (backoff env rq policy (previous_number (previous_retry env rq policy es) + 1)
      (chain_retryId env (previous_retry env rq policy es)) d es)) = Inr ()"
proof -
  define m where m: "m = previous_number (previous_retry env rq policy es) + 1"
  define i where i: "i = chain_retryId env (previous_retry env rq policy es)"
  define e where e: "e = log_event (length es) (rv_now env) (LlmRetry (retry_record env rq policy m i d))"
  have valid: "validateSession es = Inr ()" using ready by (simp add: ready_def)
  note scheduled = scheduled_valid [OF ready sound policy retry_delay_ok [OF sound policy delay] retry, folded m i]
  then obtain j where j: "i = JStr j" "j \<noteq> []" by blast
  have first: "validateSession (es @ [e]) = Inr ()"
    unfolding validateSession_snoc using valid scheduled(1) by (simp add: validate_record_def e)
  from wait obtain extra where extra: "fst (rv_wait env (es @ [e])) = (es @ [e]) @ extra" "quiet extra"
    unfolding waits_quietly_def by blast
  have waited: "validateSession (es @ e # extra) = Inr ()" using validate_quiet [OF first extra(2)] by simp
  have "1 \<le> m"
    using ready by (cases rule: previous_facts [where policy = policy]) (simp_all add: m previous_number_def int_value_def numbered_def)
  from started_valid [OF ready m this i j _ extra(2), of e d]
  have "validateStarted (es @ e # extra) (started_record rq m i) = Inr ()" by (simp add: e)
  then have "validateSession (append_event env (LlmRetryStarted (started_record rq m i)) (es @ e # extra)) = Inr ()"
    unfolding append_event_def validateSession_snoc using waited by (simp add: validate_record_def)
  with waited extra(1) valid show ?thesis unfolding m [symmetric] i [symmetric]
    by (auto simp: backoff_def append_event_def e [symmetric] split: prod.split)
qed

lemma schedule_valid:
  assumes "ready env rq es" "sound_request env rq" "policy_ok policy" "waits_quietly env" "downstream_keeps env rq"
  shows "validateSession (fst (schedule env rq policy es)) = Inr ()"
proof -
  have "validateSession (fst (rv_next env es)) = Inr ()"
    using assms(1,5) by (simp add: downstream_keeps_def ready_def)
  then show ?thesis
    using backoff_valid [OF assms(1-3) _ _ assms(4)] by (simp add: schedule_def Let_def split: option.split)
qed

text \<open>C13: When a request of the open step fails, every retry record that the recovery appends to an accepted
  session log passes the durable invariant: its number, identity, delay and place are the ones that the
  validator expects of the log before it, under normal and under always policies, whatever the signals, the
  delay and the downstream recovery do.\<close>

theorem recover_writes_valid:
  assumes "ready env rq es" "sound_request env rq" "waits_quietly env" "downstream_keeps env rq"
  shows "validateSession (fst (on_request_error env rq es)) = Inr ()"
proof -
  have valid: "validateSession es = Inr ()" and ready1: "ready env rq (fst (rv_next env es))"
    using assms(1,4) by (simp_all add: downstream_keeps_def ready_def)
  then have next_ok: "validateSession (fst (rv_next env es)) = Inr ()" by (simp add: ready_def)
  show ?thesis
  proof (cases "rq_policy rq")
    case None
    with valid next_ok show ?thesis by (simp add: on_request_error_def recover_def)
  next
    case (Some policy)
    with assms(2) have ok: "policy_ok policy" by (simp add: sound_request_def)
    note sched = schedule_valid [OF _ assms(2) ok assms(3,4)]
    obtain es1 r where nxt: "rv_next env es = (es1, r)" by (cases "rv_next env es")
    with sched ready1 assms(1) valid next_ok Some show ?thesis
      by (cases policy) (simp_all add: on_request_error_def recover_def)
  qed
qed

text \<open>A step whose request has failed for the first time, under the default policy.\<close>

definition sample_failure :: jsval where
  "sample_failure = JObj [(''message'', JStr ''down''), (''code'', JStr ''SERVER''), (''status'', JNum (js_int 503))]"

definition sample_retry_env :: retry_env where
  "sample_retry_env = \<lparr>rv_num = (\<lambda>r. ''0''), rv_rnd = (\<lambda>r. r), rv_now = 9, rv_uuid = ''u1'', rv_random = 1 / 2,
     rv_disposed = False, rv_aborted = False, rv_abortedLater = False, rv_next = (\<lambda>es. (es, Inr False)),
     rv_wait = (\<lambda>es. (es, True))\<rparr>"

definition sample_request :: retry_request where
  "sample_request = \<lparr>rq_turn = 1, rq_step = 1, rq_provider = ''deepseek'', rq_failure = sample_failure,
     rq_policy = Some (NormalPolicy 5 [''SERVER''] \<lparr>rb_initialDelayMs = 500, rb_maxDelayMs = 10000, rb_jitterRatio = 0\<rparr>)\<rparr>"

definition sample_step :: "session_event list" where
  "sample_step = [log_event 0 0 (TurnStart 1), log_event 1 0 (StepStart 1 1), log_event 2 0 (RequestHeader ''deepseek''),
     log_event 3 0 (AssistantAttempt 1 1)]"

theorem recover_writes_valid_witness:
  "validateSession (fst (on_request_error sample_retry_env sample_request sample_step)) = Inr ()
   \<and> int (length (fst (on_request_error sample_retry_env sample_request sample_step))) = 6"
proof
  have "ready sample_retry_env sample_request sample_step" by code_simp
  moreover have "sound_request sample_retry_env sample_request"
    unfolding sound_request_def
  proof (intro conjI)
    show "rounds_monotonically (rv_rnd sample_retry_env)" by (simp add: rounds_monotonically_def sample_retry_env_def)
  qed code_simp+
  moreover have "waits_quietly sample_retry_env" by (simp add: waits_quietly_def sample_retry_env_def quiet_def)
  moreover have "downstream_keeps sample_retry_env sample_request"
    by (simp add: downstream_keeps_def sample_retry_env_def)
  ultimately show "validateSession (fst (on_request_error sample_retry_env sample_request sample_step)) = Inr ()"
    by (rule recover_writes_valid)
  show "int (length (fst (on_request_error sample_retry_env sample_request sample_step))) = 6" by code_simp
qed

section \<open>The request loop of a step\<close>

text \<open>One attempt: the events that building the request appends, the request's route and policy, and the
  failure of its stream, if it fails; then the environment of its recovery, and whether the signal has
  aborted when the recovery returns.\<close>

record attempt =
  at_build :: "session_event list \<Rightarrow> session_event list"
  at_provider :: string
  at_policy :: "retry_policy option"
  at_failure :: "jsval option"
  at_env :: retry_env
  at_aborted :: bool

datatype step_result = Answered | StepFailed jsval | StepAborted | RecoveryThrew string

text \<open>The loop, with the number of attempts it may make; \<open>None\<close> when it is still running after them.\<close>

fun step_attempts ::
    "nat \<Rightarrow> int \<Rightarrow> int \<Rightarrow> (nat \<Rightarrow> attempt) \<Rightarrow> nat \<Rightarrow> session_event list \<Rightarrow> (session_event list \<times> step_result) option" where
  "step_attempts 0 turn step attempts i es = None"
| "step_attempts (Suc fuel) turn step attempts i es =
     (let a = attempts i; es1 = at_build a es in
      case at_failure a of
        None \<Rightarrow> Some (es1, Answered)
      | Some failure \<Rightarrow>
          (case on_request_error (at_env a)
               \<lparr>rq_turn = turn, rq_step = step, rq_provider = at_provider a, rq_failure = failure, rq_policy = at_policy a\<rparr>
               (append_event (at_env a) (AssistantAttempt turn step) es1) of
             (es2, Inl err) \<Rightarrow> Some (es2, RecoveryThrew err)
           | (es2, Inr retry) \<Rightarrow>
               if at_aborted a then Some (es2, StepAborted)
               else if \<not> retry then Some (es2, StepFailed failure)
               else step_attempts fuel turn step attempts (Suc i) es2))"

lemma step_attempts_mono:
  "step_attempts fuel turn step attempts i es = Some r \<Longrightarrow> step_attempts (Suc fuel) turn step attempts i es = Some r"
proof (induction fuel arbitrary: i es)
  case (Suc fuel)
  note prem = Suc.prems [unfolded step_attempts.simps(2) [of fuel]]
  show ?case using prem unfolding step_attempts.simps(2) [of "Suc fuel"]
    by (auto simp: Let_def Suc.IH simp del: step_attempts.simps split: option.splits prod.splits sum.splits if_splits)
qed simp

text \<open>Events that the retry projection ignores, and code that appends only such events.\<close>

definition ignored :: "session_event \<Rightarrow> bool" where
  "ignored e = (case ev_data e of StepStart _ _ \<Rightarrow> False | TurnEnd _ _ \<Rightarrow> False | LlmRetry _ \<Rightarrow> False | _ \<Rightarrow> True)"

definition appends_ignored :: "(session_event list \<Rightarrow> session_event list) \<Rightarrow> bool" where
  "appends_ignored f \<longleftrightarrow> (\<forall>es. \<exists>extra. f es = es @ extra \<and> list_all ignored extra)"

lemma projection_ignored: "list_all ignored extra \<Longrightarrow> retry_projection num (es @ extra) = retry_projection num es"
proof (induction extra rule: rev_induct)
  case (snoc e extra)
  then have "apply_retry num st e = st" for st
    by (auto simp: ignored_def apply_retry_def split: event_data.splits)
  with snoc show ?case by (simp add: retry_projection_def)
qed simp

lemma projection_appends: "appends_ignored f \<Longrightarrow> retry_projection num (f es) = retry_projection num es"
  by (metis appends_ignored_def projection_ignored)

text \<open>The number of the last retry under a provider and policy.\<close>

definition retry_number :: "(rat \<Rightarrow> string) \<Rightarrow> string \<Rightarrow> retry_policy \<Rightarrow> session_event list \<Rightarrow> int" where
  "retry_number num p policy es = previous_number (map_of (retry_projection num es)
     (retryStateKey num (JStr p) (JStr (retryPolicyKey num policy))))"

lemma retry_number_cong: "retry_projection num es = retry_projection num es' \<Longrightarrow> retry_number num p policy es = retry_number num p policy es'"
  by (simp add: retry_number_def)

lemma backoff_number:
  assumes "backoff env rq policy m i d es = (es', Inr True)" "appends_ignored (\<lambda>es. fst (rv_wait env es))"
  shows "retry_number (rv_num env) (rq_provider rq) policy es' = m"
proof -
  let ?e = "log_event (length es) (rv_now env) (LlmRetry (retry_record env rq policy m i d))"
  let ?n = "rv_num env"
  obtain es1 where w: "es1 = fst (rv_wait env (es @ [?e]))"
    and es': "es' = append_event env (LlmRetryStarted (started_record rq m i)) es1"
    using assms(1) by (auto simp: backoff_def append_event_def split: if_splits prod.splits)
  have "retry_projection ?n es' = retry_projection ?n es1"
    unfolding es' append_event_def by (intro projection_ignored) (simp add: ignored_def)
  also have "\<dots> = retry_projection ?n (es @ [?e])" unfolding w by (rule projection_appends [OF assms(2)])
  finally have "retry_projection ?n es' = apply_retry ?n (retry_projection ?n es) ?e" by (simp add: retry_projection_def)
  then show ?thesis
    by (simp add: retry_number_def apply_retry_def Let_def update_conv previous_number_def int_value_def)
qed

lemma normal_retry_counts:
  assumes "on_request_error env rq es = (es', Inr True)" "rq_policy rq = Some (NormalPolicy n codes b)"
    and "snd (rv_next env es) \<noteq> Inr True" "appends_ignored (\<lambda>es. fst (rv_wait env es))"
  defines "number \<equiv> retry_number (rv_num env) (rq_provider rq) (NormalPolicy n codes b)"
  shows "number es < n" "number es' = number es + 1"
proof -
  let ?p = "previous_retry env rq (NormalPolicy n codes b) es"
  have num: "number es = previous_number ?p" by (simp add: number_def retry_number_def previous_retry_def)
  obtain d where "\<not> exhausted (NormalPolicy n codes b) (previous_number ?p)"
    "backoff env rq (NormalPolicy n codes b) (previous_number ?p + 1) (chain_retryId env ?p) d es = (es', Inr True)"
    using assms(1-3) by (auto simp: on_request_error_def recover_def schedule_def Let_def split: if_splits option.splits)
  with backoff_number [OF this(2) assms(4)] num show "number es < n" "number es' = number es + 1"
    by (simp_all add: number_def)
qed

text \<open>A normal policy for one provider, with a downstream recovery that never decides to retry.\<close>

definition normal_attempt :: "(rat \<Rightarrow> string) \<Rightarrow> string \<Rightarrow> int \<Rightarrow> string list \<Rightarrow> retry_backoff \<Rightarrow> attempt \<Rightarrow> bool" where
  "normal_attempt num p n codes b a \<longleftrightarrow> at_provider a = p \<and> at_policy a = Some (NormalPolicy n codes b)
     \<and> rv_num (at_env a) = num \<and> appends_ignored (at_build a) \<and> appends_ignored (\<lambda>es. fst (rv_wait (at_env a) es))
     \<and> (\<forall>es. snd (rv_next (at_env a) es) \<noteq> Inr True)"

lemma attempts_end:
  assumes "\<And>i. normal_attempt num p n codes b (attempts i)"
  shows "n < retry_number num p (NormalPolicy n codes b) es + int fuel \<Longrightarrow> 0 < fuel
    \<Longrightarrow> step_attempts fuel turn step attempts i es \<noteq> None"
proof (induction fuel arbitrary: i es)
  case (Suc fuel)
  define a where a: "a = attempts i"
  note normal = assms [of i, folded a, unfolded normal_attempt_def]
  show ?case
  proof (cases "at_failure a")
    case (Some failure)
    define rq where rq: "rq = \<lparr>rq_turn = turn, rq_step = step, rq_provider = at_provider a, rq_failure = failure,
      rq_policy = at_policy a\<rparr>"
    define es1 where es1: "es1 = append_event (at_env a) (AssistantAttempt turn step) (at_build a es)"
    have "retry_projection num es1 = retry_projection num (at_build a es)"
      unfolding es1 append_event_def by (intro projection_ignored) (simp add: ignored_def)
    then have same: "retry_projection num es1 = retry_projection num es"
      using normal projection_appends [of "at_build a"] by simp
    obtain es2 r where r: "on_request_error (at_env a) rq es1 = (es2, r)" by fastforce
    show ?thesis
    proof (cases "r = Inr True \<and> \<not> at_aborted a")
      case True
      with r normal have "retry_number num p (NormalPolicy n codes b) es1 < n"
        "retry_number num p (NormalPolicy n codes b) es2 = retry_number num p (NormalPolicy n codes b) es1 + 1"
        using normal_retry_counts [of "at_env a" rq es1 es2 n codes b] by (simp_all add: rq)
      with Suc.prems(1) retry_number_cong [OF same] have "n < retry_number num p (NormalPolicy n codes b) es2 + int fuel"
        "0 < fuel" by simp_all
      with Suc.IH [of es2 "Suc i"] Some r True show ?thesis
        by (simp add: a [symmetric] rq [symmetric] es1 [symmetric])
    next
      case False
      with Some r show ?thesis by (cases r) (auto simp: a [symmetric] rq [symmetric] es1 [symmetric])
    qed
  qed (simp add: a [symmetric])
qed simp


definition sample_attempt :: "nat \<Rightarrow> attempt" where
  "sample_attempt i = \<lparr>at_build = (\<lambda>es. es), at_provider = ''deepseek'', at_policy = rq_policy sample_request,
     at_failure = Some sample_failure, at_env = sample_retry_env, at_aborted = False\<rparr>"


lemma always_retries:
  assumes "rq_policy rq = Some (AlwaysPolicy b)" "\<not> rv_disposed env" "\<not> rv_aborted env" "\<not> rv_abortedLater env"
    and "\<And>es. snd (rv_wait env es)"
  shows "\<exists>es'. on_request_error env rq es = (es', Inr True)"
proof -
  have "\<exists>es'. backoff env rq policy m i d es = (es', Inr True)" for policy m i d es
    using assms(4) assms(5) [of "append_event env (LlmRetry (retry_record env rq policy m i d)) es"]
    by (auto simp: backoff_def split: prod.split)
  moreover have "\<exists>d. retry_delay env (AlwaysPolicy b) f m = Some d" for f m
    by (auto simp: retry_delay_def Let_def split: option.split)
  ultimately have "\<exists>es'. schedule env rq (AlwaysPolicy b) es = (es', Inr True)" for es
    by (simp add: schedule_def Let_def) (metis option.simps(5))
  with assms show ?thesis by (auto simp: on_request_error_def recover_def split: prod.split)
qed

text \<open>Under an always policy a step does not give up: when the provider answers an attempt, and no signal
  or cancelled delay ended the step before, the loop ends with that answer, after exactly the attempts that
  failed before it. Neither the number of failures nor a downstream recovery that declines or throws
  matters.\<close>

lemma always_step_answers:
  assumes "\<And>i. i < k \<Longrightarrow> \<exists>b. at_policy (attempts i) = Some (AlwaysPolicy b)"
    and "\<And>i. i < k \<Longrightarrow> \<not> rv_disposed (at_env (attempts i)) \<and> \<not> rv_aborted (at_env (attempts i))
      \<and> \<not> rv_abortedLater (at_env (attempts i)) \<and> \<not> at_aborted (attempts i)"
    and "\<And>i es. i < k \<Longrightarrow> snd (rv_wait (at_env (attempts i)) es)"
    and "\<And>i. i < k \<Longrightarrow> at_failure (attempts i) \<noteq> None" "at_failure (attempts k) = None"
  shows "\<exists>es'. step_attempts (Suc k) turn step attempts 0 es = Some (es', Answered)
    \<and> step_attempts k turn step attempts 0 es = None"
proof -
  have retry: "\<exists>es'. on_request_error (at_env (attempts i)) \<lparr>rq_turn = turn, rq_step = step,
      rq_provider = at_provider (attempts i), rq_failure = failure, rq_policy = at_policy (attempts i)\<rparr> es = (es', Inr True)"
    if "i < k" for i failure es
  proof -
    from assms(1) [OF that] obtain b where "at_policy (attempts i) = Some (AlwaysPolicy b)" ..
    with assms(2,3) [OF that] show ?thesis by (intro always_retries [where b = b]) simp_all
  qed
  have "j \<le> k \<Longrightarrow> (\<exists>es'. step_attempts (Suc j) turn step attempts (k - j) es = Some (es', Answered))
      \<and> step_attempts j turn step attempts (k - j) es = None" for j es
  proof (induction j arbitrary: es)
    case (Suc j)
    let ?a = "attempts (k - Suc j)"
    from Suc.prems have lt: "k - Suc j < k" "Suc (k - Suc j) = k - j" by simp_all
    from assms(4) [OF lt(1)] obtain failure where f: "at_failure ?a = Some failure" by blast
    from retry [OF lt(1)] obtain es2 where "on_request_error (at_env ?a) \<lparr>rq_turn = turn, rq_step = step,
      rq_provider = at_provider ?a, rq_failure = failure, rq_policy = at_policy ?a\<rparr>
      (append_event (at_env ?a) (AssistantAttempt turn step) (at_build ?a es)) = (es2, Inr True)" by blast
    with f assms(2) [OF lt(1)] lt(2)
    have "step_attempts (Suc m) turn step attempts (k - Suc j) es = step_attempts m turn step attempts (k - j) es2" for m
      by (simp add: Let_def)
    with Suc.IH [of es2] Suc.prems show ?case by simp
  qed (simp add: assms(5) Let_def)
  from this [of k es] show ?thesis by simp
qed

definition sample_outage :: "nat \<Rightarrow> attempt" where
  "sample_outage i = (sample_attempt i)\<lparr>at_policy := Some (AlwaysPolicy DEFAULT_BACKOFF),
     at_failure := (if i < 2 then Some sample_failure else None)\<rparr>"

end
