(* ===== verification/Trace_Append.thy ===== *)
theory Trace_Append
  imports Session_Trace
begin

text \<open>
  Appending to an accepted session log: which events the relational invariant accepts next, and the
  position they lead to. The driver of an agent and the scheduler of its tool calls are proved against
  these facts.
\<close>

named_theorems trace_append \<open>events that an accepted log takes\<close>

text \<open>The log is accepted, and numbered up to its length.\<close>

definition trace_at :: "session_event list \<Rightarrow> session_trace \<Rightarrow> bool" where
  "trace_at es t \<longleftrightarrow> seedSession es = Inr t \<and> lastSeq t = int (length es) - 1"

lemma trace_at_snoc:
  assumes "trace_at es t" "ev_seq e = length es" "trace_step t e = Inr t'"
  shows "trace_at (es @ [e]) t'"
  using assms trace_step_seq [OF assms(3)] by (simp add: trace_at_def seedSession_def fold_res_snoc)

lemma trace_at_inv: "trace_at es t \<Longrightarrow> trace_inv t"
  unfolding trace_at_def seedSession_def by (blast intro: trace_fold.replay_from_init)

section \<open>Positions\<close>

text \<open>No turn is open and \<open>n\<close> turns have ended; turn \<open>n\<close> is open between steps, with \<open>s\<close> steps behind
  it; step \<open>s\<close> of turn \<open>n\<close> is open, and the calls in \<open>P\<close> await their results.\<close>

definition idle_at :: "session_event list \<Rightarrow> int \<Rightarrow> bool" where
  "idle_at es n \<longleftrightarrow> (\<exists>t. trace_at es t \<and> openTurn t = None \<and> nextTurn t = n + 1)"

definition turn_at :: "session_event list \<Rightarrow> int \<Rightarrow> int \<Rightarrow> bool" where
  "turn_at es n s \<longleftrightarrow> (\<exists>t. trace_at es t \<and> openTurn t = Some n \<and> openStep t = None \<and> nextStep t = s + 1)"

definition step_at :: "session_event list \<Rightarrow> int \<Rightarrow> int \<Rightarrow> string set \<Rightarrow> bool" where
  "step_at es n s P \<longleftrightarrow> (\<exists>t. trace_at es t \<and> openTurn t = Some n \<and> openStep t = Some s \<and> pendingCalls t = P)"

lemmas position_defs = idle_at_def turn_at_def step_at_def

text \<open>Events that the trace only counts.\<close>

definition neutral :: "session_event \<Rightarrow> bool" where
  "neutral e = (case ev_data e of
     UserMessage _ \<Rightarrow> True | EndSeed \<Rightarrow> True | InboxSpliced _ \<Rightarrow> True | GoalChange _ \<Rightarrow> True | TodoWrite _ \<Rightarrow> True
   | LlmRetry _ \<Rightarrow> True | LlmRetryStarted _ \<Rightarrow> True | ScheduleChange _ \<Rightarrow> True | OtherEvent _ \<Rightarrow> True | _ \<Rightarrow> False)"

text \<open>An extension of the log by such events, numbered on.\<close>

definition neutral_tail :: "nat \<Rightarrow> session_event list \<Rightarrow> bool" where
  "neutral_tail base extra \<longleftrightarrow> list_all neutral extra \<and> contiguous base extra"

lemma neutral_tail_Nil [simp]: "neutral_tail base []"
  by (simp add: neutral_tail_def contiguous_def)

lemma contiguous_extend: "contiguous base (es @ [e]) \<longleftrightarrow> contiguous base es \<and> ev_seq e = base + length es"
  by (auto simp: contiguous_def nth_append less_Suc_eq)

lemma neutral_step:
  assumes "trace_at es t" "neutral e" "ev_seq e = length es"
  shows "trace_at (es @ [e]) (t\<lparr>lastSeq := int (length es)\<rparr>)"
  using assms
  by (intro trace_at_snoc [OF assms(1,3)], cases "ev_data e")
    (auto simp: neutral_def trace_simps trace_at_def)

lemma neutral_run:
  assumes "trace_at es t" "neutral_tail (length es) extra"
  shows "trace_at (es @ extra) (t\<lparr>lastSeq := int (length (es @ extra)) - 1\<rparr>)"
  using assms(2)
proof (induction extra rule: rev_induct)
  case Nil
  from assms(1) have "lastSeq t = int (length es) - 1" by (simp add: trace_at_def)
  then have "t\<lparr>lastSeq := int (length es) - 1\<rparr> = t" by (cases t) simp
  with assms(1) show ?case by simp
next
  case (snoc e extra)
  then have "trace_at (es @ extra) (t\<lparr>lastSeq := int (length (es @ extra)) - 1\<rparr>)" "neutral e"
    "ev_seq e = length (es @ extra)" by (auto simp: neutral_tail_def contiguous_extend)
  from neutral_step [OF this] show ?case by simp
qed

lemma neutral_positions [trace_append]:
  assumes "neutral_tail (length es) extra"
  shows "idle_at es n \<Longrightarrow> idle_at (es @ extra) n"
    and "turn_at es n s \<Longrightarrow> turn_at (es @ extra) n s"
    and "step_at es n s P \<Longrightarrow> step_at (es @ extra) n s P"
  using neutral_run [OF _ assms] unfolding position_defs by fastforce+

lemma append_position:
  assumes "trace_at es t" "ev_seq e = length es" "validateEvent t e = Inr v"
  shows "trace_at (es @ [e]) (applyTransition t v)"
  by (rule trace_at_snoc [OF assms(1,2)]) (simp add: trace_step_def assms(3))

section \<open>The events of a turn\<close>

lemma turn_start_position [trace_append]:
  assumes "idle_at es n" "ev_seq e = length es" "ev_data e = TurnStart (n + 1)"
  shows "turn_at (es @ [e]) (n + 1) 0"
proof -
  from assms(1) obtain t where t: "trace_at es t" "openTurn t = None" "nextTurn t = n + 1" by (auto simp: idle_at_def)
  from trace_at_inv [OF t(1)] t have "openStep t = None" by (simp add: trace_inv_def)
  moreover have "validateEvent t e = Inr ((keep t e)\<lparr>tt_openTurn := Some (n + 1), tt_nextStep := 1\<rparr>)"
    using t assms(2,3) by (simp add: validateEvent_def trace_at_def)
  from append_position [OF t(1) assms(2) this] have "trace_at (es @ [e]) (applyTransition t
    ((keep t e)\<lparr>tt_openTurn := Some (n + 1), tt_nextStep := 1\<rparr>))" .
  ultimately show ?thesis unfolding turn_at_def by (intro exI conjI) (assumption | simp add: applyTransition_def)+
qed

lemma turn_end_position [trace_append]:
  assumes "turn_at es n s" "ev_seq e = length es" "ev_data e = TurnEnd n reason"
  shows "idle_at (es @ [e]) n"
proof -
  from assms(1) obtain t where t: "trace_at es t" "openTurn t = Some n" "openStep t = None" by (auto simp: turn_at_def)
  from trace_at_inv [OF t(1)] t have "n = nextTurn t" by (simp add: trace_inv_def)
  moreover have "validateEvent t e = Inr ((keep t e)\<lparr>tt_openTurn := None, tt_nextTurn := nextTurn t + 1\<rparr>)"
    using t assms(2,3) by (simp add: validateEvent_def trace_at_def)
  from append_position [OF t(1) assms(2) this] have "trace_at (es @ [e]) (applyTransition t
    ((keep t e)\<lparr>tt_openTurn := None, tt_nextTurn := nextTurn t + 1\<rparr>))" .
  ultimately show ?thesis unfolding idle_at_def by (intro exI conjI) (assumption | simp add: applyTransition_def)+
qed

lemma step_start_position [trace_append]:
  assumes "turn_at es n s" "ev_seq e = length es" "ev_data e = StepStart n (s + 1)"
  shows "step_at (es @ [e]) n (s + 1) {}"
proof -
  from assms(1) obtain t where t: "trace_at es t" "openTurn t = Some n" "openStep t = None" "nextStep t = s + 1"
    by (auto simp: turn_at_def)
  from trace_at_inv [OF t(1)] t have "pendingCalls t = {}" by (simp add: trace_inv_def)
  moreover have "validateEvent t e = Inr ((keep t e)\<lparr>tt_openStep := Some (s + 1)\<rparr>)"
    using t assms(2,3) by (simp add: validateEvent_def trace_at_def)
  from append_position [OF t(1) assms(2) this] have "trace_at (es @ [e]) (applyTransition t
    ((keep t e)\<lparr>tt_openStep := Some (s + 1)\<rparr>))" .
  ultimately show ?thesis using t unfolding step_at_def
    by (intro exI conjI) (assumption | simp add: applyTransition_def)+
qed

lemma step_end_position [trace_append]:
  assumes "step_at es n s P" "ev_seq e = length es" "ev_data e = StepEnd n s"
  shows "turn_at (es @ [e]) n s"
proof -
  from assms(1) obtain t where t: "trace_at es t" "openTurn t = Some n" "openStep t = Some s" by (auto simp: step_at_def)
  from trace_at_inv [OF t(1)] t have "s = nextStep t" by (simp add: trace_inv_def)
  moreover have "validateEvent t e = Inr ((keep t e)\<lparr>tt_openStep := None, tt_nextStep := nextStep t + 1,
      tt_pendingCalls := ClearCalls\<rparr>)"
    using t assms(2,3) by (simp add: validateEvent_def trace_at_def requireOpenStep_def)
  from append_position [OF t(1) assms(2) this] have "trace_at (es @ [e]) (applyTransition t
    ((keep t e)\<lparr>tt_openStep := None, tt_nextStep := nextStep t + 1, tt_pendingCalls := ClearCalls\<rparr>))" .
  ultimately show ?thesis using t unfolding turn_at_def
    by (intro exI conjI) (assumption | simp add: applyTransition_def)+
qed

text \<open>Inside a step: events that leave the calls as they are, a call, and its result.\<close>

definition step_neutral :: "int \<Rightarrow> int \<Rightarrow> event_data \<Rightarrow> bool" where
  "step_neutral n s d = (case d of
     AssistantMessage m r content \<Rightarrow> m = n \<and> r = s | AssistantAttempt m r \<Rightarrow> m = n \<and> r = s
   | RequestHeader _ \<Rightarrow> True | RequestContext \<Rightarrow> True | _ \<Rightarrow> False)"

lemma step_neutral_position [trace_append]:
  assumes "step_at es n s P" "ev_seq e = length es" "step_neutral n s (ev_data e)"
  shows "step_at (es @ [e]) n s P"
proof -
  from assms(1) obtain t where t: "trace_at es t" "openTurn t = Some n" "openStep t = Some s" "pendingCalls t = P"
    by (auto simp: step_at_def)
  have "validateEvent t e = Inr (keep t e)"
    using t assms(2,3) by (cases "ev_data e") (auto simp: step_neutral_def validateEvent_def trace_at_def requireOpenStep_def)
  from append_position [OF t(1) assms(2) this] have "trace_at (es @ [e]) (applyTransition t (keep t e))" .
  with t show ?thesis unfolding step_at_def by (intro exI conjI) (assumption | simp add: applyTransition_def)+
qed

lemma call_position [trace_append]:
  assumes "step_at es n s P" "ev_seq e = length es" "ev_data e = ToolCall n s c"
  shows "step_at (es @ [e]) n s (insert c P)"
proof -
  from assms(1) obtain t where t: "trace_at es t" "openTurn t = Some n" "openStep t = Some s" "pendingCalls t = P"
    by (auto simp: step_at_def)
  have "validateEvent t e = Inr ((keep t e)\<lparr>tt_pendingCalls := AddCall c\<rparr>)"
    using t assms(2,3) by (simp add: validateEvent_def trace_at_def requireOpenStep_def)
  from append_position [OF t(1) assms(2) this] t show ?thesis unfolding step_at_def
    by (intro exI conjI) (assumption | simp add: applyTransition_def)+
qed

lemma result_position [trace_append]:
  assumes "step_at es n s P" "ev_seq e = length es" "ev_data e = ToolResult r" "ev_surfaceOp e = JStr ''append''"
    and "tr_turn r = n" "tr_step r = s" "tr_callId r \<in> P"
  shows "step_at (es @ [e]) n s (P - {tr_callId r})"
proof -
  from assms(1) obtain t where t: "trace_at es t" "openTurn t = Some n" "openStep t = Some s" "pendingCalls t = P"
    by (auto simp: step_at_def)
  have "validateEvent t e = Inr ((keep t e)\<lparr>tt_pendingCalls := DeleteCall (tr_callId r)\<rparr>)"
    using t assms(2-7) by (simp add: validateEvent_def trace_at_def requireOpenStep_def Let_def)
  from append_position [OF t(1) assms(2) this] t show ?thesis unfolding step_at_def
    by (intro exI conjI) (assumption | simp add: applyTransition_def)+
qed

end
