(* ===== verification/Tool_Calls.thy ===== *)
theory Tool_Calls
  imports Inbox Trace_Append
begin

text \<open>
  The scheduler of one assistant step's tool calls, \<^verbatim>\<open>packages/core/agent-loop/src/tool-calls.ts\<close>.
  Exclusive calls are barriers, parallel calls share a bounded pool; a started call is recorded at once,
  its dispatch settles at any time, and results are committed in model order.

  The tool runtime and the rest of the process are the environment: how a call is classified and prepared
  when it is asked, which dispatches settle (and how) while the scheduler awaits, which settled dispatch
  wins a race, how a result is finished, when the signal is read as aborted, and what others append to the
  session meanwhile. Each is a function of the scheduler's state, so that every schedule is some
  environment. Of a call, its identity is kept; a result's payload is carried through.
\<close>

section \<open>State\<close>

text \<open>\<open>ToolExecutionResult\<close>.\<close>

record exec_result =
  xr_content :: jsval
  xr_isError :: bool
  xr_error :: "(string \<times> string) option"   \<comment> \<open>name and code of \<open>error.info\<close>\<close>
  xr_meta :: "jsval option"
  xr_contexts :: "user_message list"          \<comment> \<open>\<open>additionalContexts\<close>\<close>
  xr_concludes :: bool

text \<open>A settled dispatch awaiting its ordered commit: the result and \<open>needsPost\<close>.\<close>

type_synonym call_slot = "exec_result \<times> bool"

datatype prepared_call = Dispatched | Prepared exec_result bool

text \<open>The locals of \<open>runGroup\<close>. \<open>tg_settled\<close> lists the dispatches in flight whose promise has resolved.\<close>

record tool_group =
  tg_session :: inbox_session
  tg_slots :: "call_slot option list"
  tg_callSeqs :: "nat option list"
  tg_nextToStart :: nat
  tg_committed :: nat
  tg_started :: nat
  tg_inFlight :: "nat list"
  tg_settled :: "nat list"
  tg_aborted :: bool
  tg_concluded :: bool
  tg_failure :: "string option"               \<comment> \<open>\<open>schedulerFailure\<close>\<close>

record tool_env =
  te_now :: int
  te_inbox :: inbox_env
  te_limit :: nat                             \<comment> \<open>\<open>maxParallelToolCalls\<close>\<close>
  te_parallel :: "tool_group \<Rightarrow> string \<Rightarrow> bool"
  te_prepare :: "tool_group \<Rightarrow> string \<Rightarrow> string + prepared_call"
  te_finish :: "tool_group \<Rightarrow> call_slot \<Rightarrow> string + exec_result"
  te_messageId :: "tool_group \<Rightarrow> string"
  te_aborted :: "tool_group \<Rightarrow> bool"
  te_await :: "tool_group \<Rightarrow> inbox_session"
  te_settles :: "tool_group \<Rightarrow> (nat \<times> (string + call_slot)) list"
  te_race :: "tool_group \<Rightarrow> nat"

definition new_group :: "tool_env \<Rightarrow> string list \<Rightarrow> inbox_session \<Rightarrow> tool_group" where
  "new_group te calls s =
     (let st = \<lparr>tg_session = s, tg_slots = map (\<lambda>_. None) calls, tg_callSeqs = map (\<lambda>_. None) calls,
        tg_nextToStart = 0, tg_committed = 0, tg_started = 0, tg_inFlight = [], tg_settled = [],
        tg_aborted = False, tg_concluded = False, tg_failure = None\<rparr>
      in st\<lparr>tg_aborted := te_aborted te st\<rparr>)"

section \<open>Waiting\<close>

definition settle_one :: "tool_group \<Rightarrow> nat \<times> (string + call_slot) \<Rightarrow> tool_group" where
  "settle_one st x = (case x of (i, outcome) \<Rightarrow>
     if i \<notin> set (tg_inFlight st) \<or> i \<in> set (tg_settled st) then st
     else case outcome of
         Inr sl \<Rightarrow> st\<lparr>tg_slots := (tg_slots st)[i := Some sl], tg_settled := tg_settled st @ [i]\<rparr>
       | Inl err \<Rightarrow> st\<lparr>tg_failure := (case tg_failure st of None \<Rightarrow> Some err | Some e \<Rightarrow> Some e),
                      tg_settled := tg_settled st @ [i]\<rparr>)"

definition await :: "tool_env \<Rightarrow> tool_group \<Rightarrow> tool_group" where
  "await te st = foldl settle_one (st\<lparr>tg_session := te_await te st\<rparr>) (te_settles te st)"

definition throwSchedulerFailure :: "tool_group \<Rightarrow> tool_group \<times> (string + unit)" where
  "throwSchedulerFailure st = (st, case tg_failure st of None \<Rightarrow> Inr () | Some e \<Rightarrow> Inl e)"

section \<open>Durable records\<close>

definition push_record :: "int \<Rightarrow> event_data \<Rightarrow> jsval \<Rightarrow> jsval \<Rightarrow> inbox_session \<Rightarrow> inbox_session" where
  "push_record now d op sources s = s\<lparr>ib_log := ib_log s @
     [\<lparr>ev_seq = length (ib_log s), ev_time = now, ev_data = d, ev_surfaceOp = op, ev_sources = sources\<rparr>]\<rparr>"

definition appendToolCall :: "int \<Rightarrow> int \<Rightarrow> int \<Rightarrow> string \<Rightarrow> inbox_session \<Rightarrow> inbox_session" where
  "appendToolCall now turn step callId s = push_record now (ToolCall turn step callId) JUndef JUndef s"

definition result_record :: "int \<Rightarrow> int \<Rightarrow> string \<Rightarrow> string \<Rightarrow> exec_result \<Rightarrow> tool_result" where
  "result_record turn step messageId callId result =
     \<lparr>tr_turn = turn, tr_step = step, tr_messageId = messageId, tr_callId = callId, tr_toolCallId = callId,
      tr_isError = Some (xr_isError result), tr_content = xr_content result, tr_error = xr_error result,
      tr_meta = xr_meta result\<rparr>"

definition appendToolResult ::
    "int \<Rightarrow> int \<Rightarrow> int \<Rightarrow> string \<Rightarrow> string \<Rightarrow> exec_result \<Rightarrow> nat \<Rightarrow> inbox_session \<Rightarrow> inbox_session" where
  "appendToolResult now turn step messageId callId result callSeq s =
     push_record now (ToolResult (result_record turn step messageId callId result))
       (JStr ''append'') (JArr [JNum (js_int (int callSeq))]) s"

definition skipped_result :: exec_result where
  "skipped_result = \<lparr>xr_content = JArr [JObj [(''type'', JStr ''text''),
       (''text'', JStr ''Error: tool call aborted before dispatch'')]],
     xr_isError = True, xr_error = Some (''AbortError'', ''ABORTED_BEFORE_DISPATCH''), xr_meta = None,
     xr_contexts = [], xr_concludes = False\<rparr>"

definition appendSkippedToolCall :: "int \<Rightarrow> int \<Rightarrow> int \<Rightarrow> string \<Rightarrow> string \<Rightarrow> inbox_session \<Rightarrow> inbox_session" where
  "appendSkippedToolCall now turn step messageId callId s =
     appendToolResult now turn step messageId callId skipped_result (length (ib_log s))
       (appendToolCall now turn step callId s)"

section \<open>Ordered commits\<close>

text \<open>\<open>acceptContext\<close>: the context goes to the end of the next step's queue.\<close>

fun accept_contexts :: "inbox_env \<Rightarrow> user_message list \<Rightarrow> inbox_session \<Rightarrow> inbox_session \<times> (string + unit)" where
  "accept_contexts env [] s = (s, Inr ())"
| "accept_contexts env (m # ms) s = (case append_message env NextStep m s of
     (s1, Inl err) \<Rightarrow> (s1, Inl ''context rejected'') | (s1, Inr removed) \<Rightarrow> accept_contexts env ms s1)"

text \<open>One iteration: the slot at \<open>committed\<close>, for the call \<open>callId\<close>.\<close>

definition commit_one :: "tool_env \<Rightarrow> int \<Rightarrow> int \<Rightarrow> string \<Rightarrow> call_slot \<Rightarrow> tool_group \<Rightarrow> tool_group \<times> (string + unit)" where
  "commit_one te turn step callId sl st =
     (let st1 = (if snd sl then await te st else st) in
      case te_finish te st sl of
        Inl err \<Rightarrow> (st1, Inl err)
      | Inr result \<Rightarrow>
          (let s1 = appendToolResult (te_now te) turn step (te_messageId te st1) callId result
                      (the (tg_callSeqs st1 ! tg_committed st1)) (tg_session st1) in
           case accept_contexts (te_inbox te) (xr_contexts result) s1 of
             (s2, Inl err) \<Rightarrow> (st1\<lparr>tg_session := s2\<rparr>, Inl err)
           | (s2, Inr u) \<Rightarrow> (st1\<lparr>tg_session := s2, tg_concluded := tg_concluded st1 \<or> xr_concludes result,
                 tg_committed := tg_committed st1 + 1\<rparr>, Inr ())))"

text \<open>The list holds the calls from \<open>committed\<close> on.\<close>

fun commitReady :: "tool_env \<Rightarrow> int \<Rightarrow> int \<Rightarrow> string list \<Rightarrow> tool_group \<Rightarrow> tool_group \<times> (string + unit)" where
  "commitReady te turn step [] st = (st, Inr ())"
| "commitReady te turn step (c # cs) st = (case tg_slots st ! tg_committed st of
     None \<Rightarrow> (st, Inr ())
   | Some sl \<Rightarrow> then_run (commit_one te turn step c sl st) (\<lambda>_. commitReady te turn step cs))"

definition commit_and_check :: "tool_env \<Rightarrow> int \<Rightarrow> int \<Rightarrow> string list \<Rightarrow> tool_group \<Rightarrow> tool_group \<times> (string + unit)" where
  "commit_and_check te turn step calls st =
     then_run (throwSchedulerFailure st) (\<lambda>_ st1.
     then_run (commitReady te turn step (drop (tg_committed st1) calls) st1) (\<lambda>_ st2.
     then_run (throwSchedulerFailure st2) (\<lambda>_ st3.
       (st3\<lparr>tg_aborted := tg_aborted st3 \<or> te_aborted te st3\<rparr>, Inr ()))))"

section \<open>The pool\<close>

definition startCall :: "tool_env \<Rightarrow> int \<Rightarrow> int \<Rightarrow> string \<Rightarrow> nat \<Rightarrow> tool_group \<Rightarrow> tool_group \<times> (string + unit)" where
  "startCall te turn step callId index st =
     (let st1 = st\<lparr>tg_session := appendToolCall (te_now te) turn step callId (tg_session st),
                   tg_callSeqs := (tg_callSeqs st)[index := Some (length (ib_log (tg_session st)))],
                   tg_started := tg_started st + 1\<rparr>;
          st2 = await te st1 in
      case te_prepare te st1 callId of
        Inl err \<Rightarrow> (st2, Inl err)
      | Inr prepared \<Rightarrow> then_run (throwSchedulerFailure st2) (\<lambda>_ st3.
          (case prepared of
             Dispatched \<Rightarrow> st3\<lparr>tg_inFlight := tg_inFlight st3 @ [index]\<rparr>
           | Prepared result needsPost \<Rightarrow> st3\<lparr>tg_slots := (tg_slots st3)[index := Some (result, needsPost)]\<rparr>,
           Inr ())))"

text \<open>The list holds the calls from \<open>nextToStart\<close> on.\<close>

fun fillPool :: "tool_env \<Rightarrow> int \<Rightarrow> int \<Rightarrow> string list \<Rightarrow> bool \<Rightarrow> string list \<Rightarrow> tool_group \<Rightarrow> tool_group \<times> (string + unit)" where
  "fillPool te turn step calls parallel [] st = (st, Inr ())"
| "fillPool te turn step calls parallel (c # cs) st =
     (if tg_aborted st \<or> \<not> length (tg_inFlight st) < te_limit te then (st, Inr ())
      else if tg_nextToStart st > 0 \<and> parallel \<and> \<not> te_parallel te st c then (st, Inr ())
      else then_run (startCall te turn step c (tg_nextToStart st) st) (\<lambda>_ st1.
           then_run (commit_and_check te turn step calls (st1\<lparr>tg_nextToStart := tg_nextToStart st1 + 1\<rparr>)) (\<lambda>_ st2.
             fillPool te turn step calls parallel cs st2)))"

text \<open>The race loop; \<open>None\<close> when a race is never won.\<close>

definition race_winner :: "tool_env \<Rightarrow> tool_group \<Rightarrow> nat option" where
  "race_winner te st = (case filter (\<lambda>i. i \<in> set (tg_settled st)) (tg_inFlight st) of
     [] \<Rightarrow> None | ws \<Rightarrow> Some (ws ! (te_race te st mod length ws)))"

fun drain :: "nat \<Rightarrow> tool_env \<Rightarrow> int \<Rightarrow> int \<Rightarrow> string list \<Rightarrow> bool \<Rightarrow> tool_group \<Rightarrow> (tool_group \<times> (string + unit)) option" where
  "drain 0 te turn step calls parallel st = None"
| "drain (Suc fuel) te turn step calls parallel st =
     (if tg_inFlight st = [] then Some (st, Inr ())
      else let st1 = await te st in case race_winner te st1 of
        None \<Rightarrow> None
      | Some i \<Rightarrow>
          (case then_run (commit_and_check te turn step calls (st1\<lparr>tg_inFlight := remove1 i (tg_inFlight st1)\<rparr>))
                 (\<lambda>_ st2. fillPool te turn step calls parallel (drop (tg_nextToStart st2) calls) st2) of
             (st3, Inl err) \<Rightarrow> Some (st3, Inl err)
           | (st3, Inr u) \<Rightarrow> drain fuel te turn step calls parallel st3))"

section \<open>Groups\<close>

fun skip_calls :: "tool_env \<Rightarrow> int \<Rightarrow> int \<Rightarrow> string list \<Rightarrow> tool_group \<Rightarrow> tool_group" where
  "skip_calls te turn step [] st = st"
| "skip_calls te turn step (c # cs) st = skip_calls te turn step cs
     (st\<lparr>tg_session := appendSkippedToolCall (te_now te) turn step (te_messageId te st) c (tg_session st)\<rparr>)"

text \<open>\<open>GroupOutcome\<close>.\<close>

record group_outcome =
  go_consumed :: nat
  go_aborted :: bool
  go_concluded :: bool

definition finish_group ::
    "tool_env \<Rightarrow> int \<Rightarrow> int \<Rightarrow> string list \<Rightarrow> tool_group \<times> (string + unit) \<Rightarrow> inbox_session \<times> (string + group_outcome)" where
  "finish_group te turn step calls r = (case r of
     (st, Inl err) \<Rightarrow> (tg_session (await te st), Inl (case tg_failure st of None \<Rightarrow> err | Some e \<Rightarrow> e))
   | (st, Inr u) \<Rightarrow>
       (if tg_aborted st then
          (tg_session (skip_calls te turn step (drop (tg_started st) calls) st),
           Inr \<lparr>go_consumed = length calls, go_aborted = True, go_concluded = tg_concluded st\<rparr>)
        else if tg_committed st \<noteq> tg_started st then (tg_session st, Inl ''uncommitted settled calls'')
        else (tg_session st, Inr \<lparr>go_consumed = tg_started st, go_aborted = False, go_concluded = tg_concluded st\<rparr>)))"

definition runGroup ::
    "tool_env \<Rightarrow> int \<Rightarrow> int \<Rightarrow> string list \<Rightarrow> bool \<Rightarrow> inbox_session \<Rightarrow> (inbox_session \<times> (string + group_outcome)) option" where
  "runGroup te turn step calls parallel s = map_option (finish_group te turn step calls)
     (case fillPool te turn step calls parallel calls (new_group te calls s) of
        (st, Inl err) \<Rightarrow> Some (st, Inl err)
      | (st, Inr u) \<Rightarrow> drain (Suc (length calls)) te turn step calls parallel st)"

text \<open>The loop over the planned calls; the list holds those from \<open>next\<close> on.\<close>

fun execute_from ::
    "nat \<Rightarrow> tool_env \<Rightarrow> int \<Rightarrow> int \<Rightarrow> bool \<Rightarrow> string list \<Rightarrow> inbox_session \<Rightarrow> (inbox_session \<times> (string + bool)) option" where
  "execute_from fuel te turn step concluded [] s = Some (s, Inr concluded)"
| "execute_from 0 te turn step concluded (c # cs) s = None"
| "execute_from (Suc fuel) te turn step concluded (c # cs) s =
     (let parallel = te_parallel te (new_group te [] s) c in
      case runGroup te turn step (if parallel then c # cs else [c]) parallel s of
        None \<Rightarrow> None
      | Some (s1, Inl err) \<Rightarrow> Some (s1, Inl err)
      | Some (s1, Inr out) \<Rightarrow>
          (let rest = drop (go_consumed out) (c # cs) in
           if go_aborted out then
             Some (tg_session (skip_calls te turn step rest (new_group te [] s1)), Inr (concluded \<or> go_concluded out))
           else execute_from fuel te turn step (concluded \<or> go_concluded out) rest s1))"

definition executeToolCalls ::
    "tool_env \<Rightarrow> int \<Rightarrow> int \<Rightarrow> string list \<Rightarrow> inbox_session \<Rightarrow> (inbox_session \<times> (string + bool)) option" where
  "executeToolCalls te turn step calls s = execute_from (length calls) te turn step False calls s"

end
