(* ===== verification/Agent_Driver.thy ===== *)
theory Agent_Driver
  imports Retry Tool_Calls
begin

text \<open>
  The driver of an agent, \<^verbatim>\<open>packages/core/agent-loop/src/agent.ts\<close>: phases and wakes, turns and
  steps over the queued input, the attempts of a request with their live frames, and the calls they lead to.

  The driver is asynchronous. Whenever it awaits, other code runs: it may call the agent's public methods
  and append events of its own. \<open>ae_commands\<close> gives what happens at each await, counted by \<open>ag_tick\<close>, so
  that every interleaving is some environment. What the rest of the process answers (assembly, listeners,
  the model, the tool runtime, which appends the session refuses) is a parameter as well, indexed the same
  way. Loops take fuel; \<open>None\<close> means that they have not ended within it.
\<close>

section \<open>State\<close>

text \<open>\<open>AgentCancelCause\<close>, and \<open>Phase\<close>: the abort signal of an activity is the cause it was aborted with.\<close>

datatype cancel_cause = ByUser | ByParent | ByHook string | Disposed

datatype agent_phase =
    Idle int                                            \<comment> \<open>\<open>lastTurn\<close>\<close>
  | Maintenance int bool "cancel_cause option"          \<comment> \<open>\<open>lastTurn\<close>, \<open>wakeRequested\<close>, \<open>abort\<close>\<close>
  | Running int int bool "cancel_cause option"          \<comment> \<open>\<open>turn\<close>, \<open>step\<close>, \<open>wakeRequested\<close>, \<open>abort\<close>\<close>

text \<open>\<open>AssistantStreamFrame\<close>: attempt, revision and payload.\<close>

datatype frame_outcome = CommittedAs string nat | Abandoned

datatype stream_frame =
    StartFrame nat nat int int
  | ChunkFrame nat nat nat
  | EndFrame nat nat nat frame_outcome

datatype agent_signal = StatusChanged bool | ErrorRaised int int string | FrameSent stream_frame

text \<open>The part of \<open>AssistantStreamAttempt\<close> that frames are made of.\<close>

record live_stream =
  lv_attempt :: nat
  lv_index :: nat
  lv_terminal :: bool

record agent =
  ag_phase :: agent_phase
  ag_session :: inbox_session
  ag_signals :: "agent_signal list"
  ag_tick :: nat                          \<comment> \<open>awaits so far\<close>
  ag_headerLogged :: bool                 \<comment> \<open>\<open>requestHeaderLogged\<close>\<close>
  ag_generation :: "nat option"           \<comment> \<open>\<open>requestSurfaceGeneration\<close>\<close>
  ag_revision :: nat                      \<comment> \<open>\<open>assistantStreamRevision\<close>\<close>
  ag_attempts :: nat                      \<comment> \<open>\<open>assistantAttemptCounter\<close>\<close>
  ag_live :: live_stream                  \<comment> \<open>the attempt at hand\<close>

datatype agent_command =
    SendCmd user_message inbox_target bool
  | CancelCmd cancel_cause bool           \<comment> \<open>cause and \<open>keepInbox\<close>\<close>
  | BeginMaintenance
  | EndMaintenance
  | ForeignAppend event_data

datatype pre_step_decision = RejectStep | EnterStep "user_message list" bool

datatype finish_reason = Stopped | HitMaxTokens | FailedWith jsval

text \<open>One attempt of a request, as the model and the listeners answer it.\<close>

record llm_attempt =
  la_refuse :: "string option"            \<comment> \<open>the \<open>agent/request\<close> waterfall throws\<close>
  la_provider :: string
  la_model :: string
  la_routed :: string                     \<comment> \<open>provider after routing\<close>
  la_sameHeader :: bool                   \<comment> \<open>\<open>headerEquals\<close> on the previous header\<close>
  la_newContext :: bool                   \<comment> \<open>the request context differs from the previous one\<close>
  la_open :: "string option"              \<comment> \<open>opening the stream throws\<close>
  la_chunks :: nat
  la_broken :: "string option"            \<comment> \<open>the stream throws after its chunks\<close>
  la_interrupted :: "content_block list"  \<comment> \<open>\<open>interruptedBlocks\<close>\<close>
  la_finish :: finish_reason
  la_blocks :: "content_block list"
  la_recovery :: retry_env

record agent_env =
  ae_now :: int
  ae_inbox :: inbox_env
  ae_admits :: "session_event list \<Rightarrow> event_data \<Rightarrow> bool"
  ae_generation :: "session_event list \<Rightarrow> nat"
  ae_commands :: "nat \<Rightarrow> agent_command list"
  ae_assemble :: "nat \<Rightarrow> string option"
  ae_context :: "nat \<Rightarrow> session_event list \<Rightarrow> user_message option"
  ae_decide :: "nat \<Rightarrow> user_message list \<Rightarrow> pre_step_decision \<Rightarrow> string + pre_step_decision"
  ae_stopping :: "nat \<Rightarrow> string option"
  ae_attempt :: "nat \<Rightarrow> llm_attempt"
  ae_tools :: "nat \<Rightarrow> tool_env"

type_synonym 'a run = "agent \<times> (string + 'a)"

section \<open>Phases\<close>

fun abort_of :: "agent_phase \<Rightarrow> cancel_cause option" where
  "abort_of (Idle n) = None"
| "abort_of (Maintenance n w c) = c"
| "abort_of (Running n s w c) = c"

fun running :: "agent_phase \<Rightarrow> bool" where
  "running (Running n s w c) = True"
| "running p = False"

fun last_turn :: "agent_phase \<Rightarrow> int" where
  "last_turn (Idle n) = n"
| "last_turn (Maintenance n w c) = n"
| "last_turn (Running n s w c) = n"

fun phase_step :: "agent_phase \<Rightarrow> int" where
  "phase_step (Running n s w c) = s"
| "phase_step p = 0"

definition setPhase :: "agent_phase \<Rightarrow> agent \<Rightarrow> agent" where
  "setPhase p a = (let a1 = a\<lparr>ag_phase := p\<rparr> in
     if running p \<noteq> running (ag_phase a) then a1\<lparr>ag_signals := ag_signals a @ [StatusChanged (running p)]\<rparr> else a1)"

definition throwIfAborted :: "agent \<Rightarrow> unit run" where
  "throwIfAborted a = (a, case abort_of (ag_phase a) of None \<Rightarrow> Inr () | Some c \<Rightarrow> Inl ''aborted'')"

text \<open>\<open>throwError\<close> and an append that the session may refuse.\<close>

definition report_error :: "string \<Rightarrow> agent \<Rightarrow> agent" where
  "report_error err a = a\<lparr>ag_signals := ag_signals a @ [ErrorRaised (last_turn (ag_phase a)) (phase_step (ag_phase a)) err]\<rparr>"

definition throwError :: "string \<Rightarrow> agent \<Rightarrow> 'a run" where
  "throwError err a = (report_error err a, Inl err)"

definition append_data :: "agent_env \<Rightarrow> event_data \<Rightarrow> jsval \<Rightarrow> agent \<Rightarrow> nat run" where
  "append_data env d op a = (if ae_admits env (ib_log (ag_session a)) d
     then (a\<lparr>ag_session := push_record (ae_now env) d op JUndef (ag_session a)\<rparr>, Inr (length (ib_log (ag_session a))))
     else (a, Inl ''append rejected''))"

section \<open>Input and control\<close>

definition wakeDriver :: "bool \<Rightarrow> agent \<Rightarrow> agent" where
  "wakeDriver wakeAfterAbort a = (case ag_phase a of
     Idle n \<Rightarrow> setPhase (Running n 0 False None) a
   | Maintenance n w c \<Rightarrow> if c \<noteq> Some Disposed then a\<lparr>ag_phase := Maintenance n True c\<rparr> else a
   | Running n s w c \<Rightarrow> if c \<noteq> Some Disposed \<and> wakeAfterAbort then a\<lparr>ag_phase := Running n s True c\<rparr> else a)"

text \<open>A result of the inbox, on the agent.\<close>

definition on_inbox :: "(inbox_session \<Rightarrow> inbox_session \<times> (inbox_error + 'a)) \<Rightarrow> agent \<Rightarrow> 'a run" where
  "on_inbox f a = (case f (ag_session a) of
     (s, Inl err) \<Rightarrow> (a\<lparr>ag_session := s\<rparr>, Inl ''inbox error'') | (s, Inr x) \<Rightarrow> (a\<lparr>ag_session := s\<rparr>, Inr x))"

definition send :: "agent_env \<Rightarrow> user_message \<Rightarrow> inbox_target \<Rightarrow> bool \<Rightarrow> agent \<Rightarrow> unit run" where
  "send env m target wakeup a =
     (let wakingAfterAbort = (wakeup \<and> abort_of (ag_phase a) \<noteq> None);
          resolved = (if wakingAfterAbort then NextTurn else target) in
      then_run (on_inbox (splice (ae_inbox env) resolved PosInf (js_int 0) [m]) a)
        (\<lambda>_ a1. (if wakeup then wakeDriver wakingAfterAbort a1 else a1, Inr ())))"

definition followup :: "agent_env \<Rightarrow> user_message \<Rightarrow> agent \<Rightarrow> unit run" where
  "followup env m = send env m NextTurn True"

definition steer :: "agent_env \<Rightarrow> user_message \<Rightarrow> agent \<Rightarrow> unit run" where
  "steer env m = send env m NextStep True"

definition inject :: "agent_env \<Rightarrow> user_message \<Rightarrow> agent \<Rightarrow> unit run" where
  "inject env m = send env m NextStep False"

fun unlatch :: "agent_phase \<Rightarrow> agent_phase" where
  "unlatch (Idle n) = Idle n"
| "unlatch (Maintenance n w c) = Maintenance n False c"
| "unlatch (Running n s w c) = Running n s False c"

text \<open>\<open>abort\<close>: the first cause wins.\<close>

fun abort_phase :: "cancel_cause \<Rightarrow> agent_phase \<Rightarrow> agent_phase" where
  "abort_phase cause (Idle n) = Idle n"
| "abort_phase cause (Maintenance n w c) = Maintenance n w (case c of None \<Rightarrow> Some cause | Some d \<Rightarrow> Some d)"
| "abort_phase cause (Running n s w c) = Running n s w (case c of None \<Rightarrow> Some cause | Some d \<Rightarrow> Some d)"

definition cancel :: "agent_env \<Rightarrow> cancel_cause \<Rightarrow> bool \<Rightarrow> agent \<Rightarrow> unit run" where
  "cancel env cause keepInbox a =
     then_run (if keepInbox then (a, Inr ())
               else then_run (on_inbox (clear_inbox (ae_inbox env)) a)
                 (\<lambda>_ a1. (a1\<lparr>ag_phase := unlatch (ag_phase a1)\<rparr>, Inr ())))
       (\<lambda>_ a2. (a2\<lparr>ag_phase := abort_phase cause (ag_phase a2)\<rparr>, Inr ()))"

definition agent_pending :: "agent \<Rightarrow> bool run" where
  "agent_pending a = (a, case hasPending (ag_session a) of Inl err \<Rightarrow> Inl ''inbox error'' | Inr b \<Rightarrow> Inr b)"

text \<open>The end of an activity, common to maintenance and the driver: a latched wake is replayed while the
  inbox still holds input.\<close>

definition retire :: "int \<Rightarrow> bool \<Rightarrow> agent \<Rightarrow> agent" where
  "retire n wakeRequested a = (let a1 = setPhase (Idle n) a in
     if wakeRequested \<and> snd (agent_pending a1) = Inr True then wakeDriver False a1 else a1)"

text \<open>\<open>runMaintenance\<close>, at its start and when its job has settled.\<close>

definition begin_maintenance :: "agent \<Rightarrow> unit run" where
  "begin_maintenance a = (case ag_phase a of
     Idle n \<Rightarrow> (setPhase (Maintenance n False None) a, Inr ()) | _ \<Rightarrow> (a, Inl ''active work''))"

definition end_maintenance :: "agent \<Rightarrow> agent" where
  "end_maintenance a = (case ag_phase a of Maintenance n w c \<Rightarrow> retire n w a | _ \<Rightarrow> a)"

definition deliver :: "agent_env \<Rightarrow> agent \<Rightarrow> agent_command \<Rightarrow> agent" where
  "deliver env a c = (case c of
     SendCmd m target wakeup \<Rightarrow> fst (send env m target wakeup a)
   | CancelCmd cause keepInbox \<Rightarrow> fst (cancel env cause keepInbox a)
   | BeginMaintenance \<Rightarrow> fst (begin_maintenance a)
   | EndMaintenance \<Rightarrow> end_maintenance a
   | ForeignAppend d \<Rightarrow> fst (append_data env d JUndef a))"

text \<open>An await of the driver.\<close>

definition pause :: "agent_env \<Rightarrow> agent \<Rightarrow> agent" where
  "pause env a = foldl (deliver env) (a\<lparr>ag_tick := ag_tick a + 1\<rparr>) (ae_commands env (ag_tick a))"

text \<open>Awaiting the result of an asynchronous method.\<close>

definition awaiting :: "agent_env \<Rightarrow> agent \<times> 'b \<Rightarrow> agent \<times> 'b" where
  "awaiting env r = (pause env (fst r), snd r)"

section \<open>Live frames\<close>

text \<open>\<open>AssistantStreamAttempt\<close>, with \<open>nextRevision\<close> and \<open>emit\<close> on the agent.\<close>

definition emit_frame :: "(nat \<Rightarrow> stream_frame) \<Rightarrow> agent \<Rightarrow> agent" where
  "emit_frame frame a = a\<lparr>ag_revision := ag_revision a + 1,
     ag_signals := ag_signals a @ [FrameSent (frame (ag_revision a + 1))]\<rparr>"

definition new_attempt :: "agent \<Rightarrow> agent" where
  "new_attempt a = a\<lparr>ag_attempts := ag_attempts a + 1,
     ag_live := \<lparr>lv_attempt = ag_attempts a + 1, lv_index = 0, lv_terminal = False\<rparr>\<rparr>"

definition live_start :: "int \<Rightarrow> int \<Rightarrow> agent \<Rightarrow> agent" where
  "live_start turn step a = emit_frame (\<lambda>r. StartFrame (lv_attempt (ag_live a)) r turn step) a"

definition live_push :: "agent \<Rightarrow> agent" where
  "live_push a = emit_frame (\<lambda>r. ChunkFrame (lv_attempt (ag_live a)) r (lv_index (ag_live a)))
     (a\<lparr>ag_live := (ag_live a)\<lparr>lv_index := lv_index (ag_live a) + 1\<rparr>\<rparr>)"

definition live_end :: "frame_outcome \<Rightarrow> agent \<Rightarrow> agent" where
  "live_end outcome a = emit_frame (\<lambda>r. EndFrame (lv_attempt (ag_live a)) r (lv_index (ag_live a)) outcome)
     (a\<lparr>ag_live := (ag_live a)\<lparr>lv_terminal := True\<rparr>\<rparr>)"

definition live_abandon :: "agent \<Rightarrow> agent" where
  "live_abandon a = live_end Abandoned a"

definition live_settle :: "agent_env \<Rightarrow> string \<Rightarrow> event_data \<Rightarrow> jsval \<Rightarrow> agent \<Rightarrow> unit run" where
  "live_settle env eventType d op a = (case append_data env d op a of
     (a1, Inl err) \<Rightarrow> (live_abandon a1, Inl err)
   | (a1, Inr seq) \<Rightarrow> (live_end (CommittedAs eventType seq) a1, Inr ()))"

section \<open>Requests\<close>

definition has_header :: "session_event list \<Rightarrow> bool" where
  "has_header es = list_ex (\<lambda>e. case ev_data e of RequestHeader p \<Rightarrow> True | _ \<Rightarrow> False) es"

text \<open>\<open>buildRequest\<close>: the proposal, the route, and the durable header and context. The surface generation
  was read before the first await.\<close>

definition routes :: "llm_attempt \<Rightarrow> bool" where
  "routes la = (la_provider la = ''auto'' \<or> la_model la = ''auto'')"

definition route :: "llm_attempt \<Rightarrow> string" where
  "route la = (if routes la then la_routed la else la_provider la)"

definition log_header :: "agent_env \<Rightarrow> llm_attempt \<Rightarrow> bool \<Rightarrow> nat \<Rightarrow> agent \<Rightarrow> unit run" where
  "log_header env la startsRequestSeries generation a =
     (let startsSeries = (startsRequestSeries \<or> ag_generation a \<noteq> Some generation) in
      then_run
        (if \<not> ag_headerLogged a then
           then_run (append_data env (RequestHeader (route la)) JUndef a)
             (\<lambda>_ a1. (a1\<lparr>ag_headerLogged := True\<rparr>, Inr ()))
         else if \<not> has_header (ib_log (ag_session a)) \<or> \<not> la_sameHeader la \<or> startsSeries then
           then_run (append_data env (RequestHeader (route la)) JUndef a) (\<lambda>_ a1. (a1, Inr ()))
         else (a, Inr ()))
        (\<lambda>_ a2. (a2\<lparr>ag_generation := Some generation\<rparr>, Inr ())))"

definition buildRequest :: "agent_env \<Rightarrow> llm_attempt \<Rightarrow> bool \<Rightarrow> agent \<Rightarrow> unit run" where
  "buildRequest env la startsRequestSeries a =
     (let generation = ae_generation env (ib_log (ag_session a)); a1 = pause env a in
      case la_refuse la of
        Some err \<Rightarrow> (a1, Inl err)
      | None \<Rightarrow> then_run (throwIfAborted a1) (\<lambda>_ a2.
          if la_provider la = [] \<or> la_model la = [] then (a2, Inl ''no provider/model'')
          else then_run (throwIfAborted (if routes la then pause env a2 else a2)) (\<lambda>_ a3.
               then_run (log_header env la startsRequestSeries generation a3) (\<lambda>_ a4.
               then_run (if la_newContext la then then_run (append_data env RequestContext JUndef a4) (\<lambda>_ a5. (a5, Inr ()))
                         else (a4, Inr ()))
                 (\<lambda>_ a6. throwIfAborted a6)))))"

text \<open>The chunks that are still to come; each is awaited, and so is the end of the stream.\<close>

fun stream_chunks :: "agent_env \<Rightarrow> string option \<Rightarrow> nat \<Rightarrow> agent \<Rightarrow> unit run" where
  "stream_chunks env broken 0 a = (let a1 = pause env a in
     case broken of Some err \<Rightarrow> (a1, Inl err) | None \<Rightarrow> throwIfAborted a1)"
| "stream_chunks env broken (Suc n) a =
     then_run (throwIfAborted (pause env a)) (\<lambda>_ a1. stream_chunks env broken n (live_push a1))"

text \<open>The settlement of a stream that failed after it had started.\<close>

definition settle_broken :: "agent_env \<Rightarrow> int \<Rightarrow> int \<Rightarrow> llm_attempt \<Rightarrow> string \<Rightarrow> agent \<Rightarrow> unit run" where
  "settle_broken env turn step la err a =
     (case (if abort_of (ag_phase a) \<noteq> None \<and> la_interrupted la \<noteq> []
            then live_settle env ''assistant/message'' (AssistantMessage turn step (la_interrupted la)) (JStr ''append'') a
            else live_settle env ''assistant/attempt'' (AssistantAttempt turn step) JUndef a) of
        (a1, Inl settlementError) \<Rightarrow> (a1, Inl ''settlement rejected'')
      | (a1, Inr u) \<Rightarrow> (a1, Inl err))"

definition stream_attempt :: "agent_env \<Rightarrow> int \<Rightarrow> int \<Rightarrow> llm_attempt \<Rightarrow> agent \<Rightarrow> unit run" where
  "stream_attempt env turn step la a = (case la_open la of
     Some err \<Rightarrow> (a, Inl err)
   | None \<Rightarrow> then_run (throwIfAborted a) (\<lambda>_ a1.
       case stream_chunks env (la_broken la) (la_chunks la) (live_start turn step a1) of
         (a2, Inl err) \<Rightarrow> settle_broken env turn step la err a2
       | (a2, Inr u) \<Rightarrow> (a2, Inr ())))"

section \<open>Steps\<close>

text \<open>One after the other, where the first may run out of fuel.\<close>

definition bind_run :: "('s \<times> ('e + 'a)) option \<Rightarrow> ('a \<Rightarrow> 's \<Rightarrow> ('s \<times> ('e + 'b)) option) \<Rightarrow> ('s \<times> ('e + 'b)) option" where
  "bind_run r f = (case r of None \<Rightarrow> None | Some (s, Inl err) \<Rightarrow> Some (s, Inl err) | Some (s, Inr x) \<Rightarrow> f x s)"

datatype attempt_outcome = RetryAttempt | StepEnded "turn_end_reason option"

text \<open>The failure of a finished stream and its recovery. The policy of the prepared call is \<open>undefined\<close>:
  \<open>buildRequest\<close> never assigns \<open>preparedCall\<close>.\<close>

definition recover_attempt :: "agent_env \<Rightarrow> int \<Rightarrow> int \<Rightarrow> llm_attempt \<Rightarrow> jsval \<Rightarrow> agent \<Rightarrow> attempt_outcome run" where
  "recover_attempt env turn step la failure a =
     (case on_request_error (la_recovery la)
        \<lparr>rq_turn = turn, rq_step = step, rq_provider = route la, rq_failure = failure, rq_policy = None\<rparr>
        (ib_log (ag_session a)) of
      (es, action) \<Rightarrow>
        (let a1 = pause env (a\<lparr>ag_session := (ag_session a)\<lparr>ib_log := es\<rparr>\<rparr>) in
         case action of
           Inl err \<Rightarrow> (a1, Inl err)
         | Inr retry \<Rightarrow> then_run (throwIfAborted a1) (\<lambda>_ a2.
             if retry then (a2, Inr RetryAttempt) else (a2, Inl ''request failed''))))"

definition tool_calls :: "content_block list \<Rightarrow> string list" where
  "tool_calls blocks = List.map_filter (\<lambda>b. case b of ToolCallBlock c \<Rightarrow> Some c | OtherBlock v \<Rightarrow> None) blocks"

text \<open>The tool calls of a message; the scheduler works on the session.\<close>

definition run_calls :: "agent_env \<Rightarrow> int \<Rightarrow> int \<Rightarrow> string list \<Rightarrow> agent \<Rightarrow> (agent \<times> (string + attempt_outcome)) option" where
  "run_calls env turn step calls a = map_option
     (\<lambda>(s, r). let a1 = pause env (a\<lparr>ag_session := s\<rparr>) in
        (a1, case r of Inl err \<Rightarrow> Inl err | Inr concluded \<Rightarrow> Inr (StepEnded (if concluded then Some Completed else None))))
     (executeToolCalls (ae_tools env (ag_tick a)) turn step calls (ag_session a))"

definition conclude_attempt :: "agent_env \<Rightarrow> int \<Rightarrow> int \<Rightarrow> llm_attempt \<Rightarrow> agent \<Rightarrow> (agent \<times> (string + attempt_outcome)) option" where
  "conclude_attempt env turn step la a = (case la_finish la of
     FailedWith failure \<Rightarrow> Some (then_run (live_settle env ''assistant/attempt'' (AssistantAttempt turn step) JUndef a)
       (\<lambda>_. recover_attempt env turn step la failure))
   | _ \<Rightarrow> bind_run (Some (live_settle env ''assistant/message'' (AssistantMessage turn step (la_blocks la)) (JStr ''append'') a))
       (\<lambda>_ a1. if la_finish la = HitMaxTokens then Some (a1, Inr (StepEnded (Some MaxTokens)))
               else if tool_calls (la_blocks la) = [] then Some (a1, Inr (StepEnded (Some Completed)))
               else run_calls env turn step (tool_calls (la_blocks la)) a1))"

text \<open>The \<open>catch\<close> around it.\<close>

definition finish_attempt :: "agent_env \<Rightarrow> int \<Rightarrow> int \<Rightarrow> llm_attempt \<Rightarrow> agent \<Rightarrow> (agent \<times> (string + attempt_outcome)) option" where
  "finish_attempt env turn step la a = map_option
     (\<lambda>(a1, r). (case r of Inl err \<Rightarrow> if lv_terminal (ag_live a1) then a1 else live_abandon a1 | Inr x \<Rightarrow> a1, r))
     (conclude_attempt env turn step la a)"

fun step_loop :: "nat \<Rightarrow> agent_env \<Rightarrow> int \<Rightarrow> int \<Rightarrow> bool \<Rightarrow> agent \<Rightarrow> (agent \<times> (string + turn_end_reason option)) option" where
  "step_loop 0 env turn step startsRequestSeries a = None"
| "step_loop (Suc fuel) env turn step startsRequestSeries a =
     (let la = ae_attempt env (ag_tick a) in
      bind_run (Some (awaiting env (buildRequest env la startsRequestSeries a))) (\<lambda>_ a1.
      bind_run (Some (stream_attempt env turn step la (new_attempt a1))) (\<lambda>_ a2.
      bind_run (finish_attempt env turn step la a2) (\<lambda>outcome a3. case outcome of
        RetryAttempt \<Rightarrow> step_loop fuel env turn step False a3
      | StepEnded reason \<Rightarrow> Some (a3, Inr reason)))))"

definition run_step :: "nat \<Rightarrow> agent_env \<Rightarrow> int \<Rightarrow> int \<Rightarrow> bool \<Rightarrow> agent \<Rightarrow> (agent \<times> (string + turn_end_reason option)) option" where
  "run_step fuel env turn step startsRequestSeries a =
     bind_run (Some (throwIfAborted a)) (\<lambda>_. step_loop fuel env turn step startsRequestSeries)"

section \<open>Turns\<close>

definition preStep :: "agent_env \<Rightarrow> inbox_target \<Rightarrow> int \<Rightarrow> agent \<Rightarrow> pre_step_decision run" where
  "preStep env target turn a =
     then_run (on_inbox (claim (ae_inbox env) target turn) a) (\<lambda>claimed a1.
       let a2 = pause env a1 in
       case ae_assemble env (ag_tick a1) of
         Some err \<Rightarrow> (a2, Inl err)
       | None \<Rightarrow> then_run (throwIfAborted a2) (\<lambda>_ a3.
           let context = ae_context env (ag_tick a3) (ib_log (ag_session a3));
               proposal = EnterStep (case context of None \<Rightarrow> claimed | Some m \<Rightarrow> claimed @ [m]) False;
               a4 = pause env a3 in
           case ae_decide env (ag_tick a3) claimed proposal of
             Inl err \<Rightarrow> (a4, Inl err)
           | Inr decision \<Rightarrow> then_run (throwIfAborted a4) (\<lambda>_ a5. (a5, Inr decision))))"

fun append_messages :: "agent_env \<Rightarrow> user_message list \<Rightarrow> agent \<Rightarrow> unit run" where
  "append_messages env [] a = (a, Inr ())"
| "append_messages env (m # ms) a =
     then_run (append_data env (UserMessage m) (JStr ''append'') a) (\<lambda>_. append_messages env ms)"

fun set_step :: "int \<Rightarrow> agent_phase \<Rightarrow> agent_phase" where
  "set_step s (Running n k w c) = Running n s w c"
| "set_step s p = p"

text \<open>The \<open>finally\<close> of a step.\<close>

definition end_step :: "agent_env \<Rightarrow> int \<Rightarrow> int \<Rightarrow> (agent \<times> (string + 'a)) option \<Rightarrow> (agent \<times> (string + 'a)) option" where
  "end_step env turn step r = map_option (\<lambda>(a, res). case append_data env (StepEnd turn step) JUndef a of
     (a1, Inl err) \<Rightarrow> (a1, Inl err) | (a1, Inr seq) \<Rightarrow> (a1, res)) r"

definition enter_step ::
    "nat \<Rightarrow> agent_env \<Rightarrow> int \<Rightarrow> int \<Rightarrow> user_message list \<Rightarrow> bool \<Rightarrow> agent \<Rightarrow> (agent \<times> (string + turn_end_reason option)) option" where
  "enter_step fuel env turn step messages startsRequestSeries a =
     bind_run (Some (append_data env (StepStart turn step) JUndef a)) (\<lambda>_ a1.
       end_step env turn step
         (bind_run (Some (append_messages env messages (a1\<lparr>ag_phase := set_step step (ag_phase a1)\<rparr>)))
           (\<lambda>_ a2. map_option (awaiting env) (run_step fuel env turn step startsRequestSeries a2))))"

definition next_step_empty :: "agent \<Rightarrow> bool run" where
  "next_step_empty a = (a, case current (ag_session a) of Inl err \<Rightarrow> Inl ''inbox error'' | Inr st \<Rightarrow> Inr (next_step st = []))"

text \<open>After a step: whether the turn stops.\<close>

definition turn_stops :: "agent_env \<Rightarrow> turn_end_reason option \<Rightarrow> agent \<Rightarrow> bool run" where
  "turn_stops env turnEnds a =
     (if turnEnds = None then (a, Inr False)
      else then_run (next_step_empty a) (\<lambda>empty a1.
        if \<not> empty then (a1, Inr False)
        else let a2 = pause env a1 in case ae_stopping env (ag_tick a1) of
            Some err \<Rightarrow> (a2, Inl err)
          | None \<Rightarrow> then_run (throwIfAborted a2) (\<lambda>_. next_step_empty)))"

datatype turn_flow = ReturnTurn turn_end_reason | BreakTurn turn_end_reason

fun turn_loop :: "nat \<Rightarrow> agent_env \<Rightarrow> int \<Rightarrow> inbox_target \<Rightarrow> turn_end_reason option \<Rightarrow> agent \<Rightarrow> (agent \<times> (string + turn_flow)) option" where
  "turn_loop 0 env turn target turnEnds a = None"
| "turn_loop (Suc fuel) env turn target turnEnds a =
     bind_run (Some (throwIfAborted a)) (\<lambda>_ a0.
     let step = phase_step (ag_phase a0) + 1 in
     bind_run (Some (awaiting env (preStep env target turn a0))) (\<lambda>decision a1. case decision of
       RejectStep \<Rightarrow> Some (a1, Inr (ReturnTurn Blocked))
     | EnterStep messages startsRequestSeries \<Rightarrow>
         if messages = [] \<and> turnEnds \<noteq> None then Some (a1, Inr (BreakTurn (the turnEnds)))
         else if phase_step (ag_phase a1) = 0 \<and> messages = [] then Some (a1, Inr (ReturnTurn Completed))
         else bind_run (Some (throwIfAborted a1)) (\<lambda>_ a2.
              bind_run (enter_step fuel env turn step messages startsRequestSeries a2) (\<lambda>stepEnd a4.
              let turnEnds' = (if turnEnds = Some MaxTokens then turnEnds else stepEnd) in
              bind_run (Some (throwIfAborted a4)) (\<lambda>_ a5.
              bind_run (Some (turn_stops env turnEnds' a5)) (\<lambda>stops a6.
                if stops then Some (a6, Inr (BreakTurn (the turnEnds')))
                else turn_loop fuel env turn NextStep turnEnds' a6))))))"

text \<open>The \<open>catch\<close> and \<open>finally\<close> of a turn.\<close>

definition close_turn :: "agent_env \<Rightarrow> int \<Rightarrow> turn_end_reason \<Rightarrow> string + bool \<Rightarrow> agent \<Rightarrow> bool run" where
  "close_turn env turn reason r a = (case append_data env (TurnEnd turn reason) JUndef a of
     (a1, Inl err) \<Rightarrow> throwError err a1 | (a1, Inr seq) \<Rightarrow> (a1, r))"

definition end_turn :: "agent_env \<Rightarrow> int \<Rightarrow> agent \<times> (string + turn_flow) \<Rightarrow> bool run" where
  "end_turn env turn r = (case r of
     (a, Inl err) \<Rightarrow>
       (if abort_of (ag_phase a) \<noteq> None then close_turn env turn Aborted (Inl err) a
        else close_turn env turn ErrorEnd (Inl err) (report_error err a))
   | (a, Inr (ReturnTurn reason)) \<Rightarrow> close_turn env turn reason (Inr False) a
   | (a, Inr (BreakTurn reason)) \<Rightarrow>
       then_run (then_run (close_turn env turn reason (Inr True) a) (\<lambda>_. agent_pending)) (\<lambda>pending a1.
         (if pending then a1\<lparr>ag_phase := Running (last_turn (ag_phase a1)) 0 False None\<rparr> else a1, Inr pending)))"

fun set_turn :: "int \<Rightarrow> agent_phase \<Rightarrow> agent_phase" where
  "set_turn n (Running m s w c) = Running n s w c"
| "set_turn n p = p"

definition run_turn :: "nat \<Rightarrow> agent_env \<Rightarrow> agent \<Rightarrow> (agent \<times> (string + bool)) option" where
  "run_turn fuel env a = bind_run (Some (throwIfAborted a)) (\<lambda>_ a0.
     let turn = last_turn (ag_phase a0) + 1 in
     case append_data env (TurnStart turn) JUndef a0 of
       (a1, Inl err) \<Rightarrow> Some (throwError err a1)
     | (a1, Inr seq) \<Rightarrow>
         map_option (end_turn env turn) (turn_loop fuel env turn NextTurn None
           (a1\<lparr>ag_phase := set_turn turn (ag_phase a1)\<rparr>)))"

section \<open>The driver\<close>

text \<open>The loop of \<open>kick\<close>: failures and cancellation are contained here.\<close>

fun drive_turns :: "nat \<Rightarrow> agent_env \<Rightarrow> agent \<Rightarrow> agent option" where
  "drive_turns 0 env a = None"
| "drive_turns (Suc fuel) env a = (case map_option (awaiting env) (run_turn fuel env a) of
     None \<Rightarrow> None
   | Some (a1, Inr True) \<Rightarrow> drive_turns fuel env a1
   | Some (a1, r) \<Rightarrow> Some a1)"

definition finish_drive :: "agent \<Rightarrow> agent" where
  "finish_drive a = (case ag_phase a of Running n s w c \<Rightarrow> retire n w a | p \<Rightarrow> a)"

fun kick :: "nat \<Rightarrow> agent_env \<Rightarrow> agent \<Rightarrow> agent option" where
  "kick 0 env a = None"
| "kick (Suc fuel) env a = (case drive_turns fuel env a of
     None \<Rightarrow> None
   | Some a1 \<Rightarrow> (let a2 = finish_drive a1 in if running (ag_phase a2) then kick fuel env a2 else Some a2))"

text \<open>A call from outside, on an agent at rest: it may start the driver.\<close>

definition command :: "nat \<Rightarrow> agent_env \<Rightarrow> agent_command \<Rightarrow> agent \<Rightarrow> agent option" where
  "command fuel env c a = (let a1 = deliver env a c in if running (ag_phase a1) then kick fuel env a1 else Some a1)"

fun commands :: "nat \<Rightarrow> agent_env \<Rightarrow> agent_command list \<Rightarrow> agent \<Rightarrow> agent option" where
  "commands fuel env [] a = Some a"
| "commands fuel env (c # cs) a = (case command fuel env c a of None \<Rightarrow> None | Some a1 \<Rightarrow> commands fuel env cs a1)"

end
