(* ===== verification/Tool_Order.thy ===== *)
theory Tool_Order
  imports Tool_Calls
begin

text \<open>
  What the scheduler of \<open>Tool_Calls\<close> guarantees of the log it writes, for every schedule: calls and results
  in model order, one result per call unless the scheduler fails, each result citing its call, and every
  event accepted by the relational invariant of the session log.
\<close>

section \<open>Extensions by neutral events\<close>

definition extends :: "inbox_session \<Rightarrow> inbox_session \<Rightarrow> bool" where
  "extends s s' \<longleftrightarrow> (\<exists>x. ib_log s' = ib_log s @ x \<and> neutral_tail (length (ib_log s)) x)"

lemma extends_refl [simp]: "extends s s"
  by (simp add: extends_def exI [of _ "[]"])

lemma neutral_tail_append:
  "neutral_tail b x \<Longrightarrow> neutral_tail (b + length x) y \<Longrightarrow> neutral_tail b (x @ y)"
  by (auto simp: neutral_tail_def contiguous_def nth_append)

lemma extends_trans: "extends s s' \<Longrightarrow> extends s' s'' \<Longrightarrow> extends s s''"
  unfolding extends_def by (metis append.assoc length_append neutral_tail_append)

lemma extends_cong: "ib_log s = ib_log t \<Longrightarrow> extends s s' \<longleftrightarrow> extends t s'"
  by (simp add: extends_def)

lemma extends_splice:
  "extends s (s\<lparr>ib_log := ib_log s @ [log_event (length (ib_log s)) now (InboxSpliced sp)], ib_signals := sg\<rparr>)"
  by (auto simp: extends_def neutral_tail_def contiguous_def neutral_def)

lemma mutate_extends: "extends s (fst (mutate env t a d ins dis s))"
  by (simp add: mutate_def Let_def extends_splice split: sum.split option.split)

lemma append_message_extends: "extends s (fst (append_message env t m s))"
  unfolding append_message_def read_length_def splice_def
  by (simp add: mutate_extends split: sum.split)

lemma accept_contexts_extends: "extends s (fst (accept_contexts env ms s))"
proof (induction ms arbitrary: s)
  case (Cons m ms)
  obtain s1 r where r: "append_message env NextStep m s = (s1, r)" by (cases "append_message env NextStep m s")
  with append_message_extends [of s env NextStep m] have "extends s s1" by simp
  with Cons.IH [of s1] r show ?case by (cases r) (auto intro: extends_trans)
qed simp

section \<open>Calls and results of a log\<close>

definition call_of :: "session_event \<Rightarrow> string option" where
  "call_of e = (case ev_data e of ToolCall n s c \<Rightarrow> Some c | _ \<Rightarrow> None)"

definition result_of :: "session_event \<Rightarrow> string option" where
  "result_of e = (case ev_data e of ToolResult r \<Rightarrow> Some (tr_callId r) | _ \<Rightarrow> None)"

abbreviation calls_of :: "session_event list \<Rightarrow> string list" where
  "calls_of \<equiv> List.map_filter call_of"

abbreviation results_of :: "session_event list \<Rightarrow> string list" where
  "results_of \<equiv> List.map_filter result_of"

lemma map_filter_append [simp]: "List.map_filter f (xs @ ys) = List.map_filter f xs @ List.map_filter f ys"
  by (simp add: List.map_filter_def)

lemma map_filter_Nil [simp]: "List.map_filter f [] = []"
  by (simp add: List.map_filter_def)

lemma map_filter_single: "List.map_filter f [x] = (case f x of None \<Rightarrow> [] | Some y \<Rightarrow> [y])"
  by (simp add: List.map_filter_def split: option.split)

lemma map_filter_none: "(\<And>x. x \<in> set xs \<Longrightarrow> f x = None) \<Longrightarrow> List.map_filter f xs = []"
  by (simp add: List.map_filter_def filter_empty_conv)

lemma neutral_none:
  assumes "neutral_tail b x"
  shows "calls_of x = []" "results_of x = []"
proof -
  have "call_of e = None \<and> result_of e = None" if "e \<in> set x" for e
    using assms that by (cases "ev_data e") (auto simp: neutral_tail_def list_all_iff neutral_def call_of_def result_of_def)
  then show "calls_of x = []" "results_of x = []" by (auto intro: map_filter_none)
qed

text \<open>Every result cites the event of its call.\<close>

definition cites :: "int \<Rightarrow> int \<Rightarrow> session_event list \<Rightarrow> bool" where
  "cites n s es \<longleftrightarrow> (\<forall>e \<in> set es. \<forall>r. ev_data e = ToolResult r \<longrightarrow>
     (\<exists>f \<in> set es. ev_data f = ToolCall n s (tr_callId r) \<and> ev_sources e = JArr [JNum (js_int (int (ev_seq f)))]))"

lemma cites_append: "cites n s es \<Longrightarrow> \<forall>e \<in> set x. result_of e = None \<Longrightarrow> cites n s (es @ x)"
  unfolding cites_def result_of_def by fastforce

lemma cites_result:
  assumes "cites n s es" "f \<in> set es" "ev_data f = ToolCall n s (tr_callId r)" "ev_data e = ToolResult r"
    "ev_sources e = JArr [JNum (js_int (int (ev_seq f)))]"
  shows "cites n s (es @ [e])"
  using assms unfolding cites_def by auto

text \<open>The events \<open>extra\<close> written since \<open>base\<close>: the first \<open>a\<close> calls, the results of the first \<open>b\<close> of them,
  and the calls between awaiting theirs.\<close>

definition written :: "session_event list \<Rightarrow> int \<Rightarrow> int \<Rightarrow> string list \<Rightarrow> nat \<Rightarrow> nat \<Rightarrow> session_event list \<Rightarrow> bool" where
  "written base n s calls a b extra \<longleftrightarrow> calls_of extra = take a calls \<and> results_of extra = take b calls
     \<and> b \<le> a \<and> a \<le> length calls \<and> cites n s extra
     \<and> step_at (base @ extra) n s (set (drop b (take a calls)))"

lemma written_neutral:
  assumes "written base n s calls a b extra" "neutral_tail (length (base @ extra)) x"
  shows "written base n s calls a b (extra @ x)"
proof -
  have "step_at ((base @ extra) @ x) n s (set (drop b (take a calls)))"
    using assms(1) by (intro neutral_positions(3) [OF assms(2)]) (simp add: written_def)
  moreover have "\<forall>e \<in> set x. result_of e = None"
    using assms(2) by (auto simp: neutral_tail_def list_all_iff neutral_def result_of_def split: event_data.splits)
  ultimately show ?thesis using assms neutral_none [OF assms(2)] by (simp add: written_def cites_append)
qed

lemma written_call:
  assumes w: "written base n s calls a b extra" and a: "a < length calls"
    and e: "ev_seq e = length (base @ extra)" "ev_data e = ToolCall n s (calls ! a)"
  shows "written base n s calls (Suc a) b (extra @ [e])"
proof -
  have "step_at ((base @ extra) @ [e]) n s (insert (calls ! a) (set (drop b (take a calls))))"
    using w e by (intro call_position) (simp_all add: written_def)
  moreover have "drop b (take (Suc a) calls) = drop b (take a calls) @ [calls ! a]"
    using w a by (simp add: take_Suc_conv_app_nth written_def)
  ultimately show ?thesis using w a e
    by (simp add: written_def take_Suc_conv_app_nth map_filter_single call_of_def result_of_def cites_append)
qed

lemma written_result:
  assumes w: "written base n s calls a b extra" and b: "b < a" and d: "distinct calls"
    and e: "ev_seq e = length (base @ extra)" "ev_data e = ToolResult r" "ev_surfaceOp e = JStr ''append''"
    and r: "tr_turn r = n" "tr_step r = s" "tr_callId r = calls ! b"
    and f: "f \<in> set extra" "ev_data f = ToolCall n s (calls ! b)" "ev_sources e = JArr [JNum (js_int (int (ev_seq f)))]"
  shows "written base n s calls a (Suc b) (extra @ [e])"
proof -
  let ?t = "take a calls"
  have len: "b < length ?t" using w b by (simp add: written_def)
  have split: "drop b ?t = calls ! b # drop (Suc b) ?t" using len b by (simp add: Cons_nth_drop_Suc [symmetric])
  moreover have "distinct (drop b ?t)" using d by simp
  ultimately have rest: "set (drop b ?t) - {calls ! b} = set (drop (Suc b) ?t)" by (metis Diff_insert_absorb distinct.simps(2) list.set(2))
  have "step_at ((base @ extra) @ [e]) n s (set (drop b ?t) - {tr_callId r})"
    using w e r split by (intro result_position [OF _ e]) (simp_all add: written_def)
  moreover have "take (Suc b) calls = take b calls @ [calls ! b]"
    using w b by (simp add: take_Suc_conv_app_nth written_def)
  moreover have "cites n s (extra @ [e])" using w f e r by (intro cites_result) (simp_all add: written_def)
  ultimately show ?thesis using w b e r rest
    by (simp add: written_def map_filter_single call_of_def result_of_def)
qed

section \<open>The group\<close>

text \<open>While the scheduler awaits, others append neutral events only.\<close>

definition quiet_await :: "tool_env \<Rightarrow> bool" where
  "quiet_await te \<longleftrightarrow> (\<forall>st. extends (tg_session st) (te_await te st))"

text \<open>The log and the counters agree, and a slot belongs to a started call.\<close>

definition group_log :: "session_event list \<Rightarrow> int \<Rightarrow> int \<Rightarrow> string list \<Rightarrow> session_event list \<Rightarrow> tool_group \<Rightarrow> bool" where
  "group_log base n s calls extra st \<longleftrightarrow> ib_log (tg_session st) = base @ extra
     \<and> written base n s calls (tg_started st) (tg_committed st) extra
     \<and> (\<forall>i < tg_started st. \<exists>f \<in> set extra. tg_callSeqs st ! i = Some (ev_seq f) \<and> ev_data f = ToolCall n s (calls ! i))"

definition group_slots :: "string list \<Rightarrow> tool_group \<Rightarrow> bool" where
  "group_slots calls st \<longleftrightarrow> length (tg_slots st) = length calls \<and> length (tg_callSeqs st) = length calls
     \<and> (\<forall>i < length calls. tg_slots st ! i \<noteq> None \<longrightarrow> i < tg_started st)
     \<and> (\<forall>i \<in> set (tg_inFlight st). i < tg_started st)
     \<and> (\<forall>i \<in> set (tg_settled st). i < tg_started st \<and> (tg_slots st ! i \<noteq> None \<or> tg_failure st \<noteq> None))"

text \<open>Every started call is committed, settled or in flight.\<close>

definition accounted :: "tool_group \<Rightarrow> nat \<Rightarrow> bool" where
  "accounted st i \<longleftrightarrow> i < tg_committed st \<or> tg_slots st ! i \<noteq> None \<or> i \<in> set (tg_inFlight st) \<or> tg_failure st \<noteq> None"

definition group_ok :: "session_event list \<Rightarrow> int \<Rightarrow> int \<Rightarrow> string list \<Rightarrow> tool_group \<Rightarrow> bool" where
  "group_ok base n s calls st \<longleftrightarrow> (\<exists>extra. group_log base n s calls extra st) \<and> group_slots calls st"

text \<open>What is left of the log when the scheduler throws.\<close>

definition log_ok :: "session_event list \<Rightarrow> int \<Rightarrow> int \<Rightarrow> string list \<Rightarrow> inbox_session \<Rightarrow> bool" where
  "log_ok base n s calls ss \<longleftrightarrow> (\<exists>extra a b. ib_log ss = base @ extra \<and> written base n s calls a b extra)"

lemma group_log_ok: "group_ok base n s calls st \<Longrightarrow> log_ok base n s calls (tg_session st)"
  by (auto simp: group_ok_def group_log_def log_ok_def)

lemma log_ok_extends:
  assumes "log_ok base n s calls ss" "extends ss ss'"
  shows "log_ok base n s calls ss'"
proof -
  from assms(1) obtain extra a b where w: "ib_log ss = base @ extra" "written base n s calls a b extra"
    by (auto simp: log_ok_def)
  from assms(2) obtain x where x: "ib_log ss' = ib_log ss @ x" "neutral_tail (length (ib_log ss)) x"
    by (auto simp: extends_def)
  from written_neutral [OF w(2), of x] x w have "written base n s calls a b (extra @ x)" by simp
  with x w show ?thesis unfolding log_ok_def by (intro exI [of _ "extra @ x"]) auto
qed

lemma group_log_extends:
  assumes "group_log base n s calls extra st" "ib_log ss = ib_log (tg_session st) @ x" "neutral_tail (length (ib_log (tg_session st))) x"
    and "tg_session st' = ss" "tg_started st' = tg_started st" "tg_committed st' = tg_committed st" "tg_callSeqs st' = tg_callSeqs st"
  shows "group_log base n s calls (extra @ x) st'"
  using assms written_neutral [of base n s calls "tg_started st" "tg_committed st" extra x]
  by (auto simp: group_log_def Un_iff bex_Un)

section \<open>Waiting\<close>

lemma settle_one_frame [simp]:
  "tg_session (settle_one st x) = tg_session st" "tg_callSeqs (settle_one st x) = tg_callSeqs st"
  "tg_nextToStart (settle_one st x) = tg_nextToStart st" "tg_committed (settle_one st x) = tg_committed st"
  "tg_started (settle_one st x) = tg_started st" "tg_inFlight (settle_one st x) = tg_inFlight st"
  "tg_aborted (settle_one st x) = tg_aborted st" "tg_concluded (settle_one st x) = tg_concluded st"
  by (simp_all add: settle_one_def split: prod.split sum.split)

lemma settle_frame [simp]:
  "tg_session (foldl settle_one st xs) = tg_session st" "tg_callSeqs (foldl settle_one st xs) = tg_callSeqs st"
  "tg_nextToStart (foldl settle_one st xs) = tg_nextToStart st" "tg_committed (foldl settle_one st xs) = tg_committed st"
  "tg_started (foldl settle_one st xs) = tg_started st" "tg_inFlight (foldl settle_one st xs) = tg_inFlight st"
  "tg_aborted (foldl settle_one st xs) = tg_aborted st" "tg_concluded (foldl settle_one st xs) = tg_concluded st"
  by (induction xs arbitrary: st) simp_all

lemma await_frame [simp]:
  "tg_session (await te st) = te_await te st" "tg_callSeqs (await te st) = tg_callSeqs st"
  "tg_nextToStart (await te st) = tg_nextToStart st" "tg_committed (await te st) = tg_committed st"
  "tg_started (await te st) = tg_started st" "tg_inFlight (await te st) = tg_inFlight st"
  "tg_aborted (await te st) = tg_aborted st" "tg_concluded (await te st) = tg_concluded st"
  by (simp_all add: await_def)

lemma settle_one_slots:
  assumes "group_slots calls st" "tg_started st \<le> length calls"
  shows "group_slots calls (settle_one st x) \<and> (accounted st i \<longrightarrow> accounted (settle_one st x) i)
    \<and> (tg_slots st ! i \<noteq> None \<longrightarrow> tg_slots (settle_one st x) ! i \<noteq> None)
    \<and> (tg_failure st \<noteq> None \<longrightarrow> tg_failure (settle_one st x) \<noteq> None)"
proof -
  obtain j r where x: "x = (j, r)" by (cases x)
  show ?thesis
  proof (cases "j \<notin> set (tg_inFlight st) \<or> j \<in> set (tg_settled st)")
    case True
    with assms(1) show ?thesis by (simp add: x settle_one_def)
  next
    case False
    with assms have "j < tg_started st" "j < length (tg_slots st)" by (auto simp: group_slots_def)
    with assms False show ?thesis
      by (cases r) (auto simp: x settle_one_def group_slots_def accounted_def nth_list_update split: option.split)
  qed
qed

lemma settle_slots:
  assumes "group_slots calls st" "tg_started st \<le> length calls"
  shows "group_slots calls (foldl settle_one st xs) \<and> (accounted st i \<longrightarrow> accounted (foldl settle_one st xs) i)
    \<and> (tg_slots st ! i \<noteq> None \<longrightarrow> tg_slots (foldl settle_one st xs) ! i \<noteq> None)
    \<and> (tg_failure st \<noteq> None \<longrightarrow> tg_failure (foldl settle_one st xs) \<noteq> None)"
  using assms
proof (induction xs arbitrary: st)
  case (Cons x xs)
  from settle_one_slots [OF Cons.prems] Cons.prems Cons.IH [of "settle_one st x"] show ?case by simp
qed simp

lemma group_started: "group_log base n s calls extra st \<Longrightarrow> tg_started st \<le> length calls \<and> tg_committed st \<le> tg_started st"
  by (simp add: group_log_def written_def)

lemma await_ok:
  assumes "quiet_await te" "group_ok base n s calls st"
  shows "group_ok base n s calls (await te st)"
    and "accounted st i \<Longrightarrow> accounted (await te st) i"
    and "tg_slots st ! i \<noteq> None \<Longrightarrow> tg_slots (await te st) ! i \<noteq> None"
    and "tg_failure st \<noteq> None \<Longrightarrow> tg_failure (await te st) \<noteq> None"
proof -
  from assms(2) obtain extra where log: "group_log base n s calls extra st" and sl: "group_slots calls st"
    by (auto simp: group_ok_def)
  have "group_slots calls (st\<lparr>tg_session := te_await te st\<rparr>)" "accounted (st\<lparr>tg_session := te_await te st\<rparr>) i = accounted st i"
    using sl by (simp_all add: group_slots_def accounted_def)
  note all = settle_slots [OF this(1), where i = i and xs = "te_settles te st", folded await_def] this(2)
  from assms(1) obtain x where "ib_log (te_await te st) = ib_log (tg_session st) @ x" "neutral_tail (length (ib_log (tg_session st))) x"
    unfolding quiet_await_def extends_def by blast
  then have "group_log base n s calls (extra @ x) (await te st)" by (intro group_log_extends [OF log]) simp_all
  with all group_started [OF log] show "group_ok base n s calls (await te st)"
    "accounted st i \<Longrightarrow> accounted (await te st) i"
    "tg_slots st ! i \<noteq> None \<Longrightarrow> tg_slots (await te st) ! i \<noteq> None"
    "tg_failure st \<noteq> None \<Longrightarrow> tg_failure (await te st) \<noteq> None"
    by (auto simp: group_ok_def)
qed

section \<open>Committing\<close>

text \<open>Commits leave the pool as it is and account for at least the same calls.\<close>

definition same_pool :: "tool_group \<Rightarrow> tool_group \<Rightarrow> bool" where
  "same_pool st st' \<longleftrightarrow> tg_started st' = tg_started st \<and> tg_nextToStart st' = tg_nextToStart st
     \<and> tg_inFlight st' = tg_inFlight st \<and> (\<forall>i. accounted st i \<longrightarrow> accounted st' i)"

lemma same_pool_trans: "same_pool a b \<Longrightarrow> same_pool b c \<Longrightarrow> same_pool a c"
  by (simp add: same_pool_def)

lemma same_pool_refl [simp]: "same_pool st st"
  by (simp add: same_pool_def)

lemma await_pool: "quiet_await te \<Longrightarrow> group_ok base n s calls st \<Longrightarrow> same_pool st (await te st)"
  by (simp add: same_pool_def await_ok(2))

lemma group_ok_session:
  assumes "group_ok base n s calls st" "extends (tg_session st) ss" "tg_session st' = ss" "tg_started st' = tg_started st"
    "tg_committed st' = tg_committed st" "tg_callSeqs st' = tg_callSeqs st" "tg_slots st' = tg_slots st"
    "tg_inFlight st' = tg_inFlight st" "tg_settled st' = tg_settled st" "tg_failure st' = tg_failure st"
  shows "group_ok base n s calls st'"
proof -
  from assms(1) obtain extra where log: "group_log base n s calls extra st" and sl: "group_slots calls st"
    by (auto simp: group_ok_def)
  from assms(2) obtain x where "ib_log ss = ib_log (tg_session st) @ x" "neutral_tail (length (ib_log (tg_session st))) x"
    unfolding extends_def by blast
  then have "group_log base n s calls (extra @ x) st'" using assms by (intro group_log_extends [OF log]) simp_all
  moreover have "group_slots calls st'" using sl assms by (simp add: group_slots_def)
  ultimately show ?thesis by (auto simp: group_ok_def)
qed

text \<open>The result event of the next call to commit.\<close>

lemma commit_result:
  assumes ok: "group_ok base n s calls st" and d: "distinct calls" and c: "tg_committed st < tg_started st"
    and s1: "s1 = appendToolResult now n s i (calls ! tg_committed st) result (the (tg_callSeqs st ! tg_committed st)) (tg_session st)"
  shows "group_ok base n s calls (st\<lparr>tg_session := s1, tg_committed := tg_committed st + 1\<rparr>)"
proof -
  let ?k = "tg_committed st"
  from ok obtain extra where log: "group_log base n s calls extra st" and sl: "group_slots calls st"
    by (auto simp: group_ok_def)
  from log c obtain f where f: "f \<in> set extra" "tg_callSeqs st ! ?k = Some (ev_seq f)" "ev_data f = ToolCall n s (calls ! ?k)"
    unfolding group_log_def by blast
  define e where "e = \<lparr>ev_seq = length (ib_log (tg_session st)), ev_time = now,
    ev_data = ToolResult (result_record n s i (calls ! ?k) result), ev_surfaceOp = JStr ''append'',
    ev_sources = JArr [JNum (js_int (int (ev_seq f)))]\<rparr>"
  have s1': "ib_log s1 = ib_log (tg_session st) @ [e]" using f by (simp add: s1 appendToolResult_def push_record_def e_def)
  have "written base n s calls (tg_started st) (Suc ?k) (extra @ [e])"
    using log c d f by (intro written_result [where f = f and r = "result_record n s i (calls ! ?k) result"])
      (simp_all add: group_log_def e_def result_record_def)
  then have "group_log base n s calls (extra @ [e]) (st\<lparr>tg_session := s1, tg_committed := ?k + 1\<rparr>)"
    using log s1' by (auto simp: group_log_def)
  moreover have "group_slots calls (st\<lparr>tg_session := s1, tg_committed := ?k + 1\<rparr>)"
    using sl by (simp add: group_slots_def)
  ultimately show ?thesis by (auto simp: group_ok_def)
qed

definition commits :: "session_event list \<Rightarrow> int \<Rightarrow> int \<Rightarrow> string list \<Rightarrow> tool_group \<Rightarrow> tool_group \<times> (string + unit) \<Rightarrow> bool" where
  "commits base n s calls st r = (case r of
     (st', Inl err) \<Rightarrow> log_ok base n s calls (tg_session st')
   | (st', Inr u) \<Rightarrow> group_ok base n s calls st' \<and> same_pool st st')"

lemma commits_run:
  assumes "commits base n s calls st r" "\<And>st1. r = (st1, Inr ()) \<Longrightarrow> commits base n s calls st1 (f () st1)"
  shows "commits base n s calls st (then_run r f)"
proof -
  obtain st1 v where r: "r = (st1, v)" by (cases r)
  show ?thesis
  proof (cases v)
    case (Inr u)
    with r assms have "commits base n s calls st1 (f () st1)" "same_pool st st1" by (simp_all add: commits_def)
    moreover obtain st2 w where "f () st1 = (st2, w)" by (cases "f () st1")
    ultimately show ?thesis using r Inr by (cases w) (auto simp: commits_def intro: same_pool_trans)
  qed (use r assms in \<open>simp add: commits_def\<close>)
qed

lemma commit_one_ok:
  assumes "quiet_await te" "distinct calls" "group_ok base n s calls st"
    and slot: "tg_slots st ! tg_committed st = Some sl" and k: "tg_committed st < length calls"
  shows "commits base n s calls st (commit_one te n s (calls ! tg_committed st) sl st)"
    and "commit_one te n s (calls ! tg_committed st) sl st = (st', Inr ()) \<Longrightarrow> tg_committed st' = tg_committed st + 1"
proof -
  define st1 where "st1 = (if snd sl then await te st else st)"
  have st1: "group_ok base n s calls st1" "same_pool st st1" "tg_committed st1 = tg_committed st"
    using assms(1,3) by (simp_all add: st1_def await_ok(1) await_pool)
  have started: "tg_committed st1 < tg_started st1"
    using assms(3) slot k by (auto simp: st1_def group_ok_def group_slots_def)
  show "commits base n s calls st (commit_one te n s (calls ! tg_committed st) sl st)"
  proof (cases "te_finish te st sl")
    case (Inl err)
    with st1 group_log_ok [OF st1(1)] show ?thesis by (simp add: commit_one_def Let_def st1_def [symmetric] commits_def)
  next
    case (Inr result)
    define s1 where "s1 = appendToolResult (te_now te) n s (te_messageId te st1) (calls ! tg_committed st) result
      (the (tg_callSeqs st1 ! tg_committed st)) (tg_session st1)"
    obtain s2 r where s2: "accept_contexts (te_inbox te) (xr_contexts result) s1 = (s2, r)" by fastforce
    with accept_contexts_extends [of s1 "te_inbox te" "xr_contexts result"] have ext: "extends s1 s2" by simp
    note ok1 = commit_result [OF st1(1) assms(2) started, unfolded st1(3), OF s1_def]
    have run: "commit_one te n s (calls ! tg_committed st) sl st = (case r of
        Inl err \<Rightarrow> (st1\<lparr>tg_session := s2\<rparr>, Inl err)
      | Inr u \<Rightarrow> (st1\<lparr>tg_session := s2, tg_concluded := tg_concluded st1 \<or> xr_concludes result,
          tg_committed := tg_committed st1 + 1\<rparr>, Inr ()))"
      using Inr s2 st1(3) by (simp add: commit_one_def Let_def st1_def [symmetric] s1_def [symmetric] split: sum.split)
    note ok1' = ok1 [folded st1(3)]
    show ?thesis
    proof (cases r)
      case (Inl err)
      have "log_ok base n s calls s2" using log_ok_extends [OF group_log_ok [OF ok1]] ext by simp
      with run Inl show ?thesis by (simp add: commits_def)
    next
      case (Inr u)
      have "group_ok base n s calls (st1\<lparr>tg_session := s2, tg_concluded := tg_concluded st1 \<or> xr_concludes result,
          tg_committed := tg_committed st1 + 1\<rparr>)"
        by (rule group_ok_session [OF ok1']) (use ext in simp_all)
      moreover have "same_pool st1 (st1\<lparr>tg_session := s2, tg_concluded := tg_concluded st1 \<or> xr_concludes result,
          tg_committed := tg_committed st1 + 1\<rparr>)"
        by (auto simp: same_pool_def accounted_def)
      ultimately show ?thesis using run Inr same_pool_trans [OF st1(2)] by (simp add: commits_def)
    qed
  qed
  show "tg_committed st' = tg_committed st + 1"
    if "commit_one te n s (calls ! tg_committed st) sl st = (st', Inr ())"
    using that st1(3) by (auto simp: commit_one_def Let_def st1_def [symmetric] split: sum.splits prod.splits)
qed

definition stuck :: "string list \<Rightarrow> tool_group \<Rightarrow> bool" where
  "stuck calls st \<longleftrightarrow> tg_committed st = length calls \<or> tg_slots st ! tg_committed st = None"

lemma commitReady_ok:
  assumes "quiet_await te" "distinct calls"
  shows "group_ok base n s calls st \<Longrightarrow> cs = drop (tg_committed st) calls \<Longrightarrow>
    commits base n s calls st (commitReady te n s cs st)
    \<and> (\<forall>st'. commitReady te n s cs st = (st', Inr ()) \<longrightarrow> stuck calls st')"
proof (induction cs arbitrary: st)
  case Nil
  then have "tg_committed st = length calls" by (auto simp: group_ok_def group_log_def written_def)
  with Nil show ?case by (simp add: commits_def stuck_def)
next
  case (Cons c cs)
  then have k: "tg_committed st < length calls" "c = calls ! tg_committed st" "cs = drop (Suc (tg_committed st)) calls"
    by (metis drop_eq_Nil leI list.distinct(1), metis nth_via_drop, metis drop_Suc tl_drop list.sel(3))
  show ?case
  proof (cases "tg_slots st ! tg_committed st")
    case None
    with Cons.prems(1) show ?thesis by (simp add: commits_def stuck_def)
  next
    case (Some sl)
    note one = commit_one_ok [OF assms Cons.prems(1) Some k(1)]
    have tail: "commits base n s calls st1 (commitReady te n s cs st1)
        \<and> (\<forall>st'. commitReady te n s cs st1 = (st', Inr ()) \<longrightarrow> stuck calls st')"
      if "commit_one te n s c sl st = (st1, Inr ())" for st1
      using that one k Cons.IH [of st1] by (simp add: commits_def)
    with one(1) k(2) have "commits base n s calls st (commitReady te n s (c # cs) st)"
      by (simp add: Some) (rule commits_run, simp_all)
    moreover have "stuck calls st'" if "commitReady te n s (c # cs) st = (st', Inr ())" for st'
      using that tail Some by (auto simp: then_run_def split: prod.splits sum.splits)
    ultimately show ?thesis by blast
  qed
qed

lemma throw_ok: "group_ok base n s calls st \<Longrightarrow> commits base n s calls st (throwSchedulerFailure st)"
  using group_log_ok by (auto simp: throwSchedulerFailure_def commits_def split: option.split)

lemma commit_and_check_ok:
  assumes "quiet_await te" "distinct calls" "group_ok base n s calls st"
  shows "commits base n s calls st (commit_and_check te n s calls st)"
    and "commit_and_check te n s calls st = (st', Inr ()) \<Longrightarrow> stuck calls st' \<and> tg_failure st' = None"
proof -
  show "commits base n s calls st (commit_and_check te n s calls st)" unfolding commit_and_check_def
  proof (intro commits_run)
    show "commits base n s calls st (throwSchedulerFailure st)" by (rule throw_ok [OF assms(3)])
  next
    fix st1 assume "throwSchedulerFailure st = (st1, Inr ())"
    then have "st1 = st" by (simp add: throwSchedulerFailure_def)
    with commitReady_ok [OF assms refl] show "commits base n s calls st1 (commitReady te n s (drop (tg_committed st1) calls) st1)"
      by simp
    fix st2 assume "commitReady te n s (drop (tg_committed st1) calls) st1 = (st2, Inr ())"
    with commitReady_ok [OF assms refl] \<open>st1 = st\<close> have ok2: "group_ok base n s calls st2" by (auto simp: commits_def)
    then show "commits base n s calls st2 (throwSchedulerFailure st2)" by (rule throw_ok)
    fix st3 assume "throwSchedulerFailure st2 = (st3, Inr ())"
    then have "st3 = st2" by (simp add: throwSchedulerFailure_def)
    with group_ok_session [OF ok2, of "tg_session st2" "st2\<lparr>tg_aborted := tg_aborted st2 \<or> te_aborted te st2\<rparr>"]
    show "commits base n s calls st3 (st3\<lparr>tg_aborted := tg_aborted st3 \<or> te_aborted te st3\<rparr>, Inr ())"
      by (simp add: commits_def same_pool_def accounted_def)
  qed
  show "stuck calls st' \<and> tg_failure st' = None" if "commit_and_check te n s calls st = (st', Inr ())"
  proof -
    from that obtain st2 where "commitReady te n s (drop (tg_committed st) calls) st = (st2, Inr ())" "tg_failure st2 = None"
      "st' = st2\<lparr>tg_aborted := tg_aborted st2 \<or> te_aborted te st2\<rparr>"
      by (auto simp: commit_and_check_def throwSchedulerFailure_def then_run_def split: prod.splits sum.splits option.splits)
    with commitReady_ok [OF assms refl] show ?thesis by (auto simp: stuck_def)
  qed
qed

section \<open>The pool\<close>

definition pool_ok :: "tool_env \<Rightarrow> session_event list \<Rightarrow> int \<Rightarrow> int \<Rightarrow> string list \<Rightarrow> tool_group \<Rightarrow> bool" where
  "pool_ok te base n s calls st \<longleftrightarrow> group_ok base n s calls st \<and> tg_nextToStart st = tg_started st
     \<and> (\<forall>i < tg_started st. accounted st i) \<and> tg_failure st = None \<and> stuck calls st
     \<and> distinct (tg_inFlight st) \<and> length (tg_inFlight st) \<le> te_limit te"

text \<open>Calls that are not started yet or in flight.\<close>

definition unfinished :: "string list \<Rightarrow> tool_group \<Rightarrow> nat" where
  "unfinished calls st = length calls - tg_started st + length (tg_inFlight st)"

lemma start_record:
  assumes ok: "group_ok base n s calls st" and k: "tg_started st < length calls"
  shows "group_ok base n s calls (st\<lparr>tg_session := appendToolCall now n s (calls ! tg_started st) (tg_session st),
      tg_callSeqs := (tg_callSeqs st)[tg_started st := Some (length (ib_log (tg_session st)))],
      tg_started := tg_started st + 1\<rparr>)" (is "group_ok _ _ _ _ ?st")
proof -
  let ?k = "tg_started st"
  from ok obtain extra where log: "group_log base n s calls extra st" and sl: "group_slots calls st"
    by (auto simp: group_ok_def)
  define e where "e = \<lparr>ev_seq = length (ib_log (tg_session st)), ev_time = now, ev_data = ToolCall n s (calls ! ?k),
    ev_surfaceOp = JUndef, ev_sources = JUndef\<rparr>"
  have s1: "ib_log (tg_session ?st) = ib_log (tg_session st) @ [e]"
    by (simp add: appendToolCall_def push_record_def e_def)
  have "written base n s calls (Suc ?k) (tg_committed st) (extra @ [e])"
    using log k by (intro written_call) (simp_all add: group_log_def e_def)
  moreover have "\<exists>f \<in> set (extra @ [e]). tg_callSeqs ?st ! i = Some (ev_seq f) \<and> ev_data f = ToolCall n s (calls ! i)"
    if "i < Suc ?k" for i
  proof (cases "i = ?k")
    case True
    with sl k show ?thesis by (simp add: group_slots_def e_def)
  next
    case False
    with that log show ?thesis by (auto simp: group_log_def)
  qed
  ultimately have "group_log base n s calls (extra @ [e]) ?st"
    using log s1 by (auto simp: group_log_def)
  moreover have "group_slots calls ?st" using sl by (fastforce simp: group_slots_def)
  ultimately show ?thesis by (auto simp: group_ok_def)
qed

text \<open>What a started call adds to the pool.\<close>

definition started_one :: "tool_group \<Rightarrow> tool_group \<Rightarrow> bool" where
  "started_one st st' \<longleftrightarrow> tg_started st' = tg_started st + 1 \<and> tg_nextToStart st' = tg_nextToStart st
     \<and> (\<forall>i. accounted st i \<longrightarrow> accounted st' i) \<and> accounted st' (tg_started st) \<and> tg_failure st' = None
     \<and> (tg_inFlight st' = tg_inFlight st \<or> tg_inFlight st' = tg_inFlight st @ [tg_started st])"

lemma startCall_ok:
  assumes q: "quiet_await te" and ok: "group_ok base n s calls st" and k: "tg_started st < length calls"
  shows "case startCall te n s (calls ! tg_started st) (tg_started st) st of
      (st', Inl err) \<Rightarrow> log_ok base n s calls (tg_session st')
    | (st', Inr u) \<Rightarrow> group_ok base n s calls st' \<and> started_one st st'"
proof -
  let ?k = "tg_started st"
  define st1 where "st1 = st\<lparr>tg_session := appendToolCall (te_now te) n s (calls ! ?k) (tg_session st),
      tg_callSeqs := (tg_callSeqs st)[?k := Some (length (ib_log (tg_session st)))], tg_started := ?k + 1\<rparr>"
  have ok1: "group_ok base n s calls st1" unfolding st1_def by (rule start_record [OF ok k])
  note aw = await_ok [OF q ok1] and ok2 = await_ok(1) [OF q ok1]
  let ?st2 = "await te st1"
  have frame: "tg_started ?st2 = ?k + 1" "tg_nextToStart ?st2 = tg_nextToStart st" "tg_inFlight ?st2 = tg_inFlight st"
    "\<And>i. accounted st i \<Longrightarrow> accounted ?st2 i"
    using aw(2) by (simp_all add: st1_def accounted_def)
  have start: "startCall te n s (calls ! ?k) ?k st = (case te_prepare te st1 (calls ! ?k) of
        Inl err \<Rightarrow> (?st2, Inl err)
      | Inr prepared \<Rightarrow> then_run (throwSchedulerFailure ?st2) (\<lambda>_ st3.
          (case prepared of
             Dispatched \<Rightarrow> st3\<lparr>tg_inFlight := tg_inFlight st3 @ [?k]\<rparr>
           | Prepared result needsPost \<Rightarrow> st3\<lparr>tg_slots := (tg_slots st3)[?k := Some (result, needsPost)]\<rparr>,
           Inr ())))"
    unfolding startCall_def Let_def st1_def ..
  have slots: "?k < length (tg_slots ?st2)" "group_slots calls ?st2" using ok2 k by (auto simp: group_ok_def group_slots_def)
  show ?thesis
  proof (cases "te_prepare te st1 (calls ! ?k)")
    case (Inl err)
    with group_log_ok [OF ok2] show ?thesis by (simp add: start)
  next
    case (Inr prepared)
    show ?thesis
    proof (cases "tg_failure ?st2")
      case (Some err)
      with Inr group_log_ok [OF ok2] show ?thesis
        by (simp add: start throwSchedulerFailure_def)
    next
      case None
      define st3 where "st3 = (case prepared of
             Dispatched \<Rightarrow> ?st2\<lparr>tg_inFlight := tg_inFlight ?st2 @ [?k]\<rparr>
           | Prepared result needsPost \<Rightarrow> ?st2\<lparr>tg_slots := (tg_slots ?st2)[?k := Some (result, needsPost)]\<rparr>)"
      have run: "startCall te n s (calls ! ?k) ?k st = (st3, Inr ())"
        using Inr None by (simp add: start throwSchedulerFailure_def st3_def del: await_frame)
      have "group_slots calls st3"
        using slots frame(1) by (cases prepared) (auto simp: st3_def group_slots_def nth_list_update)
      moreover have "group_log base n s calls extra st3" if "group_log base n s calls extra ?st2" for extra
        using that by (cases prepared) (simp_all add: st3_def group_log_def)
      ultimately have "group_ok base n s calls st3" using ok2 by (auto simp: group_ok_def)
      moreover have "started_one st st3"
      proof -
        have "accounted ?st2 i \<Longrightarrow> accounted st3 i" for i
          using slots(1) by (cases prepared) (auto simp: st3_def accounted_def nth_list_update)
        moreover have "accounted st3 ?k" using slots(1) by (cases prepared) (auto simp: st3_def accounted_def)
        moreover have "tg_failure st3 = None" "tg_started st3 = ?k + 1" "tg_nextToStart st3 = tg_nextToStart st"
          "tg_inFlight st3 = tg_inFlight st \<or> tg_inFlight st3 = tg_inFlight st @ [?k]"
          using None frame by (cases prepared; simp add: st3_def)+
        ultimately show ?thesis using frame(4) by (simp add: started_one_def)
      qed
      ultimately show ?thesis by (simp add: run)
    qed
  qed
qed

definition fills :: "tool_env \<Rightarrow> session_event list \<Rightarrow> int \<Rightarrow> int \<Rightarrow> string list \<Rightarrow> tool_group \<Rightarrow> tool_group \<times> (string + unit) \<Rightarrow> bool" where
  "fills te base n s calls st r = (case r of
     (st', Inl err) \<Rightarrow> log_ok base n s calls (tg_session st')
   | (st', Inr u) \<Rightarrow> pool_ok te base n s calls st' \<and> tg_started st \<le> tg_started st'
       \<and> unfinished calls st' \<le> unfinished calls st)"

lemma group_started_le: "group_ok base n s calls st \<Longrightarrow> tg_started st \<le> length calls"
  using group_started by (auto simp: group_ok_def)

lemma in_flight_started: "group_ok base n s calls st \<Longrightarrow> i \<in> set (tg_inFlight st) \<Longrightarrow> i < tg_started st"
  by (auto simp: group_ok_def group_slots_def)

text \<open>One round of the pool: a call is started and what is ready is committed.\<close>

lemma fill_round:
  assumes q: "quiet_await te" and d: "distinct calls" and pool: "pool_ok te base n s calls st"
    and k: "tg_started st < length calls" and room: "length (tg_inFlight st) < te_limit te"
  shows "case then_run (startCall te n s (calls ! tg_started st) (tg_nextToStart st) st)
        (\<lambda>_ st1. commit_and_check te n s calls (st1\<lparr>tg_nextToStart := tg_nextToStart st1 + 1\<rparr>)) of
      (st', Inl err) \<Rightarrow> log_ok base n s calls (tg_session st')
    | (st', Inr u) \<Rightarrow> pool_ok te base n s calls st' \<and> tg_started st' = Suc (tg_started st)
        \<and> unfinished calls st' \<le> unfinished calls st"
proof -
  have ok: "group_ok base n s calls st" and nxt: "tg_nextToStart st = tg_started st" using pool by (simp_all add: pool_ok_def)
  obtain st1 r where r: "startCall te n s (calls ! tg_started st) (tg_started st) st = (st1, r)" by fastforce
  show ?thesis
  proof (cases r)
    case (Inl err)
    with startCall_ok [OF q ok k] r nxt show ?thesis by simp
  next
    case (Inr u)
    with startCall_ok [OF q ok k] r have ok1: "group_ok base n s calls st1" and one: "started_one st st1" by simp_all
    define st1' where "st1' = st1\<lparr>tg_nextToStart := tg_nextToStart st1 + 1\<rparr>"
    have ok1': "group_ok base n s calls st1'" by (rule group_ok_session [OF ok1 extends_refl]) (simp_all add: st1'_def)
    obtain st2 r2 where r2: "commit_and_check te n s calls st1' = (st2, r2)" by fastforce
    show ?thesis
    proof (cases r2)
      case (Inl err)
      with commit_and_check_ok(1) [OF q d ok1'] r2 r Inr nxt show ?thesis by (simp add: commits_def st1'_def)
    next
      case (Inr v)
      with commit_and_check_ok [OF q d ok1'] r2 have ok2: "group_ok base n s calls st2" "same_pool st1' st2"
        and fin: "stuck calls st2" "tg_failure st2 = None" by (simp_all add: commits_def)
      have acc: "accounted st2 i" if "i < tg_started st2" for i
      proof -
        from that ok2(2) one have "i < tg_started st \<or> i = tg_started st"
          by (auto simp: same_pool_def started_one_def st1'_def)
        with pool one have "accounted st1 i" by (auto simp: pool_ok_def started_one_def)
        then have "accounted st1' i" by (simp add: accounted_def st1'_def)
        with ok2(2) show ?thesis unfolding same_pool_def by blast
      qed
      have flight: "tg_inFlight st2 = tg_inFlight st \<or> tg_inFlight st2 = tg_inFlight st @ [tg_started st]"
        "tg_started st2 = Suc (tg_started st)" "tg_nextToStart st2 = Suc (tg_nextToStart st)"
        using ok2(2) one by (auto simp: same_pool_def started_one_def st1'_def)
      moreover have "tg_started st \<notin> set (tg_inFlight st)" using in_flight_started [OF ok] by blast
      ultimately have "distinct (tg_inFlight st2)" "length (tg_inFlight st2) \<le> te_limit te"
        using pool room by (auto simp: pool_ok_def)
      then have "pool_ok te base n s calls st2" using ok2(1) fin acc flight nxt by (simp add: pool_ok_def)
      moreover have "unfinished calls st2 \<le> unfinished calls st" using flight k by (auto simp: unfinished_def)
      ultimately show ?thesis using r r2 Inr \<open>r = Inr u\<close> flight(2) nxt by (simp add: st1'_def)
    qed
  qed
qed

lemma fillPool_ok:
  assumes q: "quiet_await te" and d: "distinct calls"
  shows "pool_ok te base n s calls st \<Longrightarrow> cs = drop (tg_started st) calls \<Longrightarrow>
    fills te base n s calls st (fillPool te n s calls parallel cs st)"
proof (induction cs arbitrary: st)
  case Nil
  then show ?case by (simp add: fills_def)
next
  case (Cons c cs)
  then have k: "tg_started st < length calls" "c = calls ! tg_started st" "cs = drop (Suc (tg_started st)) calls"
    by (metis drop_eq_Nil leI list.distinct(1), metis nth_via_drop, metis drop_Suc tl_drop list.sel(3))
  show ?case
  proof (cases "tg_aborted st \<or> \<not> length (tg_inFlight st) < te_limit te
      \<or> (tg_nextToStart st > 0 \<and> parallel \<and> \<not> te_parallel te st c)")
    case True
    then have "fillPool te n s calls parallel (c # cs) st = (st, Inr ())" by auto
    with Cons.prems(1) show ?thesis by (simp add: fills_def)
  next
    case False
    obtain st2 r where r: "then_run (startCall te n s c (tg_nextToStart st) st)
        (\<lambda>_ st1. commit_and_check te n s calls (st1\<lparr>tg_nextToStart := tg_nextToStart st1 + 1\<rparr>)) = (st2, r)"
      by fastforce
    have run: "fillPool te n s calls parallel (c # cs) st
        = then_run (st2, r) (\<lambda>_ st2. fillPool te n s calls parallel cs st2)"
      using False unfolding r [symmetric] then_run_assoc by auto
    from fill_round [OF q d Cons.prems(1) k(1)] False r k(2)
    have one: "case (st2, r) of (st', Inl err) \<Rightarrow> log_ok base n s calls (tg_session st')
      | (st', Inr u) \<Rightarrow> pool_ok te base n s calls st' \<and> tg_started st' = Suc (tg_started st)
          \<and> unfinished calls st' \<le> unfinished calls st" by simp
    show ?thesis
    proof (cases r)
      case (Inl err)
      with one show ?thesis unfolding run by (simp add: fills_def)
    next
      case (Inr u)
      with one Cons.IH [of st2] k(3) have "fills te base n s calls st2 (fillPool te n s calls parallel cs st2)" by simp
      with one Inr show ?thesis unfolding run by (auto simp: fills_def split: prod.splits sum.splits)
    qed
  qed
qed

section \<open>The race\<close>

text \<open>Every wait on a dispatch in flight ends: one of them settles.\<close>

definition races_end :: "tool_env \<Rightarrow> bool" where
  "races_end te \<longleftrightarrow> (\<forall>st. tg_inFlight st \<noteq> [] \<longrightarrow> race_winner te (await te st) \<noteq> None)"

lemma race_winner_in: "race_winner te st = Some i \<Longrightarrow> i \<in> set (tg_inFlight st) \<and> i \<in> set (tg_settled st)"
proof -
  assume w: "race_winner te st = Some i"
  let ?ws = "filter (\<lambda>i. i \<in> set (tg_settled st)) (tg_inFlight st)"
  from w have "?ws \<noteq> []" "i = ?ws ! (te_race te st mod length ?ws)"
    by (auto simp: race_winner_def split: list.splits)
  then have "i \<in> set ?ws" by (metis length_greater_0_conv mod_less_divisor nth_mem)
  then show ?thesis by simp
qed

lemma race_settled:
  assumes q: "quiet_await te" and pool: "pool_ok te base n s calls st" and w: "race_winner te (await te st) = Some i"
  shows "group_ok base n s calls (await te st\<lparr>tg_inFlight := remove1 i (tg_inFlight st)\<rparr>)" (is "group_ok _ _ _ _ ?st")
    and "j < tg_started st \<Longrightarrow> accounted (await te st\<lparr>tg_inFlight := remove1 i (tg_inFlight st)\<rparr>) j"
    and "i \<in> set (tg_inFlight st)"
proof -
  from pool have ok: "group_ok base n s calls st" and acc: "\<forall>j < tg_started st. accounted st j" by (simp_all add: pool_ok_def)
  note aw = await_ok [OF q ok]
  show i: "i \<in> set (tg_inFlight st)" using race_winner_in [OF w] by simp
  have settled: "tg_slots (await te st) ! i \<noteq> None \<or> tg_failure (await te st) \<noteq> None"
    using race_winner_in [OF w] aw(1) unfolding group_ok_def group_slots_def by blast
  have "group_slots calls ?st"
    using aw(1) by (auto simp: group_ok_def group_slots_def dest: notin_set_remove1)
  moreover have "group_log base n s calls extra ?st" if "group_log base n s calls extra (await te st)" for extra
    using that by (simp add: group_log_def)
  ultimately show "group_ok base n s calls ?st" using aw(1) by (auto simp: group_ok_def)
  show "accounted ?st j" if "j < tg_started st"
  proof (cases "j = i")
    case True
    with settled show ?thesis by (auto simp: accounted_def)
  next
    case False
    with aw(2) [of j] acc that show ?thesis by (auto simp: accounted_def)
  qed
qed

lemma drain_round:
  assumes q: "quiet_await te" and d: "distinct calls" and pool: "pool_ok te base n s calls st"
    and w: "race_winner te (await te st) = Some i"
  shows "case then_run (commit_and_check te n s calls (await te st\<lparr>tg_inFlight := remove1 i (tg_inFlight st)\<rparr>))
        (\<lambda>_ st2. fillPool te n s calls parallel (drop (tg_nextToStart st2) calls) st2) of
      (st', Inl err) \<Rightarrow> log_ok base n s calls (tg_session st')
    | (st', Inr u) \<Rightarrow> pool_ok te base n s calls st' \<and> tg_started st \<le> tg_started st'
        \<and> unfinished calls st' < unfinished calls st"
proof -
  define st1 where "st1 = await te st\<lparr>tg_inFlight := remove1 i (tg_inFlight st)\<rparr>"
  note won = race_settled [OF q pool w, folded st1_def]
  have frame: "tg_started st1 = tg_started st" "tg_nextToStart st1 = tg_nextToStart st" "tg_inFlight st1 = remove1 i (tg_inFlight st)"
    by (simp_all add: st1_def)
  obtain st2 r where r: "commit_and_check te n s calls st1 = (st2, r)" by fastforce
  note ok = commit_and_check_ok [OF q d won(1)]
  show ?thesis
  proof (cases r)
    case (Inl err)
    with ok(1) r show ?thesis by (simp add: commits_def st1_def [symmetric])
  next
    case (Inr u)
    with ok r have ok2: "group_ok base n s calls st2" "same_pool st1 st2" "stuck calls st2" "tg_failure st2 = None"
      by (simp_all add: commits_def)
    have pool2: "pool_ok te base n s calls st2"
      using pool ok2 won(2) frame by (auto simp: pool_ok_def same_pool_def length_remove1)
    have "tg_inFlight st \<noteq> []" using won(3) by auto
    then have "length (remove1 i (tg_inFlight st)) < length (tg_inFlight st)"
      using won(3) by (simp add: length_remove1)
    then have less: "unfinished calls st2 < unfinished calls st" "tg_started st2 = tg_started st" "tg_nextToStart st2 = tg_started st2"
      using ok2(2) frame pool by (simp_all add: unfinished_def same_pool_def pool_ok_def)
    have "fills te base n s calls st2 (fillPool te n s calls parallel (drop (tg_nextToStart st2) calls) st2)"
      by (rule fillPool_ok [OF q d pool2]) (simp add: less)
    with r Inr less show ?thesis by (auto simp: fills_def st1_def [symmetric] split: prod.splits sum.splits)
  qed
qed

lemma drain_ok:
  assumes q: "quiet_await te" and d: "distinct calls" and settle: "races_end te"
  shows "pool_ok te base n s calls st \<Longrightarrow> unfinished calls st < fuel \<Longrightarrow>
    \<exists>st' r. drain fuel te n s calls parallel st = Some (st', r) \<and> (case r of
        Inl err \<Rightarrow> log_ok base n s calls (tg_session st')
      | Inr u \<Rightarrow> pool_ok te base n s calls st' \<and> tg_inFlight st' = [] \<and> tg_started st \<le> tg_started st')"
proof (induction fuel arbitrary: st)
  case (Suc fuel)
  show ?case
  proof (cases "tg_inFlight st = []")
    case True
    with Suc.prems show ?thesis by simp
  next
    case False
    with settle obtain i where w: "race_winner te (await te st) = Some i" unfolding races_end_def by blast
    obtain st3 r where r: "then_run (commit_and_check te n s calls (await te st\<lparr>tg_inFlight := remove1 i (tg_inFlight st)\<rparr>))
        (\<lambda>_ st2. fillPool te n s calls parallel (drop (tg_nextToStart st2) calls) st2) = (st3, r)" by fastforce
    note step = drain_round [OF q d Suc.prems(1) w, where parallel = parallel, unfolded r]
    show ?thesis
    proof (cases r)
      case (Inl err)
      with step r w False show ?thesis by (simp add: Let_def)
    next
      case (Inr u)
      with step Suc.prems(2) Suc.IH [of st3] obtain st' r' where "drain fuel te n s calls parallel st3 = Some (st', r')"
        "case r' of Inl err \<Rightarrow> log_ok base n s calls (tg_session st')
          | Inr u \<Rightarrow> pool_ok te base n s calls st' \<and> tg_inFlight st' = [] \<and> tg_started st3 \<le> tg_started st'" by auto
      with Inr step r w False show ?thesis by (cases r') (simp_all add: Let_def)
    qed
  qed
qed simp

text \<open>A drained pool has committed all it started.\<close>

lemma drained_committed:
  assumes "pool_ok te base n s calls st" "tg_inFlight st = []"
  shows "tg_committed st = tg_started st"
proof (rule ccontr)
  assume "tg_committed st \<noteq> tg_started st"
  moreover from assms(1) have "tg_committed st \<le> tg_started st" "tg_started st \<le> length calls"
    using group_started by (auto simp: pool_ok_def group_ok_def)
  ultimately have "tg_committed st < tg_started st" "tg_committed st \<noteq> length calls" by auto
  with assms show False by (auto simp: pool_ok_def accounted_def stuck_def)
qed

section \<open>Groups\<close>

lemma written_done: "written base n s calls k k x \<Longrightarrow> step_at (base @ x) n s {}"
  by (simp add: written_def)

lemma new_group_ok:
  assumes "step_at (ib_log ss) n s {}"
  shows "pool_ok te (ib_log ss) n s calls (new_group te calls ss)"
    and "tg_started (new_group te calls ss) = 0" "tg_inFlight (new_group te calls ss) = []"
proof -
  have "group_log (ib_log ss) n s calls [] (new_group te calls ss)"
    using assms by (simp add: group_log_def written_def new_group_def cites_def Let_def)
  moreover have "group_slots calls (new_group te calls ss)"
    by (simp add: group_slots_def new_group_def Let_def)
  moreover have "stuck calls (new_group te calls ss)" by (cases calls) (simp_all add: stuck_def new_group_def Let_def)
  ultimately show "pool_ok te (ib_log ss) n s calls (new_group te calls ss)"
    by (auto simp: pool_ok_def group_ok_def new_group_def Let_def)
  show "tg_started (new_group te calls ss) = 0" "tg_inFlight (new_group te calls ss) = []"
    by (simp_all add: new_group_def Let_def)
qed

lemma skipped_written:
  assumes w: "written base n s calls k k x" and k: "k < length calls" and d: "distinct calls" and l: "ib_log ss = base @ x"
  shows "\<exists>y. ib_log (appendSkippedToolCall now n s i (calls ! k) ss) = base @ x @ y
    \<and> written base n s calls (Suc k) (Suc k) (x @ y)"
proof -
  define f where "f = \<lparr>ev_seq = length (ib_log ss), ev_time = now, ev_data = ToolCall n s (calls ! k),
    ev_surfaceOp = JUndef, ev_sources = JUndef\<rparr>"
  define e where "e = \<lparr>ev_seq = Suc (length (ib_log ss)), ev_time = now,
    ev_data = ToolResult (result_record n s i (calls ! k) skipped_result), ev_surfaceOp = JStr ''append'',
    ev_sources = JArr [JNum (js_int (int (ev_seq f)))]\<rparr>"
  have "written base n s calls (Suc k) k (x @ [f])" using w k l by (intro written_call) (simp_all add: f_def)
  then have "written base n s calls (Suc k) (Suc k) ((x @ [f]) @ [e])"
    by (rule written_result [where r = "result_record n s i (calls ! k) skipped_result" and f = f])
      (use d l in \<open>simp_all add: e_def f_def result_record_def\<close>)
  moreover have "ib_log (appendSkippedToolCall now n s i (calls ! k) ss) = base @ x @ [f, e]"
    using l by (simp add: appendSkippedToolCall_def appendToolResult_def appendToolCall_def push_record_def e_def f_def)
  ultimately show ?thesis by (metis append.assoc append_Cons append_Nil)
qed

lemma skip_calls_written:
  assumes d: "distinct calls"
  shows "written base n s calls k k x \<Longrightarrow> ib_log (tg_session st) = base @ x \<Longrightarrow> cs = drop k calls \<Longrightarrow>
    \<exists>y. ib_log (tg_session (skip_calls te n s cs st)) = base @ x @ y
      \<and> written base n s calls (length calls) (length calls) (x @ y)"
proof (induction cs arbitrary: k x st)
  case Nil
  then have "k = length calls" by (simp add: written_def)
  with Nil show ?case by (intro exI [of _ "[]"]) simp
next
  case (Cons c cs)
  then have k: "k < length calls" "c = calls ! k" "cs = drop (Suc k) calls"
    by (metis drop_eq_Nil leI list.distinct(1), metis nth_via_drop, metis drop_Suc tl_drop list.sel(3))
  from skipped_written [OF Cons.prems(1) k(1) d Cons.prems(2)] obtain y where
    "ib_log (appendSkippedToolCall (te_now te) n s (te_messageId te st) c (tg_session st)) = base @ x @ y"
    "written base n s calls (Suc k) (Suc k) (x @ y)" unfolding k(2) by blast
  with Cons.IH [of "Suc k" "x @ y" "st\<lparr>tg_session := appendSkippedToolCall (te_now te) n s (te_messageId te st) c
      (tg_session st)\<rparr>"] k(3) obtain z where
    "ib_log (tg_session (skip_calls te n s (c # cs) st)) = base @ (x @ y) @ z"
    "written base n s calls (length calls) (length calls) ((x @ y) @ z)" by auto
  then show ?case by (metis append.assoc)
qed

definition group_done ::
    "session_event list \<Rightarrow> int \<Rightarrow> int \<Rightarrow> string list \<Rightarrow> inbox_session \<times> (string + group_outcome) \<Rightarrow> bool" where
  "group_done base n s calls r = (case r of
     (ss, Inl err) \<Rightarrow> log_ok base n s calls ss
   | (ss, Inr out) \<Rightarrow> 0 < go_consumed out \<and> (\<exists>x. ib_log ss = base @ x
       \<and> written base n s calls (go_consumed out) (go_consumed out) x))"

lemma finish_group_done:
  assumes q: "quiet_await te" and d: "distinct calls" and ne: "calls \<noteq> []"
    and r: "case r of Inl err \<Rightarrow> log_ok base n s calls (tg_session st)
      | Inr u \<Rightarrow> pool_ok te base n s calls st \<and> tg_inFlight st = [] \<and> (tg_aborted st \<or> 0 < tg_started st)"
  shows "group_done base n s calls (finish_group te n s calls (st, r))"
proof (cases r)
  case (Inl err)
  with r q show ?thesis
    by (simp add: group_done_def finish_group_def quiet_await_def log_ok_extends)
next
  case (Inr u)
  with r have pool: "pool_ok te base n s calls st" and fl: "tg_inFlight st = []" by simp_all
  from drained_committed [OF this] have eq: "tg_committed st = tg_started st" .
  with pool obtain x where x: "ib_log (tg_session st) = base @ x" "written base n s calls (tg_started st) (tg_started st) x"
    by (auto simp: pool_ok_def group_ok_def group_log_def)
  show ?thesis
  proof (cases "tg_aborted st")
    case True
    from skip_calls_written [OF d x(2,1) refl] obtain y where
      "ib_log (tg_session (skip_calls te n s (drop (tg_started st) calls) st)) = base @ x @ y"
      "written base n s calls (length calls) (length calls) (x @ y)" by blast
    with True Inr ne show ?thesis by (auto simp: group_done_def finish_group_def)
  next
    case False
    with Inr r eq x show ?thesis by (simp add: group_done_def finish_group_def)
  qed
qed

text \<open>A group that is not aborted starts its first call.\<close>

lemma fillPool_starts:
  assumes q: "quiet_await te" and d: "distinct calls" and ne: "calls \<noteq> []" and limit: "0 < te_limit te"
    and at: "step_at (ib_log ss) n s {}"
    and fill: "fillPool te n s calls parallel calls (new_group te calls ss) = (st, Inr ())"
  shows "tg_aborted st \<or> 0 < tg_started st"
proof (cases "tg_aborted (new_group te calls ss)")
  case True
  with fill ne show ?thesis by (cases calls) auto
next
  case False
  let ?g = "new_group te calls ss" and ?base = "ib_log ss"
  note g = new_group_ok [OF at, of te calls]
  from ne obtain c cs where calls: "calls = c # cs" by (cases calls) auto
  obtain st2 r where r: "then_run (startCall te n s c (tg_nextToStart ?g) ?g)
      (\<lambda>_ st1. commit_and_check te n s calls (st1\<lparr>tg_nextToStart := tg_nextToStart st1 + 1\<rparr>)) = (st2, r)" by fastforce
  have "tg_nextToStart ?g = 0" by (simp add: new_group_def Let_def)
  with False limit g(3) have "fillPool te n s calls parallel (c # cs) ?g
      = then_run (st2, r) (\<lambda>_ st2. fillPool te n s calls parallel cs st2)"
    unfolding r [symmetric] then_run_assoc by simp
  with fill calls have run: "then_run (st2, r) (\<lambda>_ st2. fillPool te n s calls parallel cs st2) = (st, Inr ())" by simp
  then obtain u where u: "r = Inr u" by (cases r) auto
  have "tg_started ?g < length calls" "length (tg_inFlight ?g) < te_limit te" using g ne limit by simp_all
  from fill_round [OF q d g(1) this] have st2: "pool_ok te ?base n s calls st2" "tg_started st2 = Suc 0"
    using r u g(2) calls by simp_all
  have "fills te ?base n s calls st2 (fillPool te n s calls parallel cs st2)"
    by (rule fillPool_ok [OF q d st2(1)]) (simp add: calls st2(2))
  with run u st2(2) show ?thesis by (simp add: fills_def)
qed

lemma runGroup_done:
  assumes q: "quiet_await te" and d: "distinct calls" and ne: "calls \<noteq> []" and settle: "races_end te"
    and limit: "0 < te_limit te" and at: "step_at (ib_log ss) n s {}"
  shows "\<exists>r. runGroup te n s calls parallel ss = Some r \<and> group_done (ib_log ss) n s calls r"
proof -
  let ?g = "new_group te calls ss" and ?base = "ib_log ss"
  note g = new_group_ok [OF at, of te calls]
  obtain st r where fill: "fillPool te n s calls parallel calls ?g = (st, r)" by fastforce
  have fills: "fills te ?base n s calls ?g (st, r)"
    using fillPool_ok [OF q d g(1), of calls parallel] g(2) fill by simp
  show ?thesis
  proof (cases r)
    case (Inl err)
    with fill fills have "runGroup te n s calls parallel ss = Some (finish_group te n s calls (st, Inl err))"
      "log_ok ?base n s calls (tg_session st)" by (simp_all add: runGroup_def fills_def)
    with finish_group_done [OF q d ne, where r = "Inl err"] show ?thesis by simp
  next
    case (Inr u)
    have starts: "tg_aborted st \<or> 0 < tg_started st"
      using fillPool_starts [OF q d ne limit at] fill Inr by simp
    have "unfinished calls st \<le> length calls" "pool_ok te ?base n s calls st"
      using fills Inr g(2,3) by (simp_all add: fills_def unfinished_def)
    with drain_ok [OF q d settle this(2), of "Suc (length calls)" parallel] obtain st' r' where
      drain: "drain (Suc (length calls)) te n s calls parallel st = Some (st', r')" "case r' of
        Inl err \<Rightarrow> log_ok ?base n s calls (tg_session st')
      | Inr u \<Rightarrow> pool_ok te ?base n s calls st' \<and> tg_inFlight st' = [] \<and> tg_started st \<le> tg_started st'" by fastforce
    have "tg_aborted st' \<or> 0 < tg_started st'" if "r' = Inr v" for v
    proof (cases "0 < tg_started st")
      case True
      with drain(2) that show ?thesis by auto
    next
      case False
      with in_flight_started [of ?base n s calls st] \<open>pool_ok te ?base n s calls st\<close> have "tg_inFlight st = []"
        by (cases "tg_inFlight st") (auto simp: pool_ok_def)
      with drain(1) starts False show ?thesis by simp
    qed
    with drain(2) have "group_done ?base n s calls (finish_group te n s calls (st', r'))"
      by (intro finish_group_done [OF q d ne]) (cases r'; simp)
    with drain(1) fill Inr show ?thesis by (simp add: runGroup_def)
  qed
qed

section \<open>The step's calls\<close>

lemma cites_both: "cites n s x \<Longrightarrow> cites n s y \<Longrightarrow> cites n s (x @ y)"
  unfolding cites_def by fastforce

text \<open>What is written for the rest of the calls continues what was written for the first.\<close>

lemma written_continues:
  assumes x: "written base n s calls k k x" and y: "written (base @ x) n s (drop k calls) a b y"
  shows "written base n s calls (k + a) (k + b) (x @ y)"
proof -
  from x y have "k \<le> length calls" "a \<le> length calls - k" "b \<le> a" by (simp_all add: written_def)
  then have k: "k + a \<le> length calls" "b \<le> a" by simp_all
  have "drop (k + b) (take (k + a) calls) = drop b (take a (drop k calls))"
    by (simp add: drop_take add.commute)
  with x y k show ?thesis by (simp add: written_def take_add cites_both)
qed

lemma written_take: "written base n s (take m calls) a b x \<Longrightarrow> written base n s calls a b x"
  by (simp add: written_def min_def split: if_splits)

lemma log_ok_continues:
  assumes "written base n s calls k k x" "log_ok (base @ x) n s (drop k calls) ss"
  shows "log_ok base n s calls ss"
proof -
  from assms(2) obtain y a b where "ib_log ss = base @ x @ y" "written (base @ x) n s (drop k calls) a b y"
    by (auto simp: log_ok_def)
  with written_continues [OF assms(1) this(2)] show ?thesis unfolding log_ok_def by blast
qed

lemma log_ok_take: "log_ok base n s (take m calls) ss \<Longrightarrow> log_ok base n s calls ss"
  unfolding log_ok_def using written_take by blast

lemma group_continues:
  assumes x: "written base n s calls k k x" and "group_done (base @ x) n s (drop k calls) (ss, r)"
  shows "case r of Inl err \<Rightarrow> log_ok base n s calls ss
    | Inr out \<Rightarrow> 0 < go_consumed out \<and> (\<exists>y. ib_log ss = base @ y \<and> written base n s calls (k + go_consumed out) (k + go_consumed out) y)"
proof (cases r)
  case (Inl err)
  with assms(2) show ?thesis by (simp add: group_done_def log_ok_continues [OF x])
next
  case (Inr out)
  with assms(2) obtain y where "0 < go_consumed out" "ib_log ss = base @ x @ y"
    "written (base @ x) n s (drop k calls) (go_consumed out) (go_consumed out) y" by (auto simp: group_done_def)
  with written_continues [OF x this(3)] Inr show ?thesis by auto
qed

lemma group_done_take:
  assumes "group_done base n s (take m calls) (ss, r)"
  shows "group_done base n s calls (ss, r)"
proof (cases r)
  case (Inl err)
  with assms have "log_ok base n s calls ss" by (simp add: group_done_def log_ok_take [of base n s m])
  with Inl show ?thesis by (simp add: group_done_def)
next
  case (Inr out)
  with assms obtain x where "0 < go_consumed out" "ib_log ss = base @ x"
    "written base n s (take m calls) (go_consumed out) (go_consumed out) x" by (auto simp: group_done_def)
  with written_take [OF this(3)] Inr show ?thesis by (simp add: group_done_def)
qed

definition calls_done ::
    "session_event list \<Rightarrow> int \<Rightarrow> int \<Rightarrow> string list \<Rightarrow> inbox_session \<times> (string + bool) \<Rightarrow> bool" where
  "calls_done base n s calls r = (case r of
     (ss, Inl err) \<Rightarrow> log_ok base n s calls ss
   | (ss, Inr concluded) \<Rightarrow> \<exists>x. ib_log ss = base @ x \<and> written base n s calls (length calls) (length calls) x)"

lemma execute_from_done:
  assumes q: "quiet_await te" and d: "distinct calls" and settle: "races_end te" and limit: "0 < te_limit te"
  shows "written base n s calls k k x \<Longrightarrow> ib_log ss = base @ x \<Longrightarrow> length calls - k \<le> fuel \<Longrightarrow>
    \<exists>r. execute_from fuel te n s concluded (drop k calls) ss = Some r \<and> calls_done base n s calls r"
proof (induction fuel arbitrary: k x ss concluded)
  case 0
  then have "k = length calls" by (simp add: written_def)
  with 0 show ?case by (auto simp: calls_done_def)
next
  case (Suc fuel)
  show ?case
  proof (cases "drop k calls")
    case Nil
    with Suc.prems(1) have "k = length calls" by (simp add: written_def)
    with Suc.prems Nil show ?thesis by (auto simp: calls_done_def)
  next
    case (Cons c cs)
    let ?p = "te_parallel te (new_group te [] ss) c"
    let ?g = "if ?p then c # cs else [c]"
    have g: "?g = take (if ?p then length (c # cs) else 1) (drop k calls)" by (simp add: Cons)
    have "distinct (drop k calls)" using d by simp
    then have "distinct ?g" "?g \<noteq> []" by (simp_all add: Cons)
    moreover have at: "step_at (ib_log ss) n s {}" using written_done Suc.prems(1,2) by simp
    ultimately obtain ss1 r where run: "runGroup te n s ?g ?p ss = Some (ss1, r)" "group_done (ib_log ss) n s ?g (ss1, r)"
      using runGroup_done [OF q _ _ settle limit, of ?g ss n s ?p] by fastforce
    note fin = group_continues [OF Suc.prems(1) group_done_take, OF run(2) [unfolded g Suc.prems(2)]]
    show ?thesis
    proof (cases r)
      case (Inl err)
      with fin run(1) show ?thesis by (simp add: Cons calls_done_def Let_def)
    next
      case (Inr out)
      with fin obtain y where y: "0 < go_consumed out" "ib_log ss1 = base @ y"
        "written base n s calls (k + go_consumed out) (k + go_consumed out) y" by auto
      have rest: "drop (go_consumed out) (c # cs) = drop (k + go_consumed out) calls"
        by (simp add: Cons [symmetric] add.commute)
      show ?thesis
      proof (cases "go_aborted out")
        case True
        have "ib_log (tg_session (new_group te [] ss1)) = base @ y" using y(2) by (simp add: new_group_def Let_def)
        from skip_calls_written [OF d y(3) this refl, of te] obtain z where
          "ib_log (tg_session (skip_calls te n s (drop (k + go_consumed out) calls) (new_group te [] ss1))) = base @ y @ z"
          "written base n s calls (length calls) (length calls) (y @ z)" by blast
        with True Inr run(1) rest show ?thesis by (auto simp: Cons calls_done_def Let_def simp del: drop_Suc_Cons)
      next
        case False
        from y Suc.prems(3) have "length calls - (k + go_consumed out) \<le> fuel" by simp
        from Suc.IH [OF y(3,2) this, of "concluded \<or> go_concluded out"] False Inr run(1) rest
        show ?thesis by (simp add: Cons Let_def)
      qed
    qed
  qed
qed

lemma executeToolCalls_done:
  assumes "quiet_await te" "races_end te" "0 < te_limit te" "distinct calls" "step_at (ib_log ss) n s {}"
  shows "\<exists>r. executeToolCalls te n s calls ss = Some r \<and> calls_done (ib_log ss) n s calls r"
proof -
  have "written (ib_log ss) n s calls 0 0 []" using assms(5) by (simp add: written_def cites_def)
  from execute_from_done [OF assms(1,4,2,3) this, of ss "length calls" False] show ?thesis
    by (simp add: executeToolCalls_def)
qed

text \<open>C5: Whatever the schedule, one step's tool calls are recorded in model order and every event is
  accepted by the relational invariant of the log. If the scheduler returns, each call has exactly one
  result, in the same order and citing its call, and the step awaits no result. If it throws, the calls
  recorded are a prefix of the model's, and their results a prefix of these. It always ends, given that
  every wait on a dispatch ends, that the pool has room for one call, and that what others append
  meanwhile leaves turns, steps and calls alone.\<close>

theorem tool_calls_ordered:
  assumes "quiet_await te" "races_end te" "0 < te_limit te" "distinct calls" "step_at (ib_log ss) n s {}"
  shows "\<exists>ss' r extra. executeToolCalls te n s calls ss = Some (ss', r) \<and> ib_log ss' = ib_log ss @ extra
    \<and> cites n s extra \<and> (case r of
        Inr concluded \<Rightarrow> calls_of extra = calls \<and> results_of extra = calls \<and> step_at (ib_log ss') n s {}
      | Inl err \<Rightarrow> \<exists>a b. b \<le> a \<and> calls_of extra = take a calls \<and> results_of extra = take b calls
          \<and> step_at (ib_log ss') n s (set (drop b (take a calls))))"
proof -
  from executeToolCalls_done [OF assms]
  obtain ss' r where run: "executeToolCalls te n s calls ss = Some (ss', r)" "calls_done (ib_log ss) n s calls (ss', r)" by auto
  show ?thesis
  proof (cases r)
    case (Inl err)
    with run(2) obtain extra a b where "ib_log ss' = ib_log ss @ extra" "written (ib_log ss) n s calls a b extra"
      by (auto simp: calls_done_def log_ok_def)
    with run(1) Inl show ?thesis by (intro exI [of _ ss'] exI [of _ r] exI [of _ extra]) (auto simp: written_def)
  next
    case (Inr concluded)
    with run(2) obtain extra where "ib_log ss' = ib_log ss @ extra"
      "written (ib_log ss) n s calls (length calls) (length calls) extra" by (auto simp: calls_done_def)
    with run(1) Inr show ?thesis by (intro exI [of _ ss'] exI [of _ r] exI [of _ extra]) (auto simp: written_def)
  qed
qed

text \<open>A runtime whose dispatches settle last-first while the scheduler waits for a race.\<close>

definition sample_runtime :: tool_env where
  "sample_runtime = \<lparr>te_now = 0, te_inbox = \<lparr>env_now = 0, env_admits = \<lambda>_ _. True\<rparr>, te_limit = 2,
     te_parallel = \<lambda>_ c. c \<noteq> ''write'', te_prepare = \<lambda>_ c. Inr (if c = ''deny'' then Prepared skipped_result False else Dispatched),
     te_finish = \<lambda>st sl. Inr ((fst sl)\<lparr>xr_contexts := [\<lparr>um_id = replicate (length (ib_log (tg_session st))) CHR ''m'',
       um_source = SrcUser, um_content = JArr []\<rparr>]\<rparr>),
     te_messageId = \<lambda>st. ''r'', te_aborted = \<lambda>_. False,
     te_await = tg_session, te_settles = \<lambda>st. map (\<lambda>i. (i, Inr (skipped_result, True))) (rev (tg_inFlight st)),
     te_race = \<lambda>st. length (tg_inFlight st) - 1\<rparr>"

lemma settle_all: "set xs \<subseteq> set (tg_inFlight st) \<Longrightarrow>
    set (tg_settled (foldl settle_one st (map (\<lambda>i. (i, Inr (f i))) xs))) = set (tg_settled st) \<union> set xs"
  by (induction xs arbitrary: st) (auto simp: settle_one_def)

lemma sample_settles: "races_end sample_runtime"
  unfolding races_end_def
proof (intro allI impI)
  fix st :: tool_group assume ne: "tg_inFlight st \<noteq> []"
  then obtain i where i: "i \<in> set (tg_inFlight st)" by (meson list.set_sel(1))
  then have "i \<in> set (tg_settled (await sample_runtime st))"
    by (simp add: await_def sample_runtime_def settle_all)
  with i show "race_winner sample_runtime (await sample_runtime st) \<noteq> None"
    by (auto simp: race_winner_def filter_empty_conv split: list.splits)
qed

lemma sample_quiet: "quiet_await sample_runtime"
  by (simp add: quiet_await_def sample_runtime_def)

definition sample_step :: inbox_session where
  "sample_step = \<lparr>ib_log = [log_event 0 0 (TurnStart 1), log_event 1 0 (StepStart 1 1)], ib_signals = []\<rparr>"

lemma sample_step_at: "step_at (ib_log sample_step) 1 1 {}"
proof -
  have "turn_at ([] @ [log_event 0 0 (TurnStart 1)]) (0 + 1) 0"
    by (rule turn_start_position) (auto simp: idle_at_def trace_at_def seedSession_def freshTrace_def)
  from step_start_position [OF this, of "log_event 1 0 (StepStart 1 1)"] show ?thesis by (simp add: sample_step_def)
qed

theorem tool_calls_ordered_witness:
  "\<exists>ss' extra. executeToolCalls sample_runtime 1 1 [''a'', ''b'', ''write'', ''deny'', ''c''] sample_step = Some (ss', Inr False)
     \<and> calls_of extra = [''a'', ''b'', ''write'', ''deny'', ''c''] \<and> results_of extra = [''a'', ''b'', ''write'', ''deny'', ''c'']
     \<and> ib_log ss' = ib_log sample_step @ extra \<and> step_at (ib_log ss') 1 1 {}"
proof -
  let ?calls = "[''a'', ''b'', ''write'', ''deny'', ''c'']"
  have "distinct ?calls" "0 < te_limit sample_runtime" by (simp_all add: sample_runtime_def)
  from tool_calls_ordered [OF sample_quiet sample_settles this(2,1) sample_step_at]
  obtain ss' r extra where ran: "executeToolCalls sample_runtime 1 1 ?calls sample_step = Some (ss', r)"
      "ib_log ss' = ib_log sample_step @ extra"
    and res: "case r of Inr concluded \<Rightarrow> calls_of extra = ?calls \<and> results_of extra = ?calls \<and> step_at (ib_log ss') 1 1 {}
      | Inl err \<Rightarrow> \<exists>a b. b \<le> a \<and> calls_of extra = take a ?calls \<and> results_of extra = take b ?calls
          \<and> step_at (ib_log ss') 1 1 (set (drop b (take a ?calls)))" by blast
  have "map_option snd (executeToolCalls sample_runtime 1 1 ?calls sample_step) = Some (Inr False)" by code_simp
  with ran(1) have "r = Inr False" by simp
  with ran res show ?thesis by auto
qed

end
