(* ===== verification/Driver_Turns.thy ===== *)
theory Driver_Turns
  imports Agent_Driver Tool_Order Repair
begin

text \<open>
  What the driver of \<open>Agent_Driver\<close> leaves in the log: turns and steps that open and close in order, whatever
  interleaves, fails or is cancelled.
\<close>

section \<open>Environments\<close>

definition neutral_data :: "event_data \<Rightarrow> bool" where
  "neutral_data d = neutral (log_event 0 0 d)"

text \<open>Others leave turns, steps and calls alone, the session takes what it is given, waits on dispatches
  end, and the model numbers its calls apart.\<close>

definition sound_attempt :: "llm_attempt \<Rightarrow> bool" where
  "sound_attempt la \<longleftrightarrow> distinct (tool_calls (la_blocks la))
     \<and> (\<forall>es. \<exists>x. fst (rv_next (la_recovery la) es) = es @ x \<and> neutral_tail (length es) x)"

definition sound_tools :: "tool_env \<Rightarrow> bool" where
  "sound_tools te \<longleftrightarrow> quiet_await te \<and> races_end te \<and> 0 < te_limit te"

definition sound_env :: "agent_env \<Rightarrow> bool" where
  "sound_env env \<longleftrightarrow> (\<forall>es d. ae_admits env es d)
     \<and> (\<forall>k d. ForeignAppend d \<in> set (ae_commands env k) \<longrightarrow> neutral_data d)
     \<and> (\<forall>k. sound_attempt (ae_attempt env k)) \<and> (\<forall>k. sound_tools (ae_tools env k))"

section \<open>Where the driver stands\<close>

fun place :: "agent_phase \<Rightarrow> (int \<times> int) option" where
  "place (Running n s w c) = Some (n, s)"
| "place p = None"

lemma running_place: "running p \<longleftrightarrow> place p \<noteq> None"
  by (cases p) simp_all

lemma place_sel [simp]: "place p = Some (n, s) \<Longrightarrow> last_turn p = n" "place p = Some (n, s) \<Longrightarrow> phase_step p = s"
  by (cases p; simp)+

text \<open>Only neutral events were appended, and the activity is the same.\<close>

definition calm :: "agent \<Rightarrow> agent \<Rightarrow> bool" where
  "calm a b \<longleftrightarrow> extends (ag_session a) (ag_session b) \<and> place (ag_phase b) = place (ag_phase a)"

lemma calm_refl [simp]: "calm a a"
  by (simp add: calm_def)

lemma calm_trans: "calm a b \<Longrightarrow> calm b c \<Longrightarrow> calm a c"
  unfolding calm_def using extends_trans by fastforce

text \<open>Between turns, in a turn between steps, and in a step.\<close>

definition between :: "int \<Rightarrow> agent \<Rightarrow> bool" where
  "between n a \<longleftrightarrow> idle_at (ib_log (ag_session a)) n \<and> (\<exists>s. place (ag_phase a) = Some (n, s))"

definition in_turn :: "int \<Rightarrow> int \<Rightarrow> agent \<Rightarrow> bool" where
  "in_turn n s a \<longleftrightarrow> turn_at (ib_log (ag_session a)) n s \<and> place (ag_phase a) = Some (n, s)"

definition in_step :: "int \<Rightarrow> int \<Rightarrow> string set \<Rightarrow> agent \<Rightarrow> bool" where
  "in_step n s P a \<longleftrightarrow> step_at (ib_log (ag_session a)) n s P \<and> place (ag_phase a) = Some (n, s)"

lemma extends_positions:
  assumes "extends s s'"
  shows "idle_at (ib_log s) n \<Longrightarrow> idle_at (ib_log s') n"
    and "turn_at (ib_log s) n k \<Longrightarrow> turn_at (ib_log s') n k"
    and "step_at (ib_log s) n k P \<Longrightarrow> step_at (ib_log s') n k P"
  using assms neutral_positions unfolding extends_def by metis+

lemma calm_keeps:
  assumes "calm a b"
  shows "between n a \<Longrightarrow> between n b" "in_turn n s a \<Longrightarrow> in_turn n s b" "in_step n s P a \<Longrightarrow> in_step n s P b"
  using assms extends_positions unfolding calm_def between_def in_turn_def in_step_def by metis+

section \<open>What others do meanwhile\<close>

lemma mutate_result_extends: "mutate env t x d ins dis s = (s', r) \<Longrightarrow> extends s s'"
  using mutate_extends [of s env t x d ins dis] by simp

lemma splice_extends: "extends s (fst (splice env t x d ins s))"
  by (simp add: splice_def mutate_extends)

lemma then_run_extends:
  assumes "extends s (fst r)" "\<And>x s'. r = (s', Inr x) \<Longrightarrow> extends s' (fst (f x s'))"
  shows "extends s (fst (then_run r f))"
proof (cases r)
  case (Pair s' v)
  with assms show ?thesis by (cases v) (auto intro: extends_trans)
qed

lemma read_length_extends [simp]: "fst (read_length t s) = s"
  by (simp add: read_length_def split: sum.split)

lemma clear_extends: "extends s (fst (clear_inbox env s))"
  unfolding clear_inbox_def by (intro then_run_extends) (simp_all add: splice_extends)

lemma claim_extends: "extends s (fst (claim env t n s))"
proof -
  have "extends s' (s'\<lparr>ib_signals := sg\<rparr>)" for s' :: inbox_session and sg
    by (simp add: extends_def exI [of _ "[]"])
  then show ?thesis unfolding claim_def by (intro then_run_extends) (auto simp: mutate_extends)
qed

lemma on_inbox_calm: "(\<And>s. extends s (fst (f s))) \<Longrightarrow> calm a (fst (on_inbox f a))"
  unfolding on_inbox_def calm_def by (auto split: prod.split sum.split) (metis fst_conv)+

lemma setPhase_frame [simp]: "ag_session (setPhase p a) = ag_session a" "ag_phase (setPhase p a) = p"
  by (simp_all add: setPhase_def Let_def)

lemma then_run_calm:
  assumes "calm a (fst r)" "\<And>x b. r = (b, Inr x) \<Longrightarrow> calm a b \<Longrightarrow> calm b (fst (f x b))"
  shows "calm a (fst (then_run r f))"
proof (cases r)
  case (Pair b v)
  with assms show ?thesis by (cases v) (auto intro: calm_trans)
qed

lemma wake_calm: "running (ag_phase a) \<Longrightarrow> calm a (wakeDriver w a)"
  by (cases "ag_phase a") (simp_all add: wakeDriver_def calm_def)

lemma calm_running: "calm a b \<Longrightarrow> running (ag_phase a) \<Longrightarrow> running (ag_phase b)"
  by (simp add: calm_def running_place)

lemma send_calm: "running (ag_phase a) \<Longrightarrow> calm a (fst (send env m t w a))"
  unfolding send_def Let_def
  by (intro then_run_calm on_inbox_calm) (auto simp: splice_extends intro: wake_calm calm_running)

lemma place_unlatch [simp]: "place (unlatch p) = place p" "place (abort_phase c p) = place p"
  by (cases p; simp)+

lemma phase_calm: "place p = place (ag_phase a) \<Longrightarrow> calm a (a\<lparr>ag_phase := p\<rparr>)"
  by (simp add: calm_def)

lemma cancel_calm: "calm a (fst (cancel env c k a))"
proof -
  have "calm a (fst (then_run (on_inbox (clear_inbox (ae_inbox env)) a)
      (\<lambda>_ a1. (a1\<lparr>ag_phase := unlatch (ag_phase a1)\<rparr>, Inr ()))))"
    by (intro then_run_calm on_inbox_calm clear_extends) (simp add: phase_calm)
  then show ?thesis unfolding cancel_def by (intro then_run_calm) (simp_all add: phase_calm)
qed

lemma append_data_calm:
  assumes "neutral_data d"
  shows "calm a (fst (append_data env d op a))"
proof -
  have "neutral \<lparr>ev_seq = k, ev_time = t, ev_data = d, ev_surfaceOp = op, ev_sources = src\<rparr>" for k t src
    using assms by (simp add: neutral_data_def neutral_def)
  then show ?thesis
    by (auto simp: append_data_def calm_def extends_def push_record_def neutral_tail_def contiguous_def)
qed

lemma deliver_calm:
  assumes "running (ag_phase a)" "\<And>d. c = ForeignAppend d \<Longrightarrow> neutral_data d"
  shows "calm a (deliver env a c)"
  using assms send_calm cancel_calm append_data_calm
  by (cases c; cases "ag_phase a") (simp_all add: deliver_def begin_maintenance_def end_maintenance_def)

lemma deliver_all_calm:
  "running (ag_phase a) \<Longrightarrow> (\<And>d. ForeignAppend d \<in> set cs \<Longrightarrow> neutral_data d) \<Longrightarrow> calm a (foldl (deliver env) a cs)"
proof (induction cs arbitrary: a)
  case (Cons c cs)
  from Cons.prems have one: "calm a (deliver env a c)" by (intro deliver_calm) simp_all
  with Cons.prems Cons.IH [of "deliver env a c"] calm_running [OF one] show ?case by (auto intro: calm_trans)
qed simp

lemma pause_calm:
  assumes "sound_env env" "running (ag_phase a)"
  shows "calm a (pause env a)"
proof -
  have "calm a (a\<lparr>ag_tick := ag_tick a + 1\<rparr>)" by (simp add: calm_def)
  moreover have "calm (a\<lparr>ag_tick := ag_tick a + 1\<rparr>) (pause env a)"
    unfolding pause_def using assms by (intro deliver_all_calm) (auto simp: sound_env_def)
  ultimately show ?thesis by (rule calm_trans)
qed

section \<open>Inside a step\<close>

named_theorems step_keeps \<open>operations that stay in the step\<close>

lemma then_run_leaves: "Q (fst r) \<Longrightarrow> (\<And>x a. Q a \<Longrightarrow> Q (fst (f x a))) \<Longrightarrow> Q (fst (then_run r f))"
  by (cases r; cases "snd r") auto

lemma in_step_run [step_keeps]:
  "in_step n s P (fst r) \<Longrightarrow> (\<And>x a. in_step n s P a \<Longrightarrow> in_step n s P (fst (f x a))) \<Longrightarrow> in_step n s P (fst (then_run r f))"
  by (rule then_run_leaves)

lemma in_step_running: "in_step n s P a \<Longrightarrow> running (ag_phase a)"
  by (simp add: in_step_def running_place)

lemma in_step_cong: "ag_session b = ag_session a \<Longrightarrow> place (ag_phase b) = place (ag_phase a) \<Longrightarrow> in_step n s P b = in_step n s P a"
  by (simp add: in_step_def)

lemma pause_in_step [step_keeps]: "sound_env env \<Longrightarrow> in_step n s P a \<Longrightarrow> in_step n s P (pause env a)"
  by (rule calm_keeps(3) [OF pause_calm]) (simp_all add: in_step_running)

lemma throwIfAborted_fst [simp]: "fst (throwIfAborted a) = a"
  by (simp add: throwIfAborted_def)

lemma append_in_step [step_keeps]:
  assumes "step_neutral n s d" "in_step n s P a"
  shows "in_step n s P (fst (append_data env d op a))"
  using assms by (auto simp: append_data_def in_step_def push_record_def intro!: step_neutral_position)

lemma step_neutral_simps [simp]:
  "step_neutral n s (RequestHeader p)" "step_neutral n s RequestContext"
  "step_neutral n s (AssistantMessage n s bs)" "step_neutral n s (AssistantAttempt n s)"
  by (simp_all add: step_neutral_def)

lemma frame_sel [simp]:
  "ag_session (emit_frame f a) = ag_session a" "ag_phase (emit_frame f a) = ag_phase a"
  "ag_session (live_start n s a) = ag_session a" "ag_phase (live_start n s a) = ag_phase a"
  "ag_session (live_push a) = ag_session a" "ag_phase (live_push a) = ag_phase a"
  "ag_session (live_end x a) = ag_session a" "ag_phase (live_end x a) = ag_phase a"
  "ag_session (live_abandon a) = ag_session a" "ag_phase (live_abandon a) = ag_phase a"
  "ag_session (new_attempt a) = ag_session a" "ag_phase (new_attempt a) = ag_phase a"
  by (simp_all add: emit_frame_def live_start_def live_push_def live_end_def live_abandon_def new_attempt_def)

lemma frame_in_step [simp]:
  "in_step n s P (live_start k l a) = in_step n s P a" "in_step n s P (live_push a) = in_step n s P a"
  "in_step n s P (live_end x a) = in_step n s P a" "in_step n s P (live_abandon a) = in_step n s P a"
  "in_step n s P (new_attempt a) = in_step n s P a"
  by (simp_all add: in_step_def)

lemma settle_in_step [step_keeps]:
  assumes "step_neutral n s d" "in_step n s P a"
  shows "in_step n s P (fst (live_settle env t d op a))"
proof -
  obtain a1 r where r: "append_data env d op a = (a1, r)" by fastforce
  with append_in_step [OF assms, of env op] have "in_step n s P a1" by simp
  with r show ?thesis by (cases r) (simp_all add: live_settle_def)
qed

lemma in_step_frame [simp]:
  "in_step n s P (a\<lparr>ag_headerLogged := b\<rparr>) = in_step n s P a" "in_step n s P (a\<lparr>ag_generation := g\<rparr>) = in_step n s P a"
  by (simp_all add: in_step_def)

lemma log_header_in_step [step_keeps]: "in_step n s P a \<Longrightarrow> in_step n s P (fst (log_header env la st g a))"
  unfolding log_header_def Let_def by (auto intro!: in_step_run append_in_step)

lemma buildRequest_in_step [step_keeps]:
  assumes "sound_env env" "in_step n s P a"
  shows "in_step n s P (fst (buildRequest env la st a))"
  using assms unfolding buildRequest_def Let_def
  by (cases "la_refuse la") (auto intro!: in_step_run pause_in_step append_in_step log_header_in_step)

lemma stream_chunks_in_step [step_keeps]:
  "sound_env env \<Longrightarrow> in_step n s P a \<Longrightarrow> in_step n s P (fst (stream_chunks env broken k a))"
proof (induction k arbitrary: a)
  case 0
  then show ?case by (simp add: Let_def pause_in_step split: option.split)
next
  case (Suc k)
  then show ?case by (auto intro!: in_step_run pause_in_step)
qed

lemma settle_broken_in_step [step_keeps]: "in_step n s P a \<Longrightarrow> in_step n s P (fst (settle_broken env n s la err a))"
  unfolding settle_broken_def
  using settle_in_step [of n s "AssistantMessage n s (la_interrupted la)" P a env] settle_in_step [of n s "AssistantAttempt n s" P a env]
  by (auto split: prod.split sum.split) (metis fst_conv)+

lemma stream_attempt_in_step [step_keeps]:
  assumes "sound_env env" "in_step n s P a"
  shows "in_step n s P (fst (stream_attempt env n s la a))"
proof (cases "la_open la")
  case None
  have "in_step n s P (fst (case stream_chunks env (la_broken la) (la_chunks la) (live_start n s b) of
         (a2, Inl err) \<Rightarrow> settle_broken env n s la err a2 | (a2, Inr u) \<Rightarrow> (a2, Inr ())))" if "in_step n s P b" for b
  proof -
    have "in_step n s P (fst (stream_chunks env (la_broken la) (la_chunks la) (live_start n s b)))"
      using assms(1) that by (simp add: stream_chunks_in_step)
    then show ?thesis by (auto split: prod.split sum.split intro: settle_broken_in_step)
  qed
  with None assms show ?thesis unfolding stream_attempt_def by (auto intro!: in_step_run)
qed (use assms in \<open>simp add: stream_attempt_def\<close>)

lemma recover_in_step [step_keeps]:
  assumes env: "sound_env env" and la: "sound_attempt la" and at: "in_step n s P a"
  shows "in_step n s P (fst (recover_attempt env n s la failure a))"
proof -
  let ?rq = "\<lparr>rq_turn = n, rq_step = s, rq_provider = route la, rq_failure = failure, rq_policy = None\<rparr>"
  obtain es r where r: "on_request_error (la_recovery la) ?rq (ib_log (ag_session a)) = (es, r)" by fastforce
  then have "extends (ag_session a) ((ag_session a)\<lparr>ib_log := es\<rparr>)"
    using la by (auto simp: extends_def on_request_error_def recover_def sound_attempt_def
        split: if_splits) (metis fst_conv neutral_tail_Nil append_Nil2)+
  then have "calm a (a\<lparr>ag_session := (ag_session a)\<lparr>ib_log := es\<rparr>\<rparr>)" by (simp add: calm_def)
  from calm_keeps(3) [OF this at] env have "in_step n s P (pause env (a\<lparr>ag_session := (ag_session a)\<lparr>ib_log := es\<rparr>\<rparr>))"
    by (rule pause_in_step [rotated])
  with r show ?thesis unfolding recover_attempt_def Let_def by (auto split: sum.split intro!: in_step_run)
qed

text \<open>After an attempt: calls may await their results once the tools have run.\<close>

definition attempt_left :: "int \<Rightarrow> int \<Rightarrow> agent \<times> (string + attempt_outcome) \<Rightarrow> bool" where
  "attempt_left n s r \<longleftrightarrow> (\<exists>P. in_step n s P (fst r)) \<and> (snd r = Inr RetryAttempt \<longrightarrow> in_step n s {} (fst r))"

lemma calls_leave_step:
  assumes "sound_tools te" "distinct calls" "step_at (ib_log ss) n s {}"
  shows "\<exists>ss' r P. executeToolCalls te n s calls ss = Some (ss', r) \<and> step_at (ib_log ss') n s P"
proof -
  from assms(1) have te: "quiet_await te" "races_end te" "0 < te_limit te" by (simp_all add: sound_tools_def)
  from executeToolCalls_done [OF te assms(2,3)]
  obtain ss' r where "executeToolCalls te n s calls ss = Some (ss', r)" "calls_done (ib_log ss) n s calls (ss', r)" by auto
  then show ?thesis by (cases r) (auto simp: calls_done_def log_ok_def written_def)
qed

lemma run_calls_left:
  assumes "sound_env env" "distinct calls" "in_step n s {} a"
  shows "\<exists>r. run_calls env n s calls a = Some r \<and> attempt_left n s r"
proof -
  have te: "sound_tools (ae_tools env (ag_tick a))" using assms(1) by (simp add: sound_env_def)
  from calls_leave_step [OF te assms(2)] assms(3)
  obtain ss r P where run: "executeToolCalls (ae_tools env (ag_tick a)) n s calls (ag_session a) = Some (ss, r)"
    "step_at (ib_log ss) n s P" unfolding in_step_def by blast
  then have "in_step n s P (a\<lparr>ag_session := ss\<rparr>)" using assms(3) by (simp add: in_step_def)
  then have "in_step n s P (pause env (a\<lparr>ag_session := ss\<rparr>))" by (rule pause_in_step [OF assms(1)])
  with run(1) show ?thesis by (auto simp: run_calls_def attempt_left_def Let_def split: sum.split)
qed

lemma conclude_left:
  assumes env: "sound_env env" and la: "sound_attempt la" and at: "in_step n s {} a"
  shows "\<exists>r. conclude_attempt env n s la a = Some r \<and> attempt_left n s r"
proof (cases "la_finish la")
  case (FailedWith failure)
  have "in_step n s {} (fst (then_run (live_settle env ''assistant/attempt'' (AssistantAttempt n s) JUndef a)
      (\<lambda>_. recover_attempt env n s la failure)))"
    using env la at by (intro in_step_run settle_in_step recover_in_step) simp_all
  with FailedWith show ?thesis unfolding conclude_attempt_def attempt_left_def by auto
next
  case Stopped
  obtain a1 r where r: "live_settle env ''assistant/message'' (AssistantMessage n s (la_blocks la)) (JStr ''append'') a = (a1, r)"
    by fastforce
  with settle_in_step [OF _ at, of "AssistantMessage n s (la_blocks la)" env] have "in_step n s {} a1" by (metis fst_conv step_neutral_simps(3))
  with r Stopped run_calls_left [OF env _ this, of "tool_calls (la_blocks la)"] la show ?thesis
    by (cases r) (auto simp: conclude_attempt_def bind_run_def attempt_left_def sound_attempt_def)
next
  case HitMaxTokens
  obtain a1 r where r: "live_settle env ''assistant/message'' (AssistantMessage n s (la_blocks la)) (JStr ''append'') a = (a1, r)"
    by fastforce
  with settle_in_step [OF _ at, of "AssistantMessage n s (la_blocks la)" env] have "in_step n s {} a1" by (metis fst_conv step_neutral_simps(3))
  with r HitMaxTokens show ?thesis by (cases r) (auto simp: conclude_attempt_def bind_run_def attempt_left_def)
qed

lemma finish_left:
  assumes "sound_env env" "sound_attempt la" "in_step n s {} a"
  shows "\<exists>r. finish_attempt env n s la a = Some r \<and> attempt_left n s r"
proof -
  from conclude_left [OF assms] obtain a1 r where "conclude_attempt env n s la a = Some (a1, r)" "attempt_left n s (a1, r)" by auto
  then show ?thesis by (auto simp: finish_attempt_def attempt_left_def split: sum.split)
qed

text \<open>One attempt, up to its outcome.\<close>

definition one_attempt :: "agent_env \<Rightarrow> int \<Rightarrow> int \<Rightarrow> bool \<Rightarrow> agent \<Rightarrow> (agent \<times> (string + attempt_outcome)) option" where
  "one_attempt env turn step startsRequestSeries a =
     (let la = ae_attempt env (ag_tick a) in
      bind_run (Some (awaiting env (buildRequest env la startsRequestSeries a))) (\<lambda>_ a1.
      bind_run (Some (stream_attempt env turn step la (new_attempt a1))) (\<lambda>_. finish_attempt env turn step la)))"

lemma bind_run_assoc: "bind_run (bind_run r f) g = bind_run r (\<lambda>x s. bind_run (f x s) g)"
  by (simp add: bind_run_def split: option.split prod.split sum.split)

lemma bind_run_simps [simp]:
  "bind_run None f = None" "bind_run (Some (s, Inl err)) f = Some (s, Inl err)" "bind_run (Some (s, Inr x)) f = f x s"
  by (simp_all add: bind_run_def)

lemma step_loop_unfold:
  "step_loop (Suc fuel) env turn step starts a = bind_run (one_attempt env turn step starts a) (\<lambda>outcome a3. case outcome of
     RetryAttempt \<Rightarrow> step_loop fuel env turn step False a3 | StepEnded reason \<Rightarrow> Some (a3, Inr reason))"
  by (simp add: one_attempt_def Let_def bind_run_assoc)

lemma one_attempt_left:
  assumes env: "sound_env env" and at: "in_step n s {} a"
  shows "\<exists>r. one_attempt env n s starts a = Some r \<and> attempt_left n s r"
proof -
  let ?la = "ae_attempt env (ag_tick a)"
  have la: "sound_attempt ?la" using env by (simp add: sound_env_def)
  obtain a1 r1 where b: "awaiting env (buildRequest env ?la starts a) = (a1, r1)" by fastforce
  then have "a1 = pause env (fst (buildRequest env ?la starts a))" by (simp add: awaiting_def)
  then have at1: "in_step n s {} a1" by (simp add: pause_in_step [OF env] buildRequest_in_step [OF env at])
  obtain a2 r2 where st: "stream_attempt env n s ?la (new_attempt a1) = (a2, r2)" by fastforce
  with stream_attempt_in_step [OF env, of n s "{}" "new_attempt a1" ?la] at1 have at2: "in_step n s {} a2" by simp
  from finish_left [OF env la at2] b st at1 at2 show ?thesis
    by (cases r1; cases r2) (simp_all add: one_attempt_def Let_def attempt_left_def exI [of _ "{}"])
qed

lemma step_loop_leaves:
  assumes env: "sound_env env"
  shows "in_step n s {} a \<Longrightarrow> step_loop fuel env n s starts a = Some (b, r) \<Longrightarrow> \<exists>P. in_step n s P b"
proof (induction fuel arbitrary: a starts)
  case (Suc fuel)
  from one_attempt_left [OF env Suc.prems(1), of starts] obtain a1 r1
    where one: "one_attempt env n s starts a = Some (a1, r1)" "attempt_left n s (a1, r1)" by auto
  with Suc.prems(2) Suc.IH [of a1 False] show ?case unfolding step_loop_unfold
    by (cases r1) (auto simp: attempt_left_def split: attempt_outcome.splits)
qed simp

lemma run_step_leaves:
  assumes "sound_env env" "in_step n s {} a" "run_step fuel env n s starts a = Some (b, r)"
  shows "\<exists>P. in_step n s P b"
proof (cases "abort_of (ag_phase a)")
  case None
  with assms(3) have "step_loop fuel env n s starts a = Some (b, r)" by (simp add: run_step_def throwIfAborted_def)
  then show ?thesis by (rule step_loop_leaves [OF assms(1,2)])
qed (use assms in \<open>auto simp: run_step_def throwIfAborted_def\<close>)

section \<open>Inside a turn\<close>

lemma in_turn_running: "in_turn n s a \<Longrightarrow> running (ag_phase a)"
  by (simp add: in_turn_def running_place)

lemma admitted: "sound_env env \<Longrightarrow> append_data env d op a =
    (a\<lparr>ag_session := push_record (ae_now env) d op JUndef (ag_session a)\<rparr>, Inr (length (ib_log (ag_session a))))"
  by (simp add: append_data_def sound_env_def)

lemma push_log: "ib_log (push_record t d op src s) = ib_log s @
    [\<lparr>ev_seq = length (ib_log s), ev_time = t, ev_data = d, ev_surfaceOp = op, ev_sources = src\<rparr>]"
  by (simp add: push_record_def)

lemma preStep_calm:
  assumes "sound_env env" "running (ag_phase a)"
  shows "calm a (fst (preStep env target n a))"
proof -
  have "calm b (fst (case ae_assemble env (ag_tick b) of
         Some err \<Rightarrow> (pause env b, Inl err)
       | None \<Rightarrow> then_run (throwIfAborted (pause env b)) (\<lambda>_ a3.
           let context = ae_context env (ag_tick a3) (ib_log (ag_session a3));
               proposal = EnterStep (case context of None \<Rightarrow> claimed | Some m \<Rightarrow> claimed @ [m]) False;
               a4 = pause env a3 in
           case ae_decide env (ag_tick a3) claimed proposal of
             Inl err \<Rightarrow> (a4, Inl err)
           | Inr decision \<Rightarrow> then_run (throwIfAborted a4) (\<lambda>_ a5. (a5, Inr decision)))))"
    if "running (ag_phase b)" for b claimed
  proof -
    have p: "calm b (pause env b)" by (rule pause_calm [OF assms(1) that])
    have q: "calm c (pause env c)" if "calm b c" for c
      using pause_calm [OF assms(1)] calm_running [OF that] \<open>running (ag_phase b)\<close> by simp
    show ?thesis
    proof (cases "ae_assemble env (ag_tick b)")
      case None
      then show ?thesis using p calm_trans [OF p q [OF p]]
        by (auto simp: throwIfAborted_def then_run_def Let_def split: option.split sum.split)
    qed (use p in simp)
  qed
  then show ?thesis unfolding preStep_def Let_def
    by (intro then_run_calm on_inbox_calm claim_extends) (use assms(2) calm_running in blast)
qed

lemma turn_stops_calm:
  assumes "sound_env env" "running (ag_phase a)"
  shows "calm a (fst (turn_stops env ends a))"
  using pause_calm [OF assms]
  by (auto simp: turn_stops_def next_step_empty_def then_run_def throwIfAborted_def Let_def split: sum.split option.split)

lemma append_messages_calm: "calm a (fst (append_messages env ms a))"
proof (induction ms arbitrary: a)
  case (Cons m ms)
  have "neutral_data (UserMessage m)" by (simp add: neutral_data_def neutral_def)
  with Cons show ?case by (auto intro!: then_run_calm append_data_calm)
qed simp

lemma end_step_leaves:
  assumes "sound_env env" "end_step env n s r = Some (b, x)" "\<And>a y. r = Some (a, y) \<Longrightarrow> \<exists>P. in_step n s P a"
  shows "in_turn n s b"
proof -
  from assms(2) obtain a y where r: "r = Some (a, y)" by (auto simp: end_step_def)
  with assms(3) obtain P where at: "in_step n s P a" by blast
  from assms(2) r have "b = a\<lparr>ag_session := push_record (ae_now env) (StepEnd n s) JUndef JUndef (ag_session a)\<rparr>"
    by (auto simp: end_step_def admitted [OF assms(1)])
  with at show ?thesis by (auto simp: in_turn_def in_step_def push_log intro!: step_end_position)
qed

lemma set_step_place [simp]: "place p = Some (n, k) \<Longrightarrow> place (set_step s p) = Some (n, s)"
  by (cases p) simp_all

lemma enter_step_leaves:
  assumes env: "sound_env env" and at: "in_turn n s a"
    and run: "enter_step fuel env n (s + 1) messages starts a = Some (b, r)"
  shows "in_turn n (s + 1) b"
proof -
  define a1 where "a1 = a\<lparr>ag_session := push_record (ae_now env) (StepStart n (s + 1)) JUndef JUndef (ag_session a)\<rparr>"
  define a2 where "a2 = a1\<lparr>ag_phase := set_step (s + 1) (ag_phase a1)\<rparr>"
  have at2: "in_step n (s + 1) {} a2"
    using at by (auto simp: a2_def a1_def in_turn_def in_step_def push_log intro!: step_start_position)
  have run': "end_step env n (s + 1) (bind_run (Some (append_messages env messages a2))
      (\<lambda>_ c. map_option (awaiting env) (run_step fuel env n (s + 1) starts c))) = Some (b, r)"
    using run by (simp add: enter_step_def admitted [OF env] a1_def a2_def)
  show ?thesis
  proof (rule end_step_leaves [OF env run'])
    fix c y
    assume c: "bind_run (Some (append_messages env messages a2))
      (\<lambda>_ c. map_option (awaiting env) (run_step fuel env n (s + 1) starts c)) = Some (c, y)"
    obtain a3 z where m: "append_messages env messages a2 = (a3, z)" by fastforce
    with append_messages_calm [of a2 env messages] calm_keeps(3) at2 have at3: "in_step n (s + 1) {} a3" by (metis fst_conv)
    show "\<exists>P. in_step n (s + 1) P c"
    proof (cases z)
      case (Inl err)
      with c m at3 show ?thesis by auto
    next
      case (Inr u)
      with c m obtain a4 w where "run_step fuel env n (s + 1) starts a3 = Some (a4, w)" "c = pause env a4"
        by (auto simp: awaiting_def)
      from run_step_leaves [OF env at3 this(1)] obtain P where "in_step n (s + 1) P a4" by blast
      with pause_in_step [OF env] \<open>c = pause env a4\<close> show ?thesis by blast
    qed
  qed
qed

text \<open>One round of a turn: where it may end, and where the next one starts.\<close>

lemma turn_round:
  assumes run: "turn_loop (Suc fuel) env n target ends a = Some (b, r)"
  obtains (stopped) "b = a"
  | (unentered) "b = fst (awaiting env (preStep env target n a))"
  | (stepped) messages starts e where
      "enter_step fuel env n (phase_step (ag_phase a) + 1) messages starts (fst (awaiting env (preStep env target n a))) = Some (b, e)"
  | (checked) messages starts c e ends' where
      "enter_step fuel env n (phase_step (ag_phase a) + 1) messages starts (fst (awaiting env (preStep env target n a))) = Some (c, e)"
      "b = fst (turn_stops env ends' c)"
  | (again) messages starts c e ends' where
      "enter_step fuel env n (phase_step (ag_phase a) + 1) messages starts (fst (awaiting env (preStep env target n a))) = Some (c, e)"
      "turn_loop fuel env n NextStep ends' (fst (turn_stops env ends' c)) = Some (b, r)"
proof (cases "abort_of (ag_phase a)")
  case (Some c)
  with run stopped show ?thesis by (auto simp: throwIfAborted_def)
next
  case None
  then have go: "throwIfAborted a = (a, Inr ())" by (simp add: throwIfAborted_def)
  obtain a1 d where d: "awaiting env (preStep env target n a) = (a1, d)" by fastforce
  let ?s = "phase_step (ag_phase a) + 1"
  note run = run [unfolded turn_loop.simps(2) go bind_run_simps(3) Let_def d]
  show ?thesis
  proof (cases "\<exists>messages starts. d = Inr (EnterStep messages starts) \<and> \<not> (messages = [] \<and> ends \<noteq> None)
      \<and> \<not> (phase_step (ag_phase a1) = 0 \<and> messages = []) \<and> abort_of (ag_phase a1) = None")
    case False
    have "b = a1"
    proof (cases "\<exists>messages starts. d = Inr (EnterStep messages starts)")
      case True
      then obtain messages starts where enter: "d = Inr (EnterStep messages starts)" by blast
      note run = run [unfolded enter bind_run_simps pre_step_decision.case]
      consider (skip) "messages = [] \<and> ends \<noteq> None"
        | (spent) "\<not> (messages = [] \<and> ends \<noteq> None)" "phase_step (ag_phase a1) = 0 \<and> messages = []"
        | (dead) x where "\<not> (messages = [] \<and> ends \<noteq> None)" "\<not> (phase_step (ag_phase a1) = 0 \<and> messages = [])"
            "throwIfAborted a1 = (a1, Inl x)"
        using False enter by (fastforce simp: throwIfAborted_def)
      then show ?thesis
      proof cases
        case skip
        with run [unfolded if_P [OF skip]] show ?thesis by simp
      next
        case spent
        with run [unfolded if_not_P [OF spent(1)] if_P [OF spent(2)]] show ?thesis by simp
      next
        case dead
        with run [unfolded if_not_P [OF dead(1)] if_not_P [OF dead(2)] dead(3) bind_run_simps] show ?thesis by simp
      qed
    next
      case False
      then have "(\<exists>x. d = Inl x) \<or> d = Inr RejectStep" by (metis obj_sumE pre_step_decision.exhaust)
      with run show ?thesis by auto
    qed
    with d show ?thesis by (intro unentered) simp
  next
    case True
    then obtain messages starts where enter: "d = Inr (EnterStep messages starts)" "\<not> (messages = [] \<and> ends \<noteq> None)"
      "\<not> (phase_step (ag_phase a1) = 0 \<and> messages = [])" "abort_of (ag_phase a1) = None" by blast
    then have go1: "throwIfAborted a1 = (a1, Inr ())" by (simp add: throwIfAborted_def)
    note run = run [unfolded enter(1) bind_run_simps pre_step_decision.case if_not_P [OF enter(2)] if_not_P [OF enter(3)] go1]
    then obtain c e where step': "enter_step fuel env n ?s messages starts a1 = Some (c, e)"
      by (cases "enter_step fuel env n ?s messages starts a1") auto
    have here: "enter_step fuel env n ?s messages starts (fst (awaiting env (preStep env target n a))) = Some (c, e)"
      unfolding d fst_conv by (rule step')
    show ?thesis
    proof (cases "\<exists>x. e = Inr x \<and> abort_of (ag_phase c) = None")
      case False
      with run have "b = c" unfolding step' by (cases e) (auto simp: throwIfAborted_def Let_def split: option.splits)
      with here show ?thesis by (intro stepped) simp
    next
      case True
      then obtain x where x: "e = Inr x" "throwIfAborted c = (c, Inr ())" by (auto simp: throwIfAborted_def)
      define ends' where "ends' = (if ends = Some MaxTokens then ends else x)"
      obtain f stops where f: "turn_stops env ends' c = (f, stops)" by fastforce
      note run = run [unfolded step' x bind_run_simps Let_def, folded ends'_def, unfolded f]
      show ?thesis
      proof (cases "stops = Inr False")
        case True
        with run f show ?thesis by (intro again [OF here, of ends']) simp
      next
        case False
        with run have "b = f" by (cases stops) (auto split: if_splits)
        with f show ?thesis by (intro checked [OF here, of ends']) simp
      qed
    qed
  qed
qed

lemma turn_loop_leaves:
  assumes env: "sound_env env"
  shows "in_turn n s a \<Longrightarrow> turn_loop fuel env n target ends a = Some (b, r) \<Longrightarrow> \<exists>k. in_turn n k b"
proof (induction fuel arbitrary: s a target ends)
  case (Suc fuel)
  let ?a1 = "fst (awaiting env (preStep env target n a))"
  have run: "running (ag_phase a)" by (rule in_turn_running [OF Suc.prems(1)])
  have calm: "calm a (fst (preStep env target n a))" by (rule preStep_calm [OF env run])
  then have "calm a ?a1" unfolding awaiting_def fst_conv
    by (rule calm_trans) (rule pause_calm [OF env calm_running [OF calm run]])
  from calm_keeps(2) [OF this Suc.prems(1)] have at1: "in_turn n s ?a1" .
  have step: "phase_step (ag_phase a) + 1 = s + 1" using Suc.prems(1) by (simp add: in_turn_def)
  have stops: "in_turn n k (fst (turn_stops env x c))" if "in_turn n k c" for x c k
    by (rule calm_keeps(2) [OF turn_stops_calm [OF env in_turn_running [OF that]] that])
  note enter = enter_step_leaves [OF env at1]
  from Suc.prems(2) show ?case
  proof (rule turn_round)
    assume "b = a"
    with Suc.prems(1) show ?thesis by blast
  next
    assume "b = ?a1"
    with at1 show ?thesis by blast
  next
    fix ms st e assume "enter_step fuel env n (phase_step (ag_phase a) + 1) ms st ?a1 = Some (b, e)"
    with enter show ?thesis unfolding step by blast
  next
    fix ms st c e x assume "enter_step fuel env n (phase_step (ag_phase a) + 1) ms st ?a1 = Some (c, e)" "b = fst (turn_stops env x c)"
    with enter stops show ?thesis unfolding step by blast
  next
    fix ms st c e x assume "enter_step fuel env n (phase_step (ag_phase a) + 1) ms st ?a1 = Some (c, e)"
      and rest: "turn_loop fuel env n NextStep x (fst (turn_stops env x c)) = Some (b, r)"
    then have "in_turn n (s + 1) (fst (turn_stops env x c))" using enter stops unfolding step by blast
    from Suc.IH [OF this rest] show ?thesis .
  qed
qed simp

section \<open>Turns and the driver\<close>

definition ready :: "int \<Rightarrow> agent \<Rightarrow> bool" where
  "ready n a \<longleftrightarrow> idle_at (ib_log (ag_session a)) n \<and> place (ag_phase a) = Some (n, 0)"

lemma ready_between: "ready n a \<Longrightarrow> between n a"
  by (auto simp: ready_def between_def)

lemma calm_ready: "calm a b \<Longrightarrow> ready n a \<Longrightarrow> ready n b"
  using extends_positions(1) by (auto simp: ready_def calm_def)

lemma ready_running: "ready n a \<Longrightarrow> running (ag_phase a)" "between n a \<Longrightarrow> running (ag_phase a)"
  by (auto simp: ready_def between_def running_place)

lemma report_error_frame [simp]: "ag_session (report_error e a) = ag_session a" "ag_phase (report_error e a) = ag_phase a"
  by (simp_all add: report_error_def)

lemma close_turn_leaves:
  assumes "sound_env env" "in_turn n k a"
  shows "between n (fst (close_turn env n reason r a))" "snd (close_turn env n reason r a) = r"
  using assms by (auto simp: close_turn_def admitted between_def in_turn_def push_log intro!: turn_end_position)

definition turn_left :: "int \<Rightarrow> agent \<times> (string + bool) \<Rightarrow> bool" where
  "turn_left n r \<longleftrightarrow> between n (fst r) \<and> (snd r = Inr True \<longrightarrow> ready n (fst r))"

lemma end_turn_leaves:
  assumes env: "sound_env env" and at: "in_turn n k a"
  shows "turn_left n (end_turn env n (a, r))"
proof (cases r)
  case (Inl err)
  have "in_turn n k (report_error err a)" using at by (simp add: in_turn_def)
  with close_turn_leaves [OF env this] close_turn_leaves [OF env at] Inl show ?thesis
    by (auto simp: end_turn_def turn_left_def)
next
  case (Inr flow)
  show ?thesis
  proof (cases flow)
    case (ReturnTurn reason)
    with close_turn_leaves [OF env at] Inr show ?thesis by (auto simp: end_turn_def turn_left_def)
  next
    case (BreakTurn reason)
    obtain b where b: "close_turn env n reason (Inr True) a = (b, Inr True)" "between n b"
      using close_turn_leaves [OF env at, of reason "Inr True"] by (cases "close_turn env n reason (Inr True) a") simp
    then have "last_turn (ag_phase b) = n" by (auto simp: between_def)
    with b Inr BreakTurn show ?thesis
      by (auto simp: end_turn_def turn_left_def agent_pending_def between_def ready_def split: sum.split)
  qed
qed

lemma run_turn_leaves:
  assumes env: "sound_env env" and at: "ready n a" and run: "run_turn fuel env a = Some (b, r)"
  shows "\<exists>m. turn_left m (b, r)"
proof (cases "abort_of (ag_phase a)")
  case (Some c)
  with run at show ?thesis by (auto simp: run_turn_def throwIfAborted_def turn_left_def intro: ready_between)
next
  case None
  have turn: "last_turn (ag_phase a) = n" using at by (auto simp: ready_def)
  define a1 where "a1 = a\<lparr>ag_session := push_record (ae_now env) (TurnStart (n + 1)) JUndef JUndef (ag_session a)\<rparr>"
  define a2 where "a2 = a1\<lparr>ag_phase := set_turn (n + 1) (ag_phase a1)\<rparr>"
  have "in_turn (n + 1) 0 a2"
    using at by (cases "ag_phase a") (auto simp: a2_def a1_def ready_def in_turn_def push_log intro!: turn_start_position)
  moreover from run None obtain r' where "turn_loop fuel env (n + 1) NextTurn None a2 = Some r'" "(b, r) = end_turn env (n + 1) r'"
    by (auto simp: run_turn_def throwIfAborted_def admitted [OF env] turn a1_def a2_def Let_def)
  ultimately show ?thesis using turn_loop_leaves [OF env] end_turn_leaves [OF env]
    by (cases r') (metis)
qed

lemma drive_leaves:
  assumes env: "sound_env env"
  shows "ready n a \<Longrightarrow> drive_turns fuel env a = Some b \<Longrightarrow> \<exists>m. between m b"
proof (induction fuel arbitrary: n a)
  case (Suc fuel)
  then obtain a1 r where r: "run_turn fuel env a = Some (a1, r)"
    by (auto split: option.splits prod.splits)
  from run_turn_leaves [OF env Suc.prems(1) r] obtain m where m: "turn_left m (a1, r)" by blast
  then have "calm a1 (pause env a1)" using pause_calm [OF env] ready_running(2) by (auto simp: turn_left_def)
  with m have "between m (pause env a1)" "r = Inr True \<Longrightarrow> ready m (pause env a1)"
    using calm_keeps(1) calm_ready by (auto simp: turn_left_def)
  with Suc r show ?case by (auto simp: awaiting_def split: sum.splits bool.splits)
qed simp

definition at_rest :: "int \<Rightarrow> agent \<Rightarrow> bool" where
  "at_rest n a \<longleftrightarrow> idle_at (ib_log (ag_session a)) n \<and> \<not> running (ag_phase a) \<and> last_turn (ag_phase a) = n"

lemma retire_leaves: "idle_at (ib_log (ag_session a)) n \<Longrightarrow> at_rest n (retire n w a) \<or> ready n (retire n w a)"
  by (auto simp: retire_def at_rest_def ready_def wakeDriver_def Let_def)

lemma kick_leaves:
  assumes env: "sound_env env"
  shows "ready n a \<Longrightarrow> kick fuel env a = Some b \<Longrightarrow> \<exists>m. at_rest m b"
proof (induction fuel arbitrary: n a)
  case (Suc fuel)
  then obtain a1 where a1: "drive_turns fuel env a = Some a1" by (auto split: option.splits)
  from drive_leaves [OF env Suc.prems(1) this] obtain m where m: "between m a1" by blast
  then have "at_rest m (finish_drive a1) \<or> ready m (finish_drive a1)"
    using retire_leaves [of a1 m] by (cases "ag_phase a1") (auto simp: finish_drive_def between_def)
  with Suc a1 show ?case by (auto simp: Let_def at_rest_def ready_running split: if_splits)
qed simp

lemma inbox_rest:
  assumes "\<And>s. extends s (fst (f s))" "at_rest n a"
  shows "at_rest n (fst (on_inbox f a))"
proof -
  have "extends (ag_session a) (ag_session (fst (on_inbox f a)))"
    using on_inbox_calm [OF assms(1), of a] by (simp add: calm_def)
  moreover have "ag_phase (fst (on_inbox f a)) = ag_phase a" by (simp add: on_inbox_def split: prod.split sum.split)
  ultimately show ?thesis using assms(2) extends_positions(1) by (simp add: at_rest_def)
qed

lemma wake_rest: "at_rest n a \<Longrightarrow> at_rest n (wakeDriver w a) \<or> ready n (wakeDriver w a)"
  by (cases "ag_phase a") (auto simp: at_rest_def ready_def wakeDriver_def)

lemma phase_rest:
  "at_rest n a \<Longrightarrow> at_rest n (a\<lparr>ag_phase := unlatch (ag_phase a)\<rparr>)"
  "at_rest n a \<Longrightarrow> at_rest n (a\<lparr>ag_phase := abort_phase c (ag_phase a)\<rparr>)"
  by (cases "ag_phase a"; simp add: at_rest_def)+

lemma send_rest:
  assumes "at_rest n a"
  shows "at_rest n (fst (send env m t w a)) \<or> ready n (fst (send env m t w a))"
proof -
  let ?t = "if w \<and> abort_of (ag_phase a) \<noteq> None then NextTurn else t"
  obtain b r where r: "on_inbox (splice (ae_inbox env) ?t PosInf (js_int 0) [m]) a = (b, r)" by fastforce
  from inbox_rest [where f = "splice (ae_inbox env) ?t PosInf (js_int 0) [m]", OF splice_extends assms] r have "at_rest n b" by simp
  with wake_rest [OF this] r show ?thesis by (cases r) (simp_all add: send_def Let_def)
qed

lemma cancel_rest:
  assumes "at_rest n a"
  shows "at_rest n (fst (cancel env c k a))"
proof -
  have "at_rest n (fst (on_inbox (clear_inbox (ae_inbox env)) a))" by (rule inbox_rest [OF clear_extends assms])
  then have "at_rest n (fst (then_run (on_inbox (clear_inbox (ae_inbox env)) a) (\<lambda>_ b. (b\<lparr>ag_phase := unlatch (ag_phase b)\<rparr>, Inr ()))))"
    by (rule then_run_leaves [where Q = "at_rest n"]) (simp add: phase_rest)
  with assms show ?thesis unfolding cancel_def
    by (intro then_run_leaves [where Q = "at_rest n"]) (simp_all add: phase_rest)
qed

lemma deliver_rest:
  assumes "at_rest n a" "\<And>d. c = ForeignAppend d \<Longrightarrow> neutral_data d"
  shows "at_rest n (deliver env a c) \<or> ready n (deliver env a c)"
proof -
  have keep: "idle_at (ib_log (ag_session b)) n" if "extends (ag_session a) (ag_session b)" for b
    using assms(1) extends_positions(1) [OF that] by (simp add: at_rest_def)
  show ?thesis
  proof (cases c)
    case (SendCmd m t w)
    with send_rest [OF assms(1)] show ?thesis by (simp add: deliver_def)
  next
    case (CancelCmd cause k)
    with cancel_rest [OF assms(1)] show ?thesis by (simp add: deliver_def)
  next
    case (ForeignAppend d)
    with append_data_calm [of d a env JUndef] assms(2) have "extends (ag_session a) (ag_session (deliver env a c))"
      by (simp add: deliver_def calm_def)
    from keep [OF this] ForeignAppend assms(1) show ?thesis by (simp add: deliver_def at_rest_def append_data_def)
  next
    case BeginMaintenance
    with assms(1) show ?thesis
      by (cases "ag_phase a") (auto simp: deliver_def begin_maintenance_def at_rest_def)
  next
    case EndMaintenance
    with assms(1) retire_leaves [of a n] show ?thesis
      by (cases "ag_phase a") (auto simp: deliver_def end_maintenance_def at_rest_def)
  qed
qed

lemma command_leaves:
  assumes env: "sound_env env" and a: "at_rest n a" and c: "\<And>d. c = ForeignAppend d \<Longrightarrow> neutral_data d"
    and run: "command fuel env c a = Some b"
  shows "\<exists>m. at_rest m b"
proof -
  have "at_rest n (deliver env a c) \<or> ready n (deliver env a c)" by (rule deliver_rest [OF a]) (rule c)
  then show ?thesis
  proof
    assume rest: "at_rest n (deliver env a c)"
    with run show ?thesis by (auto simp: command_def Let_def at_rest_def)
  next
    assume ready: "ready n (deliver env a c)"
    with run have "kick fuel env (deliver env a c) = Some b" by (simp add: command_def Let_def ready_running)
    with kick_leaves [OF env ready] show ?thesis by blast
  qed
qed

lemma commands_leave:
  assumes env: "sound_env env"
  shows "at_rest n a \<Longrightarrow> (\<And>d. ForeignAppend d \<in> set cs \<Longrightarrow> neutral_data d) \<Longrightarrow> commands fuel env cs a = Some b
    \<Longrightarrow> \<exists>m. at_rest m b"
proof (induction cs arbitrary: n a)
  case (Cons c cs)
  then obtain a1 where a1: "command fuel env c a = Some a1" by (auto split: option.splits)
  with command_leaves [OF env Cons.prems(1) _ this] Cons.prems(2) obtain m where "at_rest m a1" by auto
  with Cons a1 show ?case by auto
qed auto

text \<open>A model that answers with the given blocks, under the given commands.\<close>

definition quiet_recovery :: retry_env where
  "quiet_recovery = \<lparr>rv_num = (\<lambda>r. ''0''), rv_rnd = (\<lambda>r. r), rv_now = 0, rv_uuid = ''u'', rv_random = 0, rv_disposed = False,
     rv_aborted = False, rv_abortedLater = False, rv_next = (\<lambda>es. (es, Inr False)), rv_wait = (\<lambda>es. (es, True))\<rparr>"

definition sample_llm :: "content_block list \<Rightarrow> llm_attempt" where
  "sample_llm blocks = \<lparr>la_refuse = None, la_provider = ''deepseek'', la_model = ''chat'', la_routed = ''deepseek'', la_sameHeader = True,
     la_newContext = False, la_open = None, la_chunks = 1, la_broken = None, la_interrupted = [OtherBlock JUndef],
     la_finish = Stopped, la_blocks = blocks, la_recovery = quiet_recovery\<rparr>"

definition sample_driver_env :: "(nat \<Rightarrow> agent_command list) \<Rightarrow> (nat \<Rightarrow> content_block list) \<Rightarrow> agent_env" where
  "sample_driver_env cs blocks = \<lparr>ae_now = 0, ae_inbox = sample_env, ae_admits = (\<lambda>es d. True), ae_generation = (\<lambda>es. 0),
     ae_commands = cs, ae_assemble = (\<lambda>k. None), ae_context = (\<lambda>k es. None), ae_decide = (\<lambda>k ms d. Inr d),
     ae_stopping = (\<lambda>k. None), ae_attempt = (\<lambda>k. sample_llm (blocks k)), ae_tools = (\<lambda>k. sample_runtime)\<rparr>"

lemma sample_driver_sound:
  assumes "\<And>k. distinct (tool_calls (blocks k))" "\<And>k d. ForeignAppend d \<in> set (cs k) \<Longrightarrow> neutral_data d"
  shows "sound_env (sample_driver_env cs blocks)"
proof -
  have "sound_tools sample_runtime"
    using sample_quiet sample_settles by (simp add: sound_tools_def) (simp add: sample_runtime_def)
  moreover have "sound_attempt (sample_llm (blocks k))" for k
    using assms(1) by (auto simp: sound_attempt_def sample_llm_def quiet_recovery_def intro: exI [of _ "[]"])
  ultimately show ?thesis using assms(2) by (auto simp: sound_env_def sample_driver_env_def)
qed

definition sample_agent :: "inbox_session \<Rightarrow> agent" where
  "sample_agent s = \<lparr>ag_phase = Idle 0, ag_session = s, ag_signals = [], ag_tick = 0, ag_headerLogged = False,
     ag_generation = None, ag_revision = 0, ag_attempts = 0, ag_live = \<lparr>lv_attempt = 0, lv_index = 0, lv_terminal = True\<rparr>\<rparr>"

section \<open>Retries\<close>

text \<open>A failed request is retried only when the recovery downstream of the retry plugin asks for it.\<close>

lemma recover_no_retry:
  assumes "\<And>es. snd (rv_next (la_recovery la) es) \<noteq> Inr True"
  shows "snd (recover_attempt env n s la failure a) \<noteq> Inr RetryAttempt"
proof -
  obtain es r where r: "on_request_error (la_recovery la) \<lparr>rq_turn = n, rq_step = s, rq_provider = route la,
      rq_failure = failure, rq_policy = None\<rparr> (ib_log (ag_session a)) = (es, r)" by fastforce
  then have "r = Inr False \<or> r = snd (rv_next (la_recovery la) (ib_log (ag_session a)))"
    by (auto simp: on_request_error_def recover_def split: if_splits)
  with assms [of "ib_log (ag_session a)"] have "r \<noteq> Inr True" by auto
  with r show ?thesis
    by (auto simp: recover_attempt_def Let_def throwIfAborted_def then_run_def split: sum.split option.split)
qed

lemma run_calls_no_retry: "run_calls env n s cs a = Some (b, x) \<Longrightarrow> x \<noteq> Inr RetryAttempt"
proof -
  assume "run_calls env n s cs a = Some (b, x)"
  then obtain y where "x = (case y of Inl err \<Rightarrow> Inl err | Inr c \<Rightarrow> Inr (StepEnded (if c then Some Completed else None)))"
    by (auto simp: run_calls_def Let_def)
  then show ?thesis by (cases y) simp_all
qed

lemma one_attempt_no_retry:
  assumes "\<And>es. snd (rv_next (la_recovery (ae_attempt env (ag_tick a))) es) \<noteq> Inr True"
    and "one_attempt env n s starts a = Some (b, r)"
  shows "r \<noteq> Inr RetryAttempt"
proof -
  let ?la = "ae_attempt env (ag_tick a)"
  have "x \<noteq> Inr RetryAttempt" if c: "conclude_attempt env n s ?la d = Some (e, x)" for d e x
  proof (cases "la_finish ?la")
    case (FailedWith failure)
    obtain f v where "live_settle env ''assistant/attempt'' (AssistantAttempt n s) JUndef d = (f, v)" by fastforce
    with c FailedWith recover_no_retry [OF assms(1), of env n s failure f] show ?thesis
      by (cases v) (auto simp: conclude_attempt_def)
  next
    case Stopped
    with c show ?thesis
      by (auto simp: conclude_attempt_def bind_run_def dest: run_calls_no_retry split: prod.splits sum.splits if_splits)
  next
    case HitMaxTokens
    with c show ?thesis
      by (auto simp: conclude_attempt_def bind_run_def split: prod.splits sum.splits if_splits)
  qed
  then have "x \<noteq> Inr RetryAttempt" if "finish_attempt env n s ?la d = Some (e, x)" for d e x
    using that by (auto simp: finish_attempt_def)
  with assms(2) show ?thesis
    by (auto simp: one_attempt_def bind_run_def Let_def split: prod.splits sum.splits)
qed

text \<open>C18: As the driver stands, no retry policy has any effect: the policy it hands to the recovery is always
  absent, so unless the recovery downstream of the retry plugin asks for another attempt, a step makes one
  attempt, whatever its provider's policy says and however long the loop may run.\<close>

theorem driver_ignores_retry_policy:
  assumes "\<And>k es. snd (rv_next (la_recovery (ae_attempt env k)) es) \<noteq> Inr True"
  shows "step_loop (Suc fuel) env turn step starts a = step_loop 1 env turn step starts a"
proof (cases "one_attempt env turn step starts a")
  case None
  then show ?thesis unfolding One_nat_def step_loop_unfold by simp
next
  case (Some r)
  obtain b v where r: "r = (b, v)" by fastforce
  from one_attempt_no_retry [OF assms Some [unfolded r]] have "v \<noteq> Inr RetryAttempt" .
  with Some r show ?thesis unfolding One_nat_def step_loop_unfold
    by (cases v) (auto split: attempt_outcome.split)
qed

definition failing_llm :: llm_attempt where
  "failing_llm = sample_llm []\<lparr>la_finish := FailedWith (JObj [(''message'', JStr ''down''), (''code'', JStr ''SERVER'')])\<rparr>"

definition silent_agent :: agent where
  "silent_agent = sample_agent \<lparr>ib_log = [log_event 0 0 (TurnStart 1), log_event 1 0 (StepStart 1 1)], ib_signals = []\<rparr>"

theorem driver_ignores_retry_policy_witness:
  "step_loop 5 (sample_driver_env (\<lambda>k. []) (\<lambda>k. [])\<lparr>ae_attempt := (\<lambda>k. failing_llm)\<rparr>) 1 1 True silent_agent
     = step_loop 1 (sample_driver_env (\<lambda>k. []) (\<lambda>k. [])\<lparr>ae_attempt := (\<lambda>k. failing_llm)\<rparr>) 1 1 True silent_agent
   \<and> snd (on_request_error (la_recovery failing_llm) \<lparr>rq_turn = 1, rq_step = 1, rq_provider = route failing_llm,
       rq_failure = JObj [(''message'', JStr ''down''), (''code'', JStr ''SERVER'')],
       rq_policy = Some (NormalPolicy 3 [''SERVER''] \<lparr>rb_initialDelayMs = 500, rb_maxDelayMs = 10000, rb_jitterRatio = 0\<rparr>)\<rparr>
       [log_event 0 0 (TurnStart 1), log_event 1 0 (StepStart 1 1), log_event 2 0 (AssistantAttempt 1 1)]) = Inr True"
proof
  have "snd (rv_next (la_recovery (ae_attempt (sample_driver_env (\<lambda>k. []) (\<lambda>k. [])\<lparr>ae_attempt := (\<lambda>k. failing_llm)\<rparr>) k)) es)
    \<noteq> Inr True" for k es by (simp add: failing_llm_def sample_llm_def quiet_recovery_def)
  from driver_ignores_retry_policy [OF this, of 4 1 1 True silent_agent]
  show "step_loop 5 (sample_driver_env (\<lambda>k. []) (\<lambda>k. [])\<lparr>ae_attempt := (\<lambda>k. failing_llm)\<rparr>) 1 1 True silent_agent
     = step_loop 1 (sample_driver_env (\<lambda>k. []) (\<lambda>k. [])\<lparr>ae_attempt := (\<lambda>k. failing_llm)\<rparr>) 1 1 True silent_agent" by simp
qed code_simp

end
