(* ===== verification/Driver_Queue.thy ===== *)
theory Driver_Queue
  imports Driver_Turns
begin

text \<open>
  The driver on its own: no other code interferes, and the model answers without calling tools. Every
  queued message then gets a turn of its own, in order, and the driver comes to rest.
\<close>

section \<open>Quiet environments\<close>

definition answering :: "llm_attempt \<Rightarrow> bool" where
  "answering la \<longleftrightarrow> la_refuse la = None \<and> la_provider la \<noteq> [] \<and> la_model la \<noteq> [] \<and> la_open la = None
     \<and> la_broken la = None \<and> la_finish la = Stopped \<and> tool_calls (la_blocks la) = []"

definition quiet_env :: "agent_env \<Rightarrow> bool" where
  "quiet_env env \<longleftrightarrow> sound_env env \<and> admits_all (ae_inbox env) \<and> (\<forall>k. ae_commands env k = [])
     \<and> (\<forall>k. ae_assemble env k = None \<and> ae_stopping env k = None) \<and> (\<forall>k es. ae_context env k es = None)
     \<and> (\<forall>k ms p. ae_decide env k ms p = Inr p) \<and> (\<forall>k. answering (ae_attempt env k))"

lemma quiet_pause [simp]: "quiet_env env \<Longrightarrow> pause env a = a\<lparr>ag_tick := ag_tick a + 1\<rparr>"
  by (simp add: pause_def quiet_env_def)

lemma quiet_sound: "quiet_env env \<Longrightarrow> sound_env env"
  by (simp add: quiet_env_def)

section \<open>What is said\<close>

definition user_said :: "session_event \<Rightarrow> user_message option" where
  "user_said e = (case ev_data e of UserMessage m \<Rightarrow> Some m | _ \<Rightarrow> None)"

abbreviation said :: "session_event list \<Rightarrow> user_message list" where
  "said \<equiv> List.map_filter user_said"

definition answer :: "session_event \<Rightarrow> bool" where
  "answer e = (case ev_data e of AssistantMessage n s bs \<Rightarrow> True | _ \<Rightarrow> False)"

abbreviation answers :: "session_event list \<Rightarrow> nat" where
  "answers es \<equiv> length (filter answer es)"

text \<open>From \<open>a\<close> to \<open>b\<close>, the messages \<open>ms\<close> and \<open>k\<close> answers were logged and the inbox was left alone.\<close>

definition adds :: "agent \<Rightarrow> user_message list \<Rightarrow> nat \<Rightarrow> agent \<Rightarrow> bool" where
  "adds a ms k b \<longleftrightarrow> (\<exists>x. ib_log (ag_session b) = ib_log (ag_session a) @ x \<and> said x = ms \<and> answers x = k)
     \<and> current (ag_session b) = current (ag_session a)"

lemma adds_same: "ag_session b = ag_session a \<Longrightarrow> adds a [] 0 b"
  by (simp add: adds_def)

lemma adds_trans: "adds a ms k b \<Longrightarrow> adds b ms' k' c \<Longrightarrow> adds a (ms @ ms') (k + k') c"
  unfolding adds_def by fastforce

lemma current_push:
  assumes "\<And>sp. d \<noteq> InboxSpliced sp"
  shows "current (push_record t d op src s) = current s"
proof (cases "current s")
  case (Inl err)
  then show ?thesis by (simp add: current_def push_log fold_res_append)
next
  case (Inr st)
  moreover have "apply_inbox st e = Inr st" if "ev_data e = d" for e
    using that assms by (auto simp: apply_inbox_def split: event_data.split)
  ultimately show ?thesis by (simp add: current_def push_log fold_res_snoc)
qed

definition says :: "event_data \<Rightarrow> user_message list" where
  "says d = (case d of UserMessage m \<Rightarrow> [m] | _ \<Rightarrow> [])"

definition replies :: "event_data \<Rightarrow> nat" where
  "replies d = (case d of AssistantMessage n s bs \<Rightarrow> 1 | _ \<Rightarrow> 0)"

lemma says_simps [simp]:
  "says (UserMessage m) = [m]" "says (TurnStart n) = []" "says (TurnEnd n r) = []" "says (StepStart n s) = []"
  "says (StepEnd n s) = []" "says (RequestHeader p) = []" "says RequestContext = []" "says (AssistantMessage n s bs) = []"
  "replies (UserMessage m) = 0" "replies (TurnStart n) = 0" "replies (TurnEnd n r) = 0" "replies (StepStart n s) = 0"
  "replies (StepEnd n s) = 0" "replies (RequestHeader p) = 0" "replies RequestContext = 0"
  "replies (AssistantMessage n s bs) = 1"
  by (simp_all add: says_def replies_def)

lemma adds_push:
  assumes "\<And>sp. d \<noteq> InboxSpliced sp" "ag_session b = push_record t d op src (ag_session a)"
  shows "adds a (says d) (replies d) b"
  unfolding adds_def
proof (intro conjI exI)
  let ?e = "\<lparr>ev_seq = length (ib_log (ag_session a)), ev_time = t, ev_data = d, ev_surfaceOp = op, ev_sources = src\<rparr>"
  show "ib_log (ag_session b) = ib_log (ag_session a) @ [?e]" by (simp add: assms(2) push_log)
  show "said [?e] = says d" "answers [?e] = replies d"
    by (simp_all add: map_filter_single user_said_def says_def answer_def replies_def split: event_data.split)
  show "current (ag_session b) = current (ag_session a)" by (simp add: assms current_push)
qed

text \<open>The same, in an activity that is not aborted and stays where it is.\<close>

definition goes :: "agent \<Rightarrow> user_message list \<Rightarrow> nat \<Rightarrow> agent \<Rightarrow> bool" where
  "goes a ms k b \<longleftrightarrow> adds a ms k b \<and> ag_phase b = ag_phase a \<and> abort_of (ag_phase a) = None"

lemma goes_trans: "goes a ms k b \<Longrightarrow> goes b ms' k' c \<Longrightarrow> goes a (ms @ ms') (k + k') c"
  unfolding goes_def using adds_trans by fastforce

lemma goes_silent: "goes a [] 0 b \<Longrightarrow> goes b ms k c \<Longrightarrow> goes a ms k c" "goes a ms k b \<Longrightarrow> goes b [] 0 c \<Longrightarrow> goes a ms k c"
  using goes_trans by fastforce+

lemma goes_frame: "ag_session b = ag_session a \<Longrightarrow> ag_phase b = ag_phase a \<Longrightarrow> abort_of (ag_phase a) = None \<Longrightarrow> goes a [] 0 b"
  by (simp add: goes_def adds_same)

lemma goes_go: "goes a ms k b \<Longrightarrow> throwIfAborted b = (b, Inr ())"
  by (simp add: goes_def throwIfAborted_def)

section \<open>One step\<close>

definition goes_to :: "agent \<Rightarrow> user_message list \<Rightarrow> nat \<Rightarrow> 'b \<Rightarrow> agent \<times> (string + 'b) \<Rightarrow> bool" where
  "goes_to a ms k x r \<longleftrightarrow> (\<exists>b. r = (b, Inr x) \<and> goes a ms k b)"

lemma goes_to_run:
  assumes "goes_to a ms k x r" "\<And>b. goes a ms k b \<Longrightarrow> goes_to b ms' k' y (f x b)"
  shows "goes_to a (ms @ ms') (k + k') y (then_run r f)"
proof -
  from assms(1) obtain b where "r = (b, Inr x)" "goes a ms k b" by (auto simp: goes_to_def)
  with assms(2) [OF this(2)] show ?thesis using goes_trans by (auto simp: goes_to_def)
qed

lemma goes_to_here: "abort_of (ag_phase a) = None \<Longrightarrow> goes_to a [] 0 () (throwIfAborted a)"
  "abort_of (ag_phase a) = None \<Longrightarrow> goes_to a [] 0 x (a, Inr x)"
  by (simp_all add: goes_to_def throwIfAborted_def goes_frame)

lemma go_silent:
  assumes "goes_to a [] 0 x r" "\<And>b. goes a [] 0 b \<Longrightarrow> goes_to b ms k y (f x b)"
  shows "goes_to a ms k y (then_run r f)"
proof -
  from assms(1) obtain b where "r = (b, Inr x)" "goes a [] 0 b" by (auto simp: goes_to_def)
  with assms(2) [OF this(2)] goes_silent(1) show ?thesis by (auto simp: goes_to_def)
qed

lemma goes_alive: "goes a ms k b \<Longrightarrow> abort_of (ag_phase b) = None"
  by (simp add: goes_def)

lemma go_append:
  assumes "sound_env env" "abort_of (ag_phase a) = None" "\<And>sp. d \<noteq> InboxSpliced sp"
  shows "goes_to a (says d) (replies d) (length (ib_log (ag_session a))) (append_data env d op a)"
  using assms by (auto simp: admitted goes_to_def goes_def intro!: adds_push)

lemma go_update:
  assumes "goes_to a ms k x r" "\<And>b. ag_session (f b) = ag_session b \<and> ag_phase (f b) = ag_phase b"
  shows "goes_to a ms k y (then_run r (\<lambda>_ b. (f b, Inr y)))"
  using assms unfolding goes_to_def goes_def adds_def by fastforce

lemma go_header:
  assumes "sound_env env" "abort_of (ag_phase a) = None"
  shows "goes_to a [] 0 () (log_header env la st g a)"
proof -
  from go_append [OF assms, of "RequestHeader (route la)" JUndef] obtain b where
    b: "append_data env (RequestHeader (route la)) JUndef a = (b, Inr (length (ib_log (ag_session a))))" "goes a [] 0 b"
    by (auto simp: goes_to_def)
  have app: "goes_to a [] 0 () (then_run (append_data env (RequestHeader (route la)) JUndef a) (\<lambda>_ b. (f b, Inr ())))"
    if "\<And>b. ag_session (f b) = ag_session b \<and> ag_phase (f b) = ag_phase b" for f
    using b that by (simp add: goes_to_def goes_def adds_def)
  show ?thesis unfolding log_header_def Let_def
    by (rule go_update) (simp_all add: app goes_to_here assms app [of "\<lambda>b. b"])
qed

lemma go_build:
  assumes env: "quiet_env env" and la: "answering la" and "abort_of (ag_phase a) = None"
  shows "goes_to a [] 0 () (buildRequest env la st a)"
proof -
  have pause: "goes_to a [] 0 () (throwIfAborted (pause env a))" if "abort_of (ag_phase a) = None" for a
    using that by (simp add: env goes_to_def throwIfAborted_def goes_frame)
  have ctx: "goes_to b [] 0 () (then_run (if la_newContext la then then_run (append_data env RequestContext JUndef b) (\<lambda>_ c. (c, Inr ()))
      else (b, Inr ())) (\<lambda>_ c. throwIfAborted c))" if alive: "abort_of (ag_phase b) = None" for b
  proof (rule go_silent)
    from go_append [OF quiet_sound [OF env] alive, of RequestContext JUndef] alive
    show "goes_to b [] 0 () (if la_newContext la then then_run (append_data env RequestContext JUndef b) (\<lambda>_ c. (c, Inr ())) else (b, Inr ()))"
      by (auto simp: goes_to_def goes_frame)
  qed (simp add: goes_to_here goes_alive)
  have rest: "goes_to b [] 0 () (then_run (throwIfAborted (if routes la then pause env b else b)) (\<lambda>_ c. then_run (log_header env la st g c)
      (\<lambda>_ d. then_run (if la_newContext la then then_run (append_data env RequestContext JUndef d) (\<lambda>_ e. (e, Inr ()))
        else (d, Inr ())) (\<lambda>_ e. throwIfAborted e))))" if alive: "abort_of (ag_phase b) = None" for b g
  proof (rule go_silent)
    show "goes_to b [] 0 () (throwIfAborted (if routes la then pause env b else b))"
      using pause [OF alive] goes_to_here(1) [OF alive] by simp
    fix c assume "goes b [] 0 c"
    then have alive: "abort_of (ag_phase c) = None" by (rule goes_alive)
    show "goes_to c [] 0 () (then_run (log_header env la st g c)
      (\<lambda>_ d. then_run (if la_newContext la then then_run (append_data env RequestContext JUndef d) (\<lambda>_ e. (e, Inr ()))
        else (d, Inr ())) (\<lambda>_ e. throwIfAborted e)))"
      by (rule go_silent [OF go_header [OF quiet_sound [OF env] alive]]) (rule ctx, rule goes_alive)
  qed
  let ?g = "ae_generation env (ib_log (ag_session a))"
  have "buildRequest env la st a = then_run (throwIfAborted (pause env a)) (\<lambda>_ b.
      then_run (throwIfAborted (if routes la then pause env b else b)) (\<lambda>_ c. then_run (log_header env la st ?g c)
      (\<lambda>_ d. then_run (if la_newContext la then then_run (append_data env RequestContext JUndef d) (\<lambda>_ e. (e, Inr ()))
        else (d, Inr ())) (\<lambda>_ e. throwIfAborted e))))"
    using la by (simp add: answering_def buildRequest_def Let_def)
  then show ?thesis by (simp only:) (rule go_silent [OF pause [OF assms(3)]], rule rest, rule goes_alive)
qed

lemma go_chunks:
  assumes env: "quiet_env env"
  shows "abort_of (ag_phase a) = None \<Longrightarrow> goes_to a [] 0 () (stream_chunks env None n a)"
proof (induction n arbitrary: a)
  case 0
  then show ?case using env by (simp add: Let_def goes_to_def throwIfAborted_def goes_frame)
next
  case (Suc n)
  then have "goes_to a [] 0 () (throwIfAborted (pause env a))"
    using env by (simp add: goes_to_def throwIfAborted_def goes_frame)
  moreover have "goes_to b [] 0 () (stream_chunks env None n (live_push b))" if "abort_of (ag_phase b) = None" for b
  proof -
    have "goes b [] 0 (live_push b)" using that by (simp add: goes_frame)
    moreover from this have "goes_to (live_push b) [] 0 () (stream_chunks env None n (live_push b))"
      by (intro Suc.IH) (rule goes_alive)
    ultimately show ?thesis using goes_silent unfolding goes_to_def by blast
  qed
  ultimately show ?case unfolding stream_chunks.simps(2) by (intro go_silent) (auto simp: goes_alive)
qed

lemma go_stream:
  assumes env: "quiet_env env" and la: "answering la" and alive: "abort_of (ag_phase a) = None"
  shows "goes_to a [] 0 () (stream_attempt env n s la a)"
proof -
  have "goes a [] 0 (live_start n s a)" using alive by (simp add: goes_frame)
  moreover from go_chunks [OF env, of "live_start n s a"] alive obtain b where
    "stream_chunks env None (la_chunks la) (live_start n s a) = (b, Inr ())" "goes (live_start n s a) [] 0 b"
    by (auto simp: goes_to_def)
  ultimately show ?thesis using la alive goes_silent(1)
    by (auto simp: stream_attempt_def answering_def throwIfAborted_def goes_to_def)
qed

lemma go_finish:
  assumes env: "quiet_env env" and la: "answering la" and alive: "abort_of (ag_phase a) = None"
  shows "\<exists>r. finish_attempt env n s la a = Some r \<and> goes_to a [] 1 (StepEnded (Some Completed)) r"
proof -
  from go_append [OF quiet_sound [OF env] alive, of "AssistantMessage n s (la_blocks la)" "JStr ''append''"]
  obtain b where "append_data env (AssistantMessage n s (la_blocks la)) (JStr ''append'') a = (b, Inr (length (ib_log (ag_session a))))"
    "goes a [] 1 b" by (auto simp: goes_to_def)
  moreover from this(2) have "goes a [] 1 (live_end x b)" for x by (simp add: goes_def adds_def)
  ultimately show ?thesis using la
    by (simp add: finish_attempt_def conclude_attempt_def live_settle_def answering_def goes_to_def)
qed

lemma go_step:
  assumes env: "quiet_env env" and alive: "abort_of (ag_phase a) = None"
  shows "\<exists>r. run_step (Suc fuel) env n s st a = Some r \<and> goes_to a [] 1 (Some Completed) r"
proof -
  let ?la = "ae_attempt env (ag_tick a)"
  have la: "answering ?la" using env by (simp add: quiet_env_def)
  from go_build [OF env la alive] obtain b where b: "buildRequest env ?la st a = (b, Inr ())" "goes a [] 0 b" by (auto simp: goes_to_def)
  define c where "c = new_attempt (pause env b)"
  have c: "goes b [] 0 c" using goes_alive [OF b(2)] env by (simp add: c_def goes_frame)
  from go_stream [OF env la goes_alive [OF this]] obtain d where d: "stream_attempt env n s ?la c = (d, Inr ())" "goes c [] 0 d"
    by (auto simp: goes_to_def)
  from go_finish [OF env la goes_alive [OF d(2)]] obtain e where
    e: "finish_attempt env n s ?la d = Some (e, Inr (StepEnded (Some Completed)))" "goes d [] 1 e" by (auto simp: goes_to_def)
  have "run_step (Suc fuel) env n s st a = Some (e, Inr (Some Completed))"
    using alive b(1) d(1) e(1) by (simp add: run_step_def throwIfAborted_def awaiting_def c_def Let_def)
  moreover have "goes a [] 1 e" using b(2) c d(2) e(2) goes_silent(1) by blast
  ultimately show ?thesis by (auto simp: goes_to_def)
qed

section \<open>Claims\<close>

definition wordless :: "inbox_session \<Rightarrow> inbox_session \<Rightarrow> bool" where
  "wordless s s' \<longleftrightarrow> (\<exists>x. ib_log s' = ib_log s @ x \<and> list_all is_splice x)"

lemma wordless_refl [simp]: "wordless s s" "wordless s (s'\<lparr>ib_signals := sg\<rparr>) = wordless s s'"
  by (simp_all add: wordless_def exI [of _ "[]"])

lemma wordless_trans: "wordless s s' \<Longrightarrow> wordless s' s'' \<Longrightarrow> wordless s s''"
  unfolding wordless_def by fastforce

lemma mutate_wordless: "wordless s (fst (mutate env t a d ins dis s))"
proof -
  have "wordless s (s\<lparr>ib_log := ib_log s @ [log_event k now (InboxSpliced sp)], ib_signals := sg\<rparr>)" for k now sp sg
    by (auto simp: wordless_def is_splice_def)
  then show ?thesis by (simp add: mutate_def Let_def split: sum.split option.split)
qed

lemma then_run_wordless:
  assumes "wordless s (fst r)" "\<And>x s'. wordless s' (fst (f x s'))"
  shows "wordless s (fst (then_run r f))"
proof (cases r)
  case (Pair s' v)
  with assms show ?thesis by (cases v) (auto intro: wordless_trans)
qed

lemma claim_wordless: "wordless s (fst (claim env t n s))"
  unfolding claim_def by (intro then_run_wordless) (simp_all add: mutate_wordless)

lemma wordless_said:
  assumes "list_all is_splice x"
  shows "said x = []" "answers x = 0"
  using assms by (auto intro!: map_filter_none simp: list_all_iff is_splice_def user_said_def answer_def filter_empty_conv
      split: event_data.splits)

section \<open>One turn\<close>

text \<open>The batch of a turn boundary, and what stays queued.\<close>

definition batch_of :: "inbox_state \<Rightarrow> user_message list" where
  "batch_of st = next_step st @ take 1 (next_turn st)"

definition left_of :: "inbox_state \<Rightarrow> inbox_state" where
  "left_of st = \<lparr>next_turn = drop 1 (next_turn st), next_step = []\<rparr>"

text \<open>From \<open>a\<close> to \<open>b\<close> the log gains \<open>ms\<close> and \<open>k\<close> answers, and the inbox becomes \<open>st\<close>.\<close>

definition moves :: "agent \<Rightarrow> user_message list \<Rightarrow> nat \<Rightarrow> inbox_state \<Rightarrow> agent \<Rightarrow> bool" where
  "moves a ms k st b \<longleftrightarrow> (\<exists>x. ib_log (ag_session b) = ib_log (ag_session a) @ x \<and> said x = ms \<and> answers x = k)
     \<and> current (ag_session b) = Inr st"

lemma moves_adds: "moves a ms k st b \<Longrightarrow> adds b ms' k' c \<Longrightarrow> moves a (ms @ ms') (k + k') st c"
  unfolding moves_def adds_def by fastforce

lemma adds_moves: "adds a ms k b \<Longrightarrow> moves b ms' k' st c \<Longrightarrow> moves a (ms @ ms') (k + k') st c"
  unfolding moves_def adds_def by fastforce

lemma moves_trans: "moves a ms k st b \<Longrightarrow> moves b ms' k' st' c \<Longrightarrow> moves a (ms @ ms') (k + k') st' c"
  unfolding moves_def by fastforce

lemma moves_current: "moves a ms k st b \<Longrightarrow> current (ag_session b) = Inr st"
  by (simp add: moves_def)

lemma go_prestep:
  assumes env: "quiet_env env" and alive: "abort_of (ag_phase a) = None" and cur: "current (ag_session a) = Inr st"
  shows "\<exists>b. preStep env NextTurn n a = (b, Inr (EnterStep (batch_of st) False)) \<and> ag_phase b = ag_phase a
    \<and> moves a [] 0 (left_of st) b"
proof -
  have "admits_all (ae_inbox env)" using env by (simp add: quiet_env_def)
  from claim_effect [OF cur this, of NextTurn n] obtain s where s: "claim (ae_inbox env) NextTurn n (ag_session a) = (s, Inr (batch_of st))"
    "current s = Inr (left_of st)" by (auto simp: Let_def batch_of_def left_of_def)
  with claim_wordless [of "ag_session a" "ae_inbox env" NextTurn n] obtain x where
    x: "ib_log s = ib_log (ag_session a) @ x" "list_all is_splice x" by (auto simp: wordless_def)
  have "preStep env NextTurn n a = (a\<lparr>ag_session := s, ag_tick := ag_tick a + 2\<rparr>, Inr (EnterStep (batch_of st) False))"
    using env env [unfolded quiet_env_def] alive s(1)
    by (simp add: preStep_def on_inbox_def Let_def throwIfAborted_def)
  with x s(2) wordless_said [OF x(2)] show ?thesis by (simp add: moves_def)
qed

lemma go_messages:
  assumes env: "sound_env env"
  shows "abort_of (ag_phase a) = None \<Longrightarrow> goes_to a ms 0 () (append_messages env ms a)"
proof (induction ms arbitrary: a)
  case Nil
  then show ?case by (simp add: goes_to_here)
next
  case (Cons m ms)
  from go_append [OF env Cons.prems, of "UserMessage m" "JStr ''append''"] obtain b k where
    b: "append_data env (UserMessage m) (JStr ''append'') a = (b, Inr k)" "goes a [m] 0 b" by (auto simp: goes_to_def)
  from Cons.IH [OF goes_alive [OF b(2)]] obtain c where c: "append_messages env ms b = (c, Inr ())" "goes b ms 0 c"
    by (auto simp: goes_to_def)
  from goes_trans [OF b(2) c(2)] b(1) c(1) show ?case by (simp add: goes_to_def)
qed

lemma go_enter:
  assumes env: "quiet_env env" and at: "ag_phase a = Running n k w None"
  shows "\<exists>b. enter_step (Suc fuel) env n s ms st a = Some (b, Inr (Some Completed)) \<and> adds a ms 1 b \<and> ag_phase b = Running n s w None"
proof -
  note sound = quiet_sound [OF env]
  from go_append [OF sound, of a "StepStart n s" JUndef] at obtain a1 where
    a1: "append_data env (StepStart n s) JUndef a = (a1, Inr (length (ib_log (ag_session a))))" "goes a [] 0 a1"
    by (auto simp: goes_to_def)
  define a2 where "a2 = a1\<lparr>ag_phase := set_step s (ag_phase a1)\<rparr>"
  have a2: "adds a [] 0 a2" "ag_phase a2 = Running n s w None" using a1(2) at by (simp_all add: a2_def goes_def adds_def)
  from go_messages [OF sound, of a2 ms] a2(2) obtain a3 where a3: "append_messages env ms a2 = (a3, Inr ())" "goes a2 ms 0 a3"
    by (auto simp: goes_to_def)
  from go_step [OF env goes_alive [OF a3(2)], of fuel n s st] obtain a4 where
    a4: "run_step (Suc fuel) env n s st a3 = Some (a4, Inr (Some Completed))" "goes a3 [] 1 a4" by (auto simp: goes_to_def)
  have a4': "goes a4 [] 0 (pause env a4)" using goes_alive [OF a4(2)] env by (simp add: goes_frame)
  from go_append [OF sound goes_alive [OF this], of "StepEnd n s" JUndef] obtain b k where
    b: "append_data env (StepEnd n s) JUndef (pause env a4) = (b, Inr k)" "goes (pause env a4) [] 0 b"
    by (auto simp: goes_to_def)
  have "goes a2 ms 1 a4" using goes_trans [OF a3(2) a4(2)] by simp
  from goes_silent(2) [OF goes_silent(2) [OF this a4'] b(2)] have "goes a2 ms 1 b" .
  then have "adds a ms 1 b" "ag_phase b = Running n s w None" using adds_trans [OF a2(1), of ms 1 b] a2(2) by (simp_all add: goes_def)
  moreover have "enter_step (Suc fuel) env n s ms st a = Some (b, Inr (Some Completed))"
    using a1(1) a3(1) a4(1) b(1) by (simp add: enter_step_def a2_def [symmetric] end_step_def awaiting_def del: quiet_pause)
  ultimately show ?thesis by blast
qed

lemma go_stops:
  assumes env: "quiet_env env" and cur: "current (ag_session a) = Inr (left_of st)" and alive: "abort_of (ag_phase a) = None"
  shows "\<exists>b. turn_stops env (Some Completed) a = (b, Inr True) \<and> goes a [] 0 b"
  using env env [unfolded quiet_env_def] cur alive
  by (simp add: turn_stops_def next_step_empty_def left_of_def throwIfAborted_def Let_def goes_frame)

lemma go_turn_loop:
  assumes env: "quiet_env env" and at: "ag_phase a = Running n 0 w None" and cur: "current (ag_session a) = Inr st"
    and ne: "batch_of st \<noteq> []"
  shows "\<exists>b. turn_loop (Suc (Suc fuel)) env n NextTurn None a = Some (b, Inr (BreakTurn Completed))
    \<and> moves a (batch_of st) 1 (left_of st) b \<and> ag_phase b = Running n 1 w None"
proof -
  from go_prestep [OF env _ cur, of n] at obtain a1 where
    a1: "preStep env NextTurn n a = (a1, Inr (EnterStep (batch_of st) False))" "ag_phase a1 = ag_phase a" "moves a [] 0 (left_of st) a1"
    by auto
  define a2 where "a2 = pause env a1"
  have a2: "ag_phase a2 = Running n 0 w None" "adds a1 [] 0 a2" using env at a1(2) by (simp_all add: a2_def adds_same)
  from go_enter [OF env this(1), of fuel 1 "batch_of st" False] obtain a3 where
    a3: "enter_step (Suc fuel) env n 1 (batch_of st) False a2 = Some (a3, Inr (Some Completed))" "adds a2 (batch_of st) 1 a3"
      "ag_phase a3 = Running n 1 w None" by auto
  from moves_adds [OF moves_adds [OF a1(3) a2(2)] a3(2)] have m3: "moves a (batch_of st) 1 (left_of st) a3" by simp
  from go_stops [OF env moves_current [OF this]] a3(3) obtain b where
    b: "turn_stops env (Some Completed) a3 = (b, Inr True)" "goes a3 [] 0 b" by auto
  from b(2) a3(3) have "adds a3 [] 0 b" "ag_phase b = Running n 1 w None" by (simp_all add: goes_def)
  moreover from moves_adds [OF m3 this(1)] have "moves a (batch_of st) 1 (left_of st) b" by simp
  moreover have "turn_loop (Suc (Suc fuel)) env n NextTurn None a = Some (b, Inr (BreakTurn Completed))"
    using at a1(1) a2(1) a3(1,3) b(1) ne
    by (simp add: throwIfAborted_def awaiting_def a2_def [symmetric] Let_def del: quiet_pause turn_loop.simps
        add: turn_loop.simps(2) [of "Suc fuel"])
  ultimately show ?thesis by blast
qed

text \<open>Closing a turn.\<close>

lemma go_close:
  assumes env: "sound_env env" and alive: "abort_of (ag_phase a) = None"
  shows "\<exists>b. close_turn env n reason r a = (b, r) \<and> adds a [] 0 b \<and> ag_phase b = ag_phase a"
  using go_append [OF env alive, of "TurnEnd n reason" JUndef] by (auto simp: goes_to_def goes_def close_turn_def)

lemma quiet_turn:
  assumes env: "quiet_env env" and at: "ag_phase a = Running n 0 False None" and cur: "current (ag_session a) = Inr st"
    and ne: "batch_of st \<noteq> []"
  shows "\<exists>b k. run_turn (Suc (Suc fuel)) env a = Some (b, Inr (drop 1 (next_turn st) \<noteq> []))
    \<and> moves a (batch_of st) 1 (left_of st) b \<and> ag_phase b = Running (n + 1) k False None
    \<and> (drop 1 (next_turn st) \<noteq> [] \<longrightarrow> k = 0)"
proof -
  note sound = quiet_sound [OF env]
  from go_append [OF sound, of a "TurnStart (n + 1)" JUndef] at obtain a1 k where
    a1: "append_data env (TurnStart (n + 1)) JUndef a = (a1, Inr k)" "goes a [] 0 a1" by (auto simp: goes_to_def)
  define a2 where "a2 = a1\<lparr>ag_phase := set_turn (n + 1) (ag_phase a1)\<rparr>"
  have a2: "adds a [] 0 a2" "ag_phase a2 = Running (n + 1) 0 False None" using a1(2) at by (simp_all add: a2_def goes_def adds_def)
  then have "current (ag_session a2) = Inr st" using cur by (simp add: adds_def)
  from go_turn_loop [OF env a2(2) this ne, of fuel] obtain a3 where
    a3: "turn_loop (Suc (Suc fuel)) env (n + 1) NextTurn None a2 = Some (a3, Inr (BreakTurn Completed))"
      "moves a2 (batch_of st) 1 (left_of st) a3" "ag_phase a3 = Running (n + 1) 1 False None" by auto
  from go_close [OF sound, of a3 "n + 1" Completed "Inr True"] a3(3) obtain a4 where
    a4: "close_turn env (n + 1) Completed (Inr True) a3 = (a4, Inr True)" "adds a3 [] 0 a4" "ag_phase a4 = Running (n + 1) 1 False None"
    by auto
  from adds_moves [OF a2(1) moves_adds [OF a3(2) a4(2)]] have m: "moves a (batch_of st) 1 (left_of st) a4" by simp
  let ?more = "drop 1 (next_turn st) \<noteq> []"
  have "hasPending (ag_session a4) = Inr ?more" using moves_current [OF m] by (simp add: hasPending_def left_of_def)
  then have ended: "end_turn env (n + 1) (a3, Inr (BreakTurn Completed))
      = (if ?more then a4\<lparr>ag_phase := Running (n + 1) 0 False None\<rparr> else a4, Inr ?more)"
    using a4(1,3) by (simp add: end_turn_def agent_pending_def)
  have "run_turn (Suc (Suc fuel)) env a = Some (if ?more then a4\<lparr>ag_phase := Running (n + 1) 0 False None\<rparr> else a4, Inr ?more)"
    using at a1(1) a3(1) ended by (simp add: run_turn_def throwIfAborted_def a2_def [symmetric] Let_def del: turn_loop.simps)
  moreover have "moves a (batch_of st) 1 (left_of st) (a4\<lparr>ag_phase := p\<rparr>)" for p using m by (simp add: moves_def)
  ultimately show ?thesis using m a4(3) by auto
qed

section \<open>The queue\<close>

abbreviation turns_of :: "inbox_state \<Rightarrow> nat" where
  "turns_of st \<equiv> max 1 (length (next_turn st))"

lemma quiet_drive:
  assumes env: "quiet_env env"
  shows "ag_phase a = Running n 0 False None \<Longrightarrow> current (ag_session a) = Inr st \<Longrightarrow> batch_of st \<noteq> [] \<Longrightarrow> turns_of st + 2 \<le> fuel
    \<Longrightarrow> \<exists>b k. drive_turns fuel env a = Some b \<and> moves a (next_step st @ next_turn st) (turns_of st) inbox_init b
      \<and> ag_phase b = Running (n + int (turns_of st)) k False None"
proof (induction "length (next_turn st)" arbitrary: a n st fuel rule: less_induct)
  case less
  from less.prems(4) have "3 \<le> fuel" by simp
  then obtain f where f: "fuel = Suc (Suc (Suc f))" by (auto simp: le_iff_add numeral_3_eq_3)
  let ?more = "drop 1 (next_turn st) \<noteq> []"
  from quiet_turn [OF env less.prems(1-3), of f] obtain b k where
    b: "run_turn (Suc (Suc f)) env a = Some (b, Inr ?more)" "moves a (batch_of st) 1 (left_of st) b"
      "ag_phase b = Running (n + 1) k False None" "?more \<Longrightarrow> k = 0" by auto
  define c where "c = pause env b"
  have "adds b [] 0 c" "ag_phase c = ag_phase b" using env by (simp_all add: c_def adds_same)
  with moves_adds [OF b(2)] have m: "moves a (batch_of st) 1 (left_of st) c" by fastforce
  show ?case
  proof (cases ?more)
    case False
    then have "batch_of st = next_step st @ next_turn st" "left_of st = inbox_init" "turns_of st = 1"
      by (auto simp: batch_of_def left_of_def inbox_init_def)
    with False f b(1,3) m \<open>ag_phase c = ag_phase b\<close> show ?thesis by (simp add: awaiting_def c_def [symmetric] del: quiet_pause)
  next
    case True
    let ?st = "left_of st"
    have smaller: "length (next_turn ?st) < length (next_turn st)" "turns_of ?st + 1 = turns_of st" "batch_of ?st \<noteq> []"
      using True by (auto simp: left_of_def batch_of_def)
    have said: "batch_of st @ next_step ?st @ next_turn ?st = next_step st @ next_turn st"
      by (simp add: batch_of_def left_of_def flip: append_assoc) (metis append_take_drop_id append.assoc take_Suc_Cons drop_Suc)
    have "ag_phase c = Running (n + 1) 0 False None" using b(3,4) True \<open>ag_phase c = ag_phase b\<close> by simp
    moreover have "turns_of ?st + 2 \<le> Suc (Suc f)" using smaller(2) less.prems(4) f by simp
    ultimately obtain d j where d: "drive_turns (Suc (Suc f)) env c = Some d" "moves c (next_step ?st @ next_turn ?st) (turns_of ?st) inbox_init d"
      "ag_phase d = Running (n + 1 + int (turns_of ?st)) j False None"
      using less.hyps [OF smaller(1) _ moves_current [OF m] smaller(3)] by blast
    have "drive_turns fuel env a = Some d"
      using f b(1) True d(1) by (simp add: awaiting_def c_def [symmetric] del: quiet_pause)
    moreover have "moves a (next_step st @ next_turn st) (turns_of st) inbox_init d"
      using moves_trans [OF m d(2)] said smaller(2) by (simp add: add.commute)
    moreover have "n + 1 + int (turns_of ?st) = n + int (turns_of st)" using smaller(2) by linarith
    ultimately show ?thesis using d(3) by auto
  qed
qed

lemma quiet_kick:
  assumes env: "quiet_env env" and at: "ag_phase a = Running n 0 False None" and cur: "current (ag_session a) = Inr st"
    and "pending st \<noteq> []" and fuel: "turns_of st + 3 \<le> fuel"
  shows "\<exists>b. kick fuel env a = Some b \<and> moves a (next_step st @ next_turn st) (turns_of st) inbox_init b
    \<and> ag_phase b = Idle (n + int (turns_of st))"
proof -
  have "batch_of st \<noteq> []" using assms(4) by (auto simp: batch_of_def pending_def)
  moreover obtain f where f: "fuel = Suc f" "turns_of st + 2 \<le> f" using fuel by (cases fuel) auto
  ultimately obtain b k where b: "drive_turns f env a = Some b" "moves a (next_step st @ next_turn st) (turns_of st) inbox_init b"
    "ag_phase b = Running (n + int (turns_of st)) k False None"
    using quiet_drive [OF env at cur, of f] by auto
  then have "kick fuel env a = Some (setPhase (Idle (n + int (turns_of st))) b)"
    using f by (simp add: finish_drive_def retire_def)
  with b(2) show ?thesis by (simp add: moves_def)
qed


definition polite_env :: agent_env where
  "polite_env = sample_driver_env (\<lambda>k. []) (\<lambda>k. [OtherBlock JUndef])"

lemma polite_quiet: "quiet_env polite_env"
  unfolding quiet_env_def polite_env_def
  by (intro conjI sample_driver_sound)
    (auto simp: sample_driver_env_def tool_calls_def List.map_filter_def answering_def sample_llm_def admits_all_def sample_env_def)


section \<open>At rest\<close>

text \<open>C3: Whatever is sent to an agent, interrupts it, fails inside it or is cancelled, when it is at rest
  its log is accepted by the relational invariant and no turn is open, so that there is nothing to repair;
  the next turn is numbered after the last one the agent remembers.\<close>

theorem driver_closes_turns:
  assumes "sound_env env" "at_rest n a" "\<And>d. ForeignAppend d \<in> set cs \<Longrightarrow> neutral_data d"
    and "commands fuel env cs a = Some b"
  shows "\<exists>t. seedSession (ib_log (ag_session b)) = Inr t \<and> openTurn t = None \<and> openStep t = None
    \<and> pendingCalls t = {} \<and> nextTurn t = last_turn (ag_phase b) + 1
    \<and> interruptedTurnClosers (ib_log (ag_session b)) = [] \<and> \<not> running (ag_phase b)"
proof -
  from commands_leave [OF assms(1,2,3,4)] obtain m where m: "at_rest m b" by blast
  then obtain t where t: "trace_at (ib_log (ag_session b)) t" "openTurn t = None" "nextTurn t = m + 1"
    by (auto simp: at_rest_def idle_at_def)
  from trace_at_inv [OF t(1)] t(2) have "openStep t = None" "pendingCalls t = {}" by (simp_all add: trace_inv_def)
  moreover have "interruptedTurnClosers (ib_log (ag_session b)) = []"
    using agrees_accepted [of "ib_log (ag_session b)" t] t by (simp add: trace_at_def interruptedTurnClosers_def agrees_def)
  ultimately show ?thesis using t m by (auto simp: trace_at_def at_rest_def)
qed

text \<open>Input is queued while a maintenance task runs; its wake is latched and replayed when the task settles.\<close>

definition rest_commands :: "agent_command list" where
  "rest_commands = [SendCmd (sample_message ''one'') NextTurn False, BeginMaintenance,
     SendCmd (sample_message ''two'') NextTurn True, EndMaintenance]"

lemma polite_rest:
  "\<exists>b. commands 6 polite_env rest_commands (sample_agent \<lparr>ib_log = [], ib_signals = []\<rparr>) = Some b \<and> ag_phase b = Idle 2"
proof -
  let ?a = "sample_agent \<lparr>ib_log = [], ib_signals = []\<rparr>"
  define a where "a k = foldl (deliver polite_env) ?a (take k rest_commands)" for k
  have still: "\<not> running (ag_phase (a 1))" "\<not> running (ag_phase (a 2))" "\<not> running (ag_phase (a 3))"
    unfolding a_def by code_simp+
  have woken: "ag_phase (a 4) = Running 0 0 False None" unfolding a_def by code_simp
  have queue: "current (ag_session (a 4)) = Inr \<lparr>next_turn = [sample_message ''one'', sample_message ''two''], next_step = []\<rparr>"
    unfolding a_def by code_simp
  from quiet_kick [OF polite_quiet woken queue, of 6] obtain b where b: "kick 6 polite_env (a 4) = Some b" "ag_phase b = Idle 2"
    by (auto simp: pending_def)
  have "commands 6 polite_env rest_commands ?a = Some b"
    using still woken b(1) by (simp add: rest_commands_def command_def a_def Let_def)
  with b(2) show ?thesis by blast
qed

theorem driver_closes_turns_witness:
  "\<exists>b t. commands 6 polite_env rest_commands (sample_agent \<lparr>ib_log = [], ib_signals = []\<rparr>) = Some b
     \<and> ag_phase b = Idle 2 \<and> seedSession (ib_log (ag_session b)) = Inr t \<and> openTurn t = None \<and> nextTurn t = 3
     \<and> interruptedTurnClosers (ib_log (ag_session b)) = []"
proof -
  let ?a = "sample_agent \<lparr>ib_log = [], ib_signals = []\<rparr>"
  from polite_rest obtain b where "commands 6 polite_env rest_commands ?a = Some b" "ag_phase b = Idle 2" by blast
  moreover have "at_rest 0 ?a"
    by (auto simp: at_rest_def sample_agent_def idle_at_def trace_at_def seedSession_def freshTrace_def)
  moreover have "ForeignAppend d \<notin> set rest_commands" for d by (simp add: rest_commands_def)
  ultimately show ?thesis using driver_closes_turns [OF quiet_sound [OF polite_quiet], of 0 ?a rest_commands 6 b] by auto
qed

end
