(* ===== verification/Driver_Frames.thy ===== *)
theory Driver_Frames
  imports Driver_Queue
begin

text \<open>
  The transient frames that the driver publishes for live viewers: every attempt that was started is ended
  exactly once, before the next one starts, its chunks are numbered from zero without gaps, and revisions
  count up by one, whatever the session refuses, others do meanwhile or the model fails with.
\<close>

section \<open>Well-formed frames\<close>

definition frame_of :: "agent_signal \<Rightarrow> stream_frame option" where
  "frame_of s = (case s of FrameSent f \<Rightarrow> Some f | _ \<Rightarrow> None)"

abbreviation frames_of :: "agent_signal list \<Rightarrow> stream_frame list" where
  "frames_of \<equiv> List.map_filter frame_of"

text \<open>A viewer knows the last revision and attempt, and the chunks of the attempt while it is open.\<close>

fun view_frame :: "nat \<times> nat \<times> nat option \<Rightarrow> stream_frame \<Rightarrow> unit + nat \<times> nat \<times> nat option" where
  "view_frame (r, k, None) (StartFrame a v t s) = (if v = r + 1 \<and> k < a then Inr (v, a, Some 0) else Inl ())"
| "view_frame (r, k, Some i) (ChunkFrame a v j) = (if v = r + 1 \<and> a = k \<and> j = i then Inr (v, k, Some (i + 1)) else Inl ())"
| "view_frame (r, k, Some i) (EndFrame a v j x) = (if v = r + 1 \<and> a = k \<and> j = i then Inr (v, k, None) else Inl ())"
| "view_frame st f = Inl ()"

definition viewed :: "agent_signal list \<Rightarrow> unit + nat \<times> nat \<times> nat option" where
  "viewed ss = fold_res view_frame (0, 0, None) (frames_of ss)"

lemma viewed_snoc: "viewed (ss @ [s]) = (case frame_of s of None \<Rightarrow> viewed ss
    | Some f \<Rightarrow> bind_res (viewed ss) (\<lambda>v. view_frame v f))"
  by (simp add: viewed_def map_filter_single fold_res_append bind_res_def split: option.split sum.split)

text \<open>No attempt is open; or the attempt at hand is.\<close>

definition frames_closed :: "agent \<Rightarrow> bool" where
  "frames_closed a \<longleftrightarrow> (\<exists>k. viewed (ag_signals a) = Inr (ag_revision a, k, None) \<and> k \<le> ag_attempts a)"

definition frames_open :: "agent \<Rightarrow> bool" where
  "frames_open a \<longleftrightarrow> viewed (ag_signals a) = Inr (ag_revision a, ag_attempts a, Some (lv_index (ag_live a)))
     \<and> lv_attempt (ag_live a) = ag_attempts a \<and> \<not> lv_terminal (ag_live a)"

section \<open>Operations without frames\<close>

definition same_frames :: "agent \<Rightarrow> agent \<Rightarrow> bool" where
  "same_frames a b \<longleftrightarrow> viewed (ag_signals b) = viewed (ag_signals a) \<and> ag_revision b = ag_revision a
     \<and> ag_attempts b = ag_attempts a \<and> ag_live b = ag_live a"

lemma same_frames_keep:
  assumes "same_frames a b"
  shows "frames_closed b = frames_closed a" "frames_open b = frames_open a"
  using assms by (simp_all add: same_frames_def frames_closed_def frames_open_def)

lemma same_frames_refl [simp]: "same_frames a a"
  by (simp add: same_frames_def)

lemma same_frames_trans: "same_frames a b \<Longrightarrow> same_frames b c \<Longrightarrow> same_frames a c"
  by (simp add: same_frames_def)

lemma same_frames_update [simp]:
  "same_frames a (b\<lparr>ag_phase := p\<rparr>) = same_frames a b" "same_frames a (b\<lparr>ag_session := s\<rparr>) = same_frames a b"
  "same_frames a (b\<lparr>ag_tick := t\<rparr>) = same_frames a b" "same_frames a (b\<lparr>ag_headerLogged := h\<rparr>) = same_frames a b"
  "same_frames a (b\<lparr>ag_generation := g\<rparr>) = same_frames a b"
  by (simp_all add: same_frames_def)

lemma same_frames_run:
  assumes "same_frames a (fst r)" "\<And>x b. same_frames a b \<Longrightarrow> same_frames a (fst (f x b))"
  shows "same_frames a (fst (then_run r f))"
  using assms by (cases r; cases "snd r") auto

lemma setPhase_unframed: "same_frames a b \<Longrightarrow> same_frames a (setPhase p b)"
  by (simp add: setPhase_def same_frames_def viewed_snoc frame_of_def Let_def)

lemma report_error_unframed: "same_frames a b \<Longrightarrow> same_frames a (report_error e b)"
  by (simp add: report_error_def same_frames_def viewed_snoc frame_of_def)

lemma append_data_unframed: "same_frames a b \<Longrightarrow> same_frames a (fst (append_data env d op b))"
  by (simp add: append_data_def)

lemma on_inbox_unframed: "same_frames a b \<Longrightarrow> same_frames a (fst (on_inbox f b))"
  by (auto simp: on_inbox_def split: prod.split sum.split)

lemma wakeDriver_unframed: "same_frames a b \<Longrightarrow> same_frames a (wakeDriver w b)"
  by (auto simp: wakeDriver_def split: agent_phase.split intro: setPhase_unframed)

lemma throwIfAborted_unframed: "same_frames a b \<Longrightarrow> same_frames a (fst (throwIfAborted b))"
  by simp

lemma send_unframed: "same_frames a b \<Longrightarrow> same_frames a (fst (send env m t w b))"
  unfolding send_def Let_def by (intro same_frames_run on_inbox_unframed) (auto intro: wakeDriver_unframed)

lemma cancel_unframed: "same_frames a b \<Longrightarrow> same_frames a (fst (cancel env c k b))"
  unfolding cancel_def by (intro same_frames_run) (auto intro!: same_frames_run on_inbox_unframed)

lemma retire_unframed: "same_frames a b \<Longrightarrow> same_frames a (retire n w b)"
  by (auto simp: retire_def Let_def intro: setPhase_unframed wakeDriver_unframed)

lemma deliver_unframed: "same_frames a b \<Longrightarrow> same_frames a (deliver env b c)"
  by (cases c) (auto simp: deliver_def begin_maintenance_def end_maintenance_def split: agent_phase.split
      intro: send_unframed cancel_unframed append_data_unframed setPhase_unframed retire_unframed)

lemma pause_unframed: "same_frames a b \<Longrightarrow> same_frames a (pause env b)"
proof -
  have all: "same_frames a b \<Longrightarrow> same_frames a (foldl (deliver env) b cs)" for b cs
    by (induction cs arbitrary: b) (simp_all add: deliver_unframed)
  assume "same_frames a b"
  then show ?thesis unfolding pause_def by (intro all) simp
qed

lemmas unframed_ops = same_frames_run throwIfAborted_unframed append_data_unframed on_inbox_unframed pause_unframed
  report_error_unframed

lemma log_header_unframed: "same_frames a b \<Longrightarrow> same_frames a (fst (log_header env la st g b))"
  unfolding log_header_def Let_def by (auto intro!: unframed_ops)

lemma buildRequest_unframed: "same_frames a b \<Longrightarrow> same_frames a (fst (buildRequest env la st b))"
  unfolding buildRequest_def Let_def
  by (cases "la_refuse la") (auto intro!: unframed_ops log_header_unframed)

lemma recover_unframed: "same_frames a b \<Longrightarrow> same_frames a (fst (recover_attempt env n s la failure b))"
  unfolding recover_attempt_def Let_def by (auto split: prod.split sum.split intro!: unframed_ops)

lemma run_calls_unframed: "same_frames a b \<Longrightarrow> run_calls env n s calls b = Some r \<Longrightarrow> same_frames a (fst r)"
  by (auto simp: run_calls_def Let_def intro!: pause_unframed)

lemma preStep_unframed: "same_frames a b \<Longrightarrow> same_frames a (fst (preStep env t n b))"
  unfolding preStep_def Let_def by (auto split: option.split sum.split intro!: unframed_ops)

lemma append_messages_unframed: "same_frames a b \<Longrightarrow> same_frames a (fst (append_messages env ms b))"
  by (induction ms arbitrary: b) (auto intro!: unframed_ops)

lemma turn_stops_unframed: "same_frames a b \<Longrightarrow> same_frames a (fst (turn_stops env ends b))"
  unfolding turn_stops_def next_step_empty_def Let_def by (auto split: option.split intro!: unframed_ops)

lemma close_turn_unframed: "same_frames a b \<Longrightarrow> same_frames a (fst (close_turn env n reason r b))"
  using append_data_unframed [of a b env "TurnEnd n reason" JUndef]
  by (auto simp: close_turn_def throwError_def split: prod.split sum.split intro: report_error_unframed)

lemma end_turn_unframed: "same_frames a b \<Longrightarrow> same_frames a (fst (end_turn env n (b, r)))"
  by (cases r) (auto simp: end_turn_def agent_pending_def split: turn_flow.split
      intro!: close_turn_unframed report_error_unframed same_frames_run)

section \<open>The frames of an attempt\<close>

definition frames_fresh :: "agent \<Rightarrow> bool" where
  "frames_fresh a \<longleftrightarrow> (\<exists>k. viewed (ag_signals a) = Inr (ag_revision a, k, None) \<and> k < ag_attempts a)
     \<and> lv_attempt (ag_live a) = ag_attempts a \<and> lv_index (ag_live a) = 0 \<and> \<not> lv_terminal (ag_live a)"

definition frames_ended :: "agent \<Rightarrow> bool" where
  "frames_ended a \<longleftrightarrow> frames_closed a \<and> lv_terminal (ag_live a)"

lemma same_frames_keeps:
  assumes "same_frames a b"
  shows "frames_closed a \<Longrightarrow> frames_closed b" "frames_open a \<Longrightarrow> frames_open b"
    "frames_fresh a \<Longrightarrow> frames_fresh b" "frames_ended a \<Longrightarrow> frames_ended b"
  using assms by (simp_all add: same_frames_def frames_closed_def frames_open_def frames_fresh_def frames_ended_def)

lemma new_attempt_fresh: "frames_closed a \<Longrightarrow> frames_fresh (new_attempt a)"
  by (auto simp: frames_closed_def frames_fresh_def new_attempt_def le_imp_less_Suc)

lemma fresh_closed: "frames_fresh a \<Longrightarrow> frames_closed a"
  by (auto simp: frames_closed_def frames_fresh_def less_imp_le)

lemma live_start_open: "frames_fresh a \<Longrightarrow> frames_open (live_start n s a)"
  by (auto simp: frames_fresh_def frames_open_def live_start_def emit_frame_def viewed_snoc frame_of_def)

lemma live_push_open: "frames_open a \<Longrightarrow> frames_open (live_push a)"
  by (auto simp: frames_open_def live_push_def emit_frame_def viewed_snoc frame_of_def)

lemma live_end_ended: "frames_open a \<Longrightarrow> frames_ended (live_end x a)"
  by (auto simp: frames_open_def frames_ended_def frames_closed_def live_end_def emit_frame_def viewed_snoc frame_of_def)

lemma settle_ended:
  assumes "frames_open a"
  shows "frames_ended (fst (live_settle env t d op a))"
proof -
  have "frames_open (fst (append_data env d op a))"
    using same_frames_keeps(2) [OF append_data_unframed [OF same_frames_refl]] assms .
  then show ?thesis by (auto simp: live_settle_def live_abandon_def split: prod.split sum.split intro: live_end_ended)
qed

lemma chunks_open: "frames_open a \<Longrightarrow> frames_open (fst (stream_chunks env broken n a))"
proof (induction n arbitrary: a)
  case 0
  then show ?case using same_frames_keeps(2) [OF pause_unframed [OF same_frames_refl]]
    by (simp add: Let_def split: option.split)
next
  case (Suc n)
  then have "frames_open (pause env a)" using same_frames_keeps(2) [OF pause_unframed [OF same_frames_refl]] by blast
  with Suc.IH [of "live_push (pause env a)"] live_push_open show ?case
    by (simp add: throwIfAborted_def split: option.split)
qed

lemma stream_frames:
  assumes "frames_fresh a" "stream_attempt env n s la a = (b, r)"
  shows "case r of Inl err \<Rightarrow> frames_closed b | Inr u \<Rightarrow> frames_open b"
proof (cases "la_open la = None \<and> abort_of (ag_phase a) = None")
  case False
  with assms fresh_closed show ?thesis
    by (cases "la_open la") (auto simp: stream_attempt_def throwIfAborted_def)
next
  case True
  obtain c v where c: "stream_chunks env (la_broken la) (la_chunks la) (live_start n s a) = (c, v)" by fastforce
  with chunks_open [OF live_start_open [OF assms(1)], of env "la_broken la" "la_chunks la" n s] have o: "frames_open c" by simp
  show ?thesis
  proof (cases v)
    case (Inr u)
    with True c o assms(2) show ?thesis by (auto simp: stream_attempt_def throwIfAborted_def)
  next
    case (Inl err)
    with True c assms(2) have "settle_broken env n s la err c = (b, r)" by (auto simp: stream_attempt_def throwIfAborted_def)
    moreover have "frames_ended (fst (settle_broken env n s la err c)) \<and> isl (snd (settle_broken env n s la err c))"
      using settle_ended [OF o, of env "''assistant/message''" "AssistantMessage n s (la_interrupted la)" "JStr ''append''"]
        settle_ended [OF o, of env "''assistant/attempt''" "AssistantAttempt n s" JUndef]
      by (auto simp: settle_broken_def split: prod.split sum.split)
    ultimately show ?thesis by (cases r) (auto simp: frames_ended_def)
  qed
qed

lemma finish_frames:
  assumes "frames_open a" "finish_attempt env n s la a = Some r"
  shows "frames_closed (fst r)"
proof -
  from assms(2) obtain b v where b: "conclude_attempt env n s la a = Some (b, v)"
    "r = (case v of Inl err \<Rightarrow> if lv_terminal (ag_live b) then b else live_abandon b | Inr x \<Rightarrow> b, v)"
    by (auto simp: finish_attempt_def)
  have "frames_ended b"
  proof (cases "\<exists>failure. la_finish la = FailedWith failure")
    case True
    then obtain failure where f: "la_finish la = FailedWith failure" by blast
    obtain c w where c: "live_settle env ''assistant/attempt'' (AssistantAttempt n s) JUndef a = (c, w)" by fastforce
    with settle_ended [OF assms(1), of env "''assistant/attempt''" "AssistantAttempt n s" JUndef] have "frames_ended c" by simp
    moreover obtain d x where d: "recover_attempt env n s la failure c = (d, x)" by fastforce
    ultimately have "frames_ended d" using same_frames_keeps(4) [OF recover_unframed [OF same_frames_refl], of c env n s la failure] by simp
    with b(1) c d f \<open>frames_ended c\<close> show ?thesis by (cases w) (simp_all add: conclude_attempt_def)
  next
    case False
    obtain c w where c: "live_settle env ''assistant/message'' (AssistantMessage n s (la_blocks la)) (JStr ''append'') a = (c, w)" by fastforce
    with settle_ended [OF assms(1), of env "''assistant/message''" "AssistantMessage n s (la_blocks la)" "JStr ''append''"]
    have e: "frames_ended c" by simp
    have calls: "frames_ended d" if "run_calls env n s cs c = Some (d, x)" for cs d x
      using same_frames_keeps(4) [OF run_calls_unframed [OF same_frames_refl that]] e by simp
    from False b(1) c e show ?thesis
      by (cases "la_finish la"; cases w) (auto simp: conclude_attempt_def dest: calls split: if_splits)
  qed
  with b(2) show ?thesis by (cases v) (auto simp: frames_ended_def)
qed

lemma one_attempt_frames:
  assumes "frames_closed a" "one_attempt env n s st a = Some r"
  shows "frames_closed (fst r)"
proof -
  let ?la = "ae_attempt env (ag_tick a)"
  obtain b v where b: "buildRequest env ?la st a = (b, v)" by fastforce
  define c where "c = pause env b"
  have "same_frames a c" unfolding c_def
    using buildRequest_unframed [OF same_frames_refl, of a env ?la st] b by (intro pause_unframed) simp
  then have c: "frames_closed c" using assms(1) same_frames_keeps(1) by blast
  obtain d w where d: "stream_attempt env n s ?la (new_attempt c) = (d, w)" by fastforce
  note frames = stream_frames [OF new_attempt_fresh [OF c] d]
  show ?thesis
  proof (cases v)
    case (Inl err)
    with assms(2) b c show ?thesis by (auto simp: one_attempt_def awaiting_def c_def Let_def)
  next
    case (Inr u)
    with b d assms(2) have "bind_run (Some (d, w)) (\<lambda>_. finish_attempt env n s ?la) = Some r"
      by (simp add: one_attempt_def awaiting_def c_def Let_def)
    with frames finish_frames [of d env n s ?la r] show ?thesis by (cases w) auto
  qed
qed

lemma step_loop_frames: "frames_closed a \<Longrightarrow> step_loop fuel env n s st a = Some r \<Longrightarrow> frames_closed (fst r)"
proof (induction fuel arbitrary: a st)
  case (Suc fuel)
  from Suc.prems(2) obtain b v where b: "one_attempt env n s st a = Some (b, v)"
    unfolding step_loop_unfold by (cases "one_attempt env n s st a") auto
  from one_attempt_frames [OF Suc.prems(1) this] Suc.prems(2) Suc.IH [of b False] b show ?case
    unfolding step_loop_unfold by (cases v) (auto split: attempt_outcome.splits)
qed simp

lemma run_step_frames: "frames_closed a \<Longrightarrow> run_step fuel env n s st a = Some r \<Longrightarrow> frames_closed (fst r)"
  using step_loop_frames by (auto simp: run_step_def throwIfAborted_def split: option.splits)

section \<open>The driver\<close>

lemma enter_step_frames:
  assumes "frames_closed a" "enter_step fuel env n s ms st a = Some r"
  shows "frames_closed (fst r)"
proof -
  obtain b v where b: "append_data env (StepStart n s) JUndef a = (b, v)" by fastforce
  with append_data_unframed [OF same_frames_refl, of a env "StepStart n s" JUndef] have same: "same_frames a b" by simp
  show ?thesis
  proof (cases v)
    case (Inl err)
    with b assms same_frames_keeps(1) [OF same] show ?thesis by (auto simp: enter_step_def)
  next
    case (Inr k)
    define c where "c = b\<lparr>ag_phase := set_step s (ag_phase b)\<rparr>"
    obtain d w where d: "append_messages env ms c = (d, w)" by fastforce
    with append_messages_unframed [of a c env ms] same have "same_frames a d" by (simp add: c_def)
    then have cd: "frames_closed d" using assms(1) same_frames_keeps(1) by blast
    obtain e x where e: "bind_run (Some (d, w)) (\<lambda>_ c. map_option (awaiting env) (run_step fuel env n s st c)) = Some (e, x)"
      "r = (case append_data env (StepEnd n s) JUndef e of (a1, Inl err) \<Rightarrow> (a1, Inl err) | (a1, Inr seq) \<Rightarrow> (a1, x))"
      using assms(2) b Inr d by (auto simp: enter_step_def end_step_def c_def)
    have "frames_closed e"
    proof (cases w)
      case (Inl err)
      with e(1) cd show ?thesis by simp
    next
      case (Inr u)
      with e(1) obtain f y where "run_step fuel env n s st d = Some (f, y)" "e = pause env f" by (auto simp: awaiting_def)
      with run_step_frames [OF cd] same_frames_keeps(1) [OF pause_unframed [OF same_frames_refl]] show ?thesis by fastforce
    qed
    moreover have "same_frames e (fst r)"
      using append_data_unframed [OF same_frames_refl, of e env "StepEnd n s" JUndef] e(2) by (auto split: prod.split sum.split)
    ultimately show ?thesis using same_frames_keeps(1) by blast
  qed
qed

lemma turn_loop_frames: "frames_closed a \<Longrightarrow> turn_loop fuel env n t ends a = Some (b, r) \<Longrightarrow> frames_closed b"
proof (induction fuel arbitrary: a t ends)
  case (Suc fuel)
  let ?a1 = "fst (awaiting env (preStep env t n a))"
  have "same_frames a ?a1" unfolding awaiting_def fst_conv by (intro pause_unframed preStep_unframed) simp
  then have at1: "frames_closed ?a1" using Suc.prems(1) same_frames_keeps(1) by blast
  have enter: "frames_closed c" if "enter_step fuel env n s ms st ?a1 = Some (c, e)" for s ms st c e
    using enter_step_frames [OF at1 that] by simp
  have stops: "frames_closed (fst (turn_stops env x c))" if "frames_closed c" for x c
    using same_frames_keeps(1) [OF turn_stops_unframed [OF same_frames_refl]] that .
  from Suc.prems(2) show ?case
  proof (rule turn_round)
    fix ms st c e x assume "enter_step fuel env n (phase_step (ag_phase a) + 1) ms st ?a1 = Some (c, e)"
      and rest: "turn_loop fuel env n NextStep x (fst (turn_stops env x c)) = Some (b, r)"
    with Suc.IH [OF stops [OF enter] rest] show ?thesis by blast
  qed (use Suc.prems(1) at1 enter stops in \<open>blast+\<close>)
qed simp

lemma run_turn_frames:
  assumes "frames_closed a" "run_turn fuel env a = Some r"
  shows "frames_closed (fst r)"
proof (cases "abort_of (ag_phase a)")
  case (Some c)
  with assms show ?thesis by (auto simp: run_turn_def throwIfAborted_def)
next
  case None
  let ?turn = "last_turn (ag_phase a) + 1"
  obtain b v where b: "append_data env (TurnStart ?turn) JUndef a = (b, v)" by fastforce
  with append_data_unframed [OF same_frames_refl, of a env "TurnStart ?turn" JUndef] have same: "same_frames a b" by simp
  show ?thesis
  proof (cases v)
    case (Inl err)
    with assms(2) b None have "r = (report_error err b, Inl err)" by (simp add: run_turn_def throwIfAborted_def throwError_def Let_def)
    with report_error_unframed [OF same] assms(1) same_frames_keeps(1) show ?thesis by (metis fst_conv)
  next
    case (Inr k)
    define c where "c = b\<lparr>ag_phase := set_turn ?turn (ag_phase b)\<rparr>"
    from same assms(1) have cc: "frames_closed c" using same_frames_keeps(1) [of a c] by (simp add: c_def)
    from assms(2) b None Inr obtain d x where d: "turn_loop fuel env ?turn NextTurn None c = Some (d, x)" "r = end_turn env ?turn (d, x)"
      by (auto simp: run_turn_def throwIfAborted_def Let_def c_def)
    from turn_loop_frames [OF cc d(1)] end_turn_unframed [OF same_frames_refl, of d env ?turn x] d(2) same_frames_keeps(1)
    show ?thesis by metis
  qed
qed

lemma drive_frames: "frames_closed a \<Longrightarrow> drive_turns fuel env a = Some b \<Longrightarrow> frames_closed b"
proof (induction fuel arbitrary: a)
  case (Suc fuel)
  then obtain c r where r: "run_turn fuel env a = Some (c, r)" by (auto split: option.splits)
  from run_turn_frames [OF Suc.prems(1) r] have "frames_closed (pause env c)"
    using same_frames_keeps(1) [OF pause_unframed [OF same_frames_refl]] by simp
  with Suc r show ?case by (auto simp: awaiting_def split: sum.splits bool.splits)
qed simp

lemma kick_frames: "frames_closed a \<Longrightarrow> kick fuel env a = Some b \<Longrightarrow> frames_closed b"
proof (induction fuel arbitrary: a)
  case (Suc fuel)
  then obtain c where c: "drive_turns fuel env a = Some c" by (auto split: option.splits)
  have "same_frames c (finish_drive c)" by (auto simp: finish_drive_def split: agent_phase.split intro: retire_unframed)
  with drive_frames [OF Suc.prems(1) c] have "frames_closed (finish_drive c)" using same_frames_keeps(1) by blast
  with Suc c show ?case by (auto simp: Let_def split: if_splits)
qed simp

lemma commands_frames: "frames_closed a \<Longrightarrow> commands fuel env cs a = Some b \<Longrightarrow> frames_closed b"
proof (induction cs arbitrary: a)
  case (Cons c cs)
  have "frames_closed (deliver env a c)"
    using same_frames_keeps(1) [OF deliver_unframed [OF same_frames_refl] Cons.prems(1)] .
  moreover from Cons.prems(2) obtain d where d: "command fuel env c a = Some d" "commands fuel env cs d = Some b"
    by (auto split: option.splits)
  ultimately have "frames_closed d" using kick_frames by (auto simp: command_def Let_def split: if_splits)
  from Cons.IH [OF this d(2)] show ?case .
qed simp

text \<open>C14: A viewer that follows the frames of an agent from its creation accepts all of them, under every
  environment: whatever fails, is refused by the session or interrupts the driver, when the agent is at rest
  every attempt that was started has been ended exactly once, chunks were numbered densely from zero, attempts
  have increasing numbers and revisions count up by one to the agent's counter.\<close>

theorem driver_frames_well_formed:
  assumes "ag_signals a = []" "ag_revision a = 0" "commands fuel env cs a = Some b"
  shows "\<exists>k. fold_res view_frame (0, 0, None) (frames_of (ag_signals b)) = Inr (ag_revision b, k, None) \<and> k \<le> ag_attempts b"
proof -
  have "frames_closed a" using assms(1,2) by (simp add: frames_closed_def viewed_def)
  from commands_frames [OF this assms(3)] show ?thesis by (simp add: frames_closed_def viewed_def)
qed

theorem driver_frames_well_formed_witness:
  "\<exists>b k. commands 6 polite_env rest_commands (sample_agent \<lparr>ib_log = [], ib_signals = []\<rparr>) = Some b
     \<and> fold_res view_frame (0, 0, None) (frames_of (ag_signals b)) = Inr (ag_revision b, k, None)"
proof -
  from polite_rest obtain b where b: "commands 6 polite_env rest_commands (sample_agent \<lparr>ib_log = [], ib_signals = []\<rparr>) = Some b"
    by blast
  have "ag_signals (sample_agent s) = []" "ag_revision (sample_agent s) = 0" for s by (simp_all add: sample_agent_def)
  from driver_frames_well_formed [OF this b] b show ?thesis by blast
qed

end
