(* ===== verification/Goal_Rounds.thy ===== *)
theory Goal_Rounds
  imports Goal_Service Agent_Driver
begin

text \<open>
  Automatic continuation of a goal, \<^verbatim>\<open>packages/goal/goal-round-driver/src\<close>: while an armed goal is active and
  its agent idle, a message for the next round is reserved and queued; a fence before each step lets it in
  only while the reservation still matches the goal.

  The plugin listens to the agent, its inbox, its session and the goal service, and runs a coalesced task of
  its own; each listener, and each stretch of the task between two awaits, is one definition. The model
  follows one agent from its creation on, over the agent of \<open>Agent_Driver\<close> and the service of \<open>Goal_Service\<close>
  on one log. Logging and the messages of errors are left out.
\<close>

section \<open>State\<close>

datatype attempt_phase = QueuedRound | ClaimedRound | AdmittedRound

text \<open>\<open>RoundAttempt\<close> with its \<open>RoundIdentity\<close>, and \<open>DriverState\<close>. The promises behind \<open>run\<close> are tasks, each
  at one of its awaits.\<close>

record round_attempt =
  ra_goalId :: string
  ra_revision :: int
  ra_round :: int
  ra_messageId :: string
  ra_content :: jsval
  ra_phase :: attempt_phase
  ra_cancelled :: bool
  ra_stale :: bool

datatype round_task = AtLoop | AtFailed | AtFlush | AtRetire

record round_state =
  rd_attempt :: "round_attempt option"
  rd_competingQueued :: bool
  rd_needsCheckpoint :: bool
  rd_requested :: bool
  rd_run :: bool
  rd_stopping :: bool
  rd_tasks :: "round_task list"

record round_world =
  rw_agent :: agent
  rw_activation :: activation
  rw_pendingActivation :: "(nat \<times> activation) option"
  rw_emitted :: "goal_changed list"
  rw_driver :: round_state
  rw_live :: bool                   \<comment> \<open>the registry knows this agent\<close>
  rw_fiber :: bool                  \<comment> \<open>the plugin is active\<close>

record round_env =
  re_agent :: agent_env
  re_goal :: goal_env
  re_messageId :: string            \<comment> \<open>minted by \<open>createUserMessage\<close>\<close>

definition newRoundState :: round_state where
  "newRoundState = \<lparr>rd_attempt = None, rd_competingQueued = False, rd_needsCheckpoint = False,
     rd_requested = False, rd_run = False, rd_stopping = False, rd_tasks = []\<rparr>"

definition on_driver :: "(round_state \<Rightarrow> round_state) \<Rightarrow> round_world \<Rightarrow> round_world" where
  "on_driver f w = w\<lparr>rw_driver := f (rw_driver w)\<rparr>"

abbreviation world_log :: "round_world \<Rightarrow> session_event list" where
  "world_log w \<equiv> ib_log (ag_session (rw_agent w))"

section \<open>Rounds\<close>

definition positive_round :: "jsval \<Rightarrow> bool" where
  "positive_round v = (case v of JNum (Num r) \<Rightarrow> r > 0 | JNum PosInf \<Rightarrow> True | _ \<Rightarrow> False)"

definition isGoalRoundSource :: "message_source \<Rightarrow> bool" where
  "isGoalRoundSource source = (case source of SrcGoal goalId revision rnd \<Rightarrow> positive_round rnd | _ \<Rightarrow> False)"

definition sameRound :: "message_source \<Rightarrow> round_attempt \<Rightarrow> bool" where
  "sameRound source a = (case source of
     SrcGoal goalId revision rnd \<Rightarrow> js_same goalId (JStr (ra_goalId a))
       \<and> js_same revision (JNum (js_int (ra_revision a))) \<and> js_same rnd (JNum (js_int (ra_round a)))
   | _ \<Rightarrow> False)"

definition sameQueued :: "user_message \<Rightarrow> round_attempt \<Rightarrow> bool" where
  "sameQueued m a \<longleftrightarrow> isGoalRoundSource (um_source m) \<and> sameRound (um_source m) a \<and> deep_eq (um_content m) (ra_content a)"

definition newline :: string where
  "newline = [char_of (10 :: nat)]"

definition renderGoalRoundPrompt :: "goal_snapshot \<Rightarrow> int \<Rightarrow> jsval" where
  "renderGoalRoundPrompt goal n = JArr [JObj [(''type'', JStr ''text''), (''text'', JStr
     (''<goal_round>'' @ newline
      @ ''Objective: '' @ json_string (gs_objective goal) @ newline
      @ ''Round: '' @ nat_string (nat n) @ ''/'' @ nat_string (nat (gs_maxGoalRounds goal)) @ newline @ newline
      @ ''Continue working toward the objective in this same session. Treat the current workspace, ''
      @ ''tool results, and durable session state as authoritative; inspect them instead of assuming ''
      @ ''earlier narration is still current. Make concrete progress and verify the result. Before ''
      @ ''claiming completion, gather evidence that the whole objective is achieved, read the current ''
      @ ''goal, and mark it complete. If work remains, leave the goal active for the next round. Follow ''
      @ ''the configured goal-tool policy before reporting a blocker.'' @ newline
      @ ''</goal_round>''))]]"

section \<open>Calls into the agent and the goal service\<close>

definition goals_of :: "round_world \<Rightarrow> goal_session" where
  "goals_of w = \<lparr>gx_log = world_log w, gx_activation = rw_activation w,
     gx_pendingActivation = rw_pendingActivation w, gx_emitted = rw_emitted w\<rparr>"

definition put_goals :: "goal_session \<Rightarrow> round_world \<Rightarrow> round_world" where
  "put_goals s w = w\<lparr>rw_agent := (rw_agent w)\<lparr>ag_session := (ag_session (rw_agent w))\<lparr>ib_log := gx_log s\<rparr>\<rparr>,
     rw_activation := gx_activation s, rw_pendingActivation := gx_pendingActivation s, rw_emitted := gx_emitted s\<rparr>"

definition goal_env_of :: "round_env \<Rightarrow> round_world \<Rightarrow> goal_env" where
  "goal_env_of env w = (re_goal env)\<lparr>ge_live := rw_live w\<rparr>"

text \<open>A call of the service; \<open>goal/changed\<close> is announced by the caller.\<close>

definition on_goals ::
    "(goal_env \<Rightarrow> goal_session \<Rightarrow> goal_session \<times> (goal_error + 'a)) \<Rightarrow> round_env \<Rightarrow> round_world \<Rightarrow> round_world \<times> (goal_error + 'a)" where
  "on_goals f env w = (case f (goal_env_of env w) (goals_of w) of (s, r) \<Rightarrow> (put_goals s w, r))"

definition currentGoal :: "round_env \<Rightarrow> round_world \<Rightarrow> goal_error + goal_view option" where
  "currentGoal env w = (if \<not> rw_live w then Inr None else goal_get (goal_env_of env w) (goals_of w))"

definition goalRef :: "goal_view \<Rightarrow> goal_ref" where
  "goalRef v = snapshot_ref (gv_goal v)"

definition disarm :: "round_env \<Rightarrow> round_world \<Rightarrow> round_world" where
  "disarm env w = (case currentGoal env w of
     Inr (Some v) \<Rightarrow> if gv_activation v = Armed then fst (on_goals goal_disarm env w) else w
   | _ \<Rightarrow> w)"

section \<open>Inbox and session listeners\<close>

definition update_attempt :: "(round_attempt \<Rightarrow> round_attempt) \<Rightarrow> round_state \<Rightarrow> round_state" where
  "update_attempt f d = d\<lparr>rd_attempt := map_option f (rd_attempt d)\<rparr>"

definition on_inserted :: "user_message \<Rightarrow> round_world \<Rightarrow> round_world" where
  "on_inserted m w = (case current (ag_session (rw_agent w)) of
     Inl err \<Rightarrow> w
   | Inr st \<Rightarrow>
      (if um_id m \<notin> um_id ` set (next_turn st) then w
       else on_driver (\<lambda>d. case rd_attempt d of
           None \<Rightarrow> d\<lparr>rd_competingQueued := True\<rparr>
         | Some a \<Rightarrow>
            (if sameQueued m a then d
             else (if ra_phase a = QueuedRound then update_attempt (\<lambda>a. a\<lparr>ra_stale := True\<rparr>) d else d)\<lparr>rd_competingQueued := True\<rparr>)) w))"

definition mark_queued :: "user_message \<Rightarrow> (round_attempt \<Rightarrow> round_attempt) \<Rightarrow> round_world \<Rightarrow> round_world" where
  "mark_queued m f = on_driver (update_attempt (\<lambda>a. if sameQueued m a then f a else a))"

definition on_claimed :: "user_message \<Rightarrow> round_world \<Rightarrow> round_world" where
  "on_claimed m = mark_queued m (\<lambda>a. a\<lparr>ra_phase := ClaimedRound\<rparr>)"

definition on_discarded :: "user_message \<Rightarrow> round_world \<Rightarrow> round_world" where
  "on_discarded m = mark_queued m (\<lambda>a. a\<lparr>ra_cancelled := True\<rparr>)"

definition on_signal :: "round_world \<Rightarrow> inbox_signal \<Rightarrow> round_world" where
  "on_signal w sig = (case sig of Inserted m \<Rightarrow> on_inserted m w | Claimed m turn \<Rightarrow> on_claimed m w | Discarded m \<Rightarrow> on_discarded m w)"

text \<open>A call of the agent, with the listeners of its inbox.\<close>

definition on_agent :: "(agent \<Rightarrow> agent \<times> 'b) \<Rightarrow> round_world \<Rightarrow> round_world \<times> 'b" where
  "on_agent f w = (case f (rw_agent w) of (a, r) \<Rightarrow>
     (foldl on_signal (w\<lparr>rw_agent := a\<rparr>) (drop (length (ib_signals (ag_session (rw_agent w)))) (ib_signals (ag_session a))), r))"

definition on_event :: "round_env \<Rightarrow> event_data \<Rightarrow> round_world \<Rightarrow> round_world" where
  "on_event env d w = (if \<not> rw_live w then w else case d of
     UserMessage m \<Rightarrow> on_driver (update_attempt (\<lambda>a. if um_id m = ra_messageId a then a\<lparr>ra_phase := AdmittedRound\<rparr> else a)) w
   | TurnEnd turn reason \<Rightarrow>
      (if reason = MaxTokens then disarm env w
       else if reason \<noteq> Aborted then w
       else case rd_attempt (rw_driver w) of
           Some a \<Rightarrow> if ra_phase a \<in> {ClaimedRound, AdmittedRound}
             then on_driver (update_attempt (\<lambda>a. a\<lparr>ra_cancelled := True\<rparr>)) w else disarm env w
         | None \<Rightarrow> disarm env w)
   | _ \<Rightarrow> w)"

section \<open>The task\<close>

definition readyToDrive :: "round_world \<Rightarrow> bool" where
  "readyToDrive w \<longleftrightarrow> rw_fiber w \<and> \<not> rd_stopping (rw_driver w) \<and> rw_live w \<and> \<not> running (ag_phase (rw_agent w))
     \<and> \<not> rd_competingQueued (rw_driver w)"

definition readyAfterCheckpoint :: "round_world \<Rightarrow> bool" where
  "readyAfterCheckpoint w \<longleftrightarrow> readyToDrive w \<and> \<not> rd_needsCheckpoint (rw_driver w)"

text \<open>A stretch of \<open>drive\<close> ends at its checkpoint, at its end (after a goal change or not), or throws.\<close>

datatype drive_end = Flushing | Driven | DrivenWithChange | DriveFailed

definition limit_reason :: "goal_view \<Rightarrow> jsval" where
  "limit_reason v = JObj [(''code'', JStr ''round-limit''), (''message'', JStr
     (''Goal reached its configured limit of '' @ nat_string (nat (gs_maxGoalRounds (gv_goal v))) @ '' rounds.''))]"

definition queue_reason :: "int \<Rightarrow> string \<Rightarrow> jsval" where
  "queue_reason n err = JObj [(''code'', JStr ''queue-failed''), (''message'', JStr
     (''Could not queue goal round '' @ nat_string (nat n) @ '': '' @ err))]"

definition block_goal :: "round_env \<Rightarrow> goal_view \<Rightarrow> jsval \<Rightarrow> round_world \<Rightarrow> round_world \<times> drive_end" where
  "block_goal env v reason w = (case on_goals (\<lambda>e. goal_block e (goalRef v) reason) env w of
     (w1, Inl err) \<Rightarrow> (w1, DriveFailed) | (w1, Inr v1) \<Rightarrow> (w1, DrivenWithChange))"

definition same_armed :: "goal_view \<Rightarrow> goal_view \<Rightarrow> bool" where
  "same_armed v latest \<longleftrightarrow> gs_id (gv_goal latest) = gs_id (gv_goal v) \<and> gs_revision (gv_goal latest) = gs_revision (gv_goal v)
     \<and> gs_phase (gv_goal latest) = Active \<and> gv_activation latest = Armed"

definition round_message :: "round_env \<Rightarrow> goal_view \<Rightarrow> user_message" where
  "round_message env v = (let n = gv_roundsStarted v + 1 in
     \<lparr>um_id = re_messageId env, um_source = SrcGoal (JStr (gs_id (gv_goal v)))
        (JNum (js_int (gs_revision (gv_goal v)))) (JNum (js_int n)),
      um_content = renderGoalRoundPrompt (gv_goal v) n\<rparr>)"

definition reservation :: "user_message \<Rightarrow> goal_view \<Rightarrow> round_attempt" where
  "reservation m v = \<lparr>ra_goalId = gs_id (gv_goal v), ra_revision = gs_revision (gv_goal v),
     ra_round = gv_roundsStarted v + 1, ra_messageId = um_id m, ra_content = um_content m, ra_phase = QueuedRound,
     ra_cancelled = False, ra_stale = False\<rparr>"

definition queue_failed :: "round_env \<Rightarrow> goal_view \<Rightarrow> string \<Rightarrow> round_world \<Rightarrow> round_world \<times> drive_end" where
  "queue_failed env v err w =
     (let w1 = on_driver (rd_attempt_update (\<lambda>_. None)) w in
      case currentGoal env w1 of
        Inl e \<Rightarrow> (w1, DriveFailed)
      | Inr None \<Rightarrow> (w1, Driven)
      | Inr (Some latest) \<Rightarrow>
          if same_armed v latest then block_goal env latest (queue_reason (gv_roundsStarted v + 1) err) w1 else (w1, Driven))"

definition reserve :: "round_env \<Rightarrow> goal_view \<Rightarrow> round_world \<Rightarrow> round_world \<times> drive_end" where
  "reserve env v w = (let m = round_message env v in
     case on_agent (followup (re_agent env) m) (on_driver (rd_attempt_update (\<lambda>_. Some (reservation m v))) w) of
       (w1, Inr u) \<Rightarrow> (w1, Driven)
     | (w1, Inl err) \<Rightarrow> queue_failed env v err w1)"

definition drive_on :: "round_env \<Rightarrow> round_world \<Rightarrow> round_world \<times> drive_end" where
  "drive_on env w = (case rd_attempt (rw_driver w) of
     Some a \<Rightarrow> (on_driver (\<lambda>d. d\<lparr>rd_attempt := None, rd_needsCheckpoint := True, rd_requested := True\<rparr>) w, Driven)
   | None \<Rightarrow> (case currentGoal env w of
       Inl err \<Rightarrow> (w, DriveFailed)
     | Inr None \<Rightarrow> (w, Driven)
     | Inr (Some v) \<Rightarrow>
         if gs_phase (gv_goal v) \<noteq> Active \<or> gv_activation v \<noteq> Armed then (w, Driven)
         else if gv_roundsStarted v \<ge> gs_maxGoalRounds (gv_goal v) then block_goal env v (limit_reason v) w
         else reserve env v w))"

definition drive_round :: "round_env \<Rightarrow> round_world \<Rightarrow> round_world \<times> drive_end" where
  "drive_round env w =
     (if \<not> readyToDrive w then (w, Driven)
      else if rd_needsCheckpoint (rw_driver w) then (on_driver (rd_needsCheckpoint_update (\<lambda>_. False)) w, Flushing)
      else drive_on env w)"

text \<open>The second stretch of \<open>drive\<close>.\<close>

definition drive_flushed :: "round_env \<Rightarrow> bool \<Rightarrow> round_world \<Rightarrow> round_world \<times> drive_end" where
  "drive_flushed env flushed w =
     (if \<not> flushed then (disarm env w, Driven)
      else if \<not> readyAfterCheckpoint w then (w, Driven)
      else drive_on env w)"

lemma drive_changed: "drive_round env w = (w1, DrivenWithChange) \<Longrightarrow> \<not> rd_needsCheckpoint (rw_driver w)"
  by (auto simp: drive_round_def split: if_splits)

text \<open>\<open>requestDrive\<close> runs its task up to the first await before \<open>run\<close> is set, so a goal change that the task
  makes there requests another one.\<close>

definition start_task :: "round_task \<Rightarrow> round_world \<Rightarrow> round_world" where
  "start_task t = on_driver (\<lambda>d. d\<lparr>rd_run := True, rd_tasks := rd_tasks d @ [t]\<rparr>)"

function requestDrive :: "round_env \<Rightarrow> round_world \<Rightarrow> round_world" where
  "requestDrive env w =
     (if rd_stopping (rw_driver w) then w
      else if rd_run (rw_driver w) then on_driver (rd_requested_update (\<lambda>_. True)) w
      else case drive_round env (on_driver (rd_requested_update (\<lambda>_. False)) w) of
          (w1, Flushing) \<Rightarrow> start_task AtFlush w1
        | (w1, Driven) \<Rightarrow> start_task AtLoop w1
        | (w1, DriveFailed) \<Rightarrow> start_task AtFailed w1
        | (w1, DrivenWithChange) \<Rightarrow>
            start_task AtLoop (requestDrive env (on_driver (rd_needsCheckpoint_update (\<lambda>_. True)) w1)))"
  by pat_completeness auto
termination
  by (relation "measure (\<lambda>(env, w). if rd_needsCheckpoint (rw_driver w) then 0 else 1)")
    (auto simp: on_driver_def dest!: drive_changed [OF sym])

declare requestDrive.simps [simp del]

section \<open>Goal and status listeners\<close>

definition on_goal_changed :: "round_env \<Rightarrow> goal_operation \<Rightarrow> bool \<Rightarrow> round_world \<Rightarrow> round_world" where
  "on_goal_changed env operation byAgent w =
     (let w1 = on_driver (rd_needsCheckpoint_update (\<lambda>_. True)) w in
      requestDrive env
        (if operation = OpPause \<and> running (ag_phase (rw_agent w1)) \<and> \<not> byAgent
         then fst (on_agent (cancel (re_agent env) ByUser True) w1) else w1))"

text \<open>A call of the service and what it announces; \<open>byAgent\<close>: the agent is the initiator.\<close>

definition goal_called ::
    "round_env \<Rightarrow> bool \<Rightarrow> (goal_env \<Rightarrow> goal_session \<Rightarrow> goal_session \<times> (goal_error + 'a)) \<Rightarrow> round_world \<Rightarrow> round_world \<times> (goal_error + 'a)" where
  "goal_called env byAgent f w = (case on_goals f env w of (w1, r) \<Rightarrow>
     (foldl (\<lambda>w c. on_goal_changed env (gc_operation c) byAgent w) w1 (drop (length (rw_emitted w)) (rw_emitted w1)), r))"

definition on_error :: "round_env \<Rightarrow> round_world \<Rightarrow> round_world" where
  "on_error env w = disarm env w"

definition on_session_start :: "round_world \<Rightarrow> round_world" where
  "on_session_start w = on_driver (\<lambda>d. d\<lparr>rd_attempt := None, rd_competingQueued := False, rd_needsCheckpoint := False\<rparr>) w"

definition dropped :: "round_attempt \<Rightarrow> goal_view \<Rightarrow> bool" where
  "dropped a v \<longleftrightarrow> (ra_phase a = QueuedRound \<or> ra_phase a = ClaimedRound \<or> ra_cancelled a)
     \<and> gs_phase (gv_goal v) = Active \<and> gv_activation v = Armed
     \<and> ra_goalId a = gs_id (gv_goal v) \<and> ra_revision a = gs_revision (gv_goal v)"

definition on_idle :: "round_env \<Rightarrow> round_world \<Rightarrow> round_world" where
  "on_idle env w =
     (let w1 = on_driver (rd_competingQueued_update (\<lambda>_. False)) w in
      case currentGoal env w1 of
        Inl err \<Rightarrow> w1
      | Inr goal \<Rightarrow> requestDrive env (case (rd_attempt (rw_driver w1), goal) of
          (Some a, Some v) \<Rightarrow>
            (if dropped a v then
               case goal_called env False (\<lambda>e. goal_pause e (goalRef v)) (on_driver (rd_attempt_update (\<lambda>_. None)) w1) of
                 (w2, Inl err) \<Rightarrow> disarm env w2 | (w2, Inr u) \<Rightarrow> w2
             else w1)
        | _ \<Rightarrow> w1))"

section \<open>Resuming the task\<close>

definition set_task :: "nat \<Rightarrow> round_task \<Rightarrow> round_world \<Rightarrow> round_world" where
  "set_task i t = on_driver (\<lambda>d. d\<lparr>rd_tasks := (rd_tasks d)[i := t]\<rparr>)"

definition settle_drive :: "round_env \<Rightarrow> nat \<Rightarrow> round_world \<times> drive_end \<Rightarrow> round_world" where
  "settle_drive env i r = (case r of
     (w, Flushing) \<Rightarrow> set_task i AtFlush w
   | (w, Driven) \<Rightarrow> set_task i AtLoop w
   | (w, DriveFailed) \<Rightarrow> set_task i AtFailed w
   | (w, DrivenWithChange) \<Rightarrow> set_task i AtLoop (on_goal_changed env OpBlock False w))"

definition loop_again :: "round_env \<Rightarrow> nat \<Rightarrow> round_world \<Rightarrow> round_world" where
  "loop_again env i w =
     (if rd_requested (rw_driver w) \<and> \<not> rd_stopping (rw_driver w)
      then settle_drive env i (drive_round env (on_driver (rd_requested_update (\<lambda>_. False)) w))
      else set_task i AtRetire w)"

definition retire_task :: "round_env \<Rightarrow> nat \<Rightarrow> round_world \<Rightarrow> round_world" where
  "retire_task env i w =
     (let w1 = on_driver (\<lambda>d. d\<lparr>rd_run := False, rd_tasks := take i (rd_tasks d) @ drop (Suc i) (rd_tasks d)\<rparr>) w in
      if rd_requested (rw_driver w1) \<and> \<not> rd_stopping (rw_driver w1) then requestDrive env w1 else w1)"

text \<open>\<open>flushed\<close>: the durability checkpoint succeeded.\<close>

definition resume_task :: "round_env \<Rightarrow> nat \<Rightarrow> bool \<Rightarrow> round_world \<Rightarrow> round_world" where
  "resume_task env i flushed w =
     (if i \<ge> length (rd_tasks (rw_driver w)) then w
      else case rd_tasks (rw_driver w) ! i of
          AtLoop \<Rightarrow> loop_again env i w
        | AtFailed \<Rightarrow> loop_again env i (disarm env w)
        | AtFlush \<Rightarrow> settle_drive env i (drive_flushed env flushed w)
        | AtRetire \<Rightarrow> retire_task env i w)"

section \<open>The step fence\<close>

definition names_goal :: "message_source \<Rightarrow> goal_view \<Rightarrow> bool" where
  "names_goal source v = (case source of
     SrcGoal goalId revision rnd \<Rightarrow> js_same (JStr (gs_id (gv_goal v))) goalId
       \<and> js_same (JNum (js_int (gs_revision (gv_goal v)))) revision
       \<and> gs_phase (gv_goal v) = Active \<and> gv_activation v = Armed
   | _ \<Rightarrow> False)"

definition names_next_round :: "message_source \<Rightarrow> goal_view \<Rightarrow> bool" where
  "names_next_round source v = (case source of
     SrcGoal goalId revision rnd \<Rightarrow> js_same rnd (JNum (js_int (gv_roundsStarted v + 1))) | _ \<Rightarrow> False)"

definition validReservation :: "round_env \<Rightarrow> user_message \<Rightarrow> round_world \<Rightarrow> goal_error + bool" where
  "validReservation env m w = bind_res (currentGoal env w) (\<lambda>goal. Inr
     (rw_fiber w \<and> \<not> rd_stopping (rw_driver w)
      \<and> (case rd_attempt (rw_driver w) of None \<Rightarrow> False
         | Some a \<Rightarrow> ra_phase a = ClaimedRound \<and> \<not> ra_stale a \<and> sameQueued m a)
      \<and> (case goal of None \<Rightarrow> False | Some v \<Rightarrow> names_goal (um_source m) v \<and> names_next_round (um_source m) v)))"

definition check_reservation :: "round_env \<Rightarrow> user_message \<Rightarrow> round_world \<Rightarrow> round_world \<times> bool" where
  "check_reservation env m w = (case validReservation env m w of Inl err \<Rightarrow> (disarm env w, False) | Inr valid \<Rightarrow> (w, valid))"

definition zero_round :: "message_source \<Rightarrow> bool" where
  "zero_round source = (case source of SrcGoal goalId revision rnd \<Rightarrow> js_same rnd (JNum (js_int 0)) | _ \<Rightarrow> False)"

fun restore_all :: "round_env \<Rightarrow> user_message list \<Rightarrow> round_world \<Rightarrow> round_world \<times> (string + unit)" where
  "restore_all env [] w = (w, Inr ())"
| "restore_all env (m # ms) w = (case current (ag_session (rw_agent w)) of
     Inl err \<Rightarrow> (w, Inl ''inbox error'')
   | Inr st \<Rightarrow>
      (if um_id m \<in> um_id ` set (next_step st) \<union> um_id ` set (next_turn st) then restore_all env ms w
       else then_run (on_agent (on_inbox (prepend_message (ae_inbox (re_agent env)) NextStep m)) w) (\<lambda>_. restore_all env ms)))"

definition restoreOtherClaimed :: "round_env \<Rightarrow> user_message list \<Rightarrow> string \<Rightarrow> round_world \<Rightarrow> round_world \<times> (string + unit)" where
  "restoreOtherClaimed env messages messageId =
     restore_all env (rev (filter (\<lambda>m. um_id m \<noteq> messageId \<and> \<not> zero_round (um_source m)) messages))"

definition clear_attempt :: "round_world \<Rightarrow> round_world" where
  "clear_attempt = on_driver (rd_attempt_update (\<lambda>_. None))"

text \<open>The step is dropped: what else it claimed goes back, and the driver looks again.\<close>

definition reject_round :: "round_env \<Rightarrow> user_message list \<Rightarrow> user_message \<Rightarrow> round_world \<Rightarrow> round_world \<times> (string + unit)" where
  "reject_round env messages m w =
     then_run (restoreOtherClaimed env messages (um_id m) w) (\<lambda>_ w1. (requestDrive env w1, Inr ()))"

text \<open>\<open>agent/pre-step\<close> up to \<open>next()\<close>: no round is submitted, the step is dropped, or the round may go on.\<close>

datatype fence = NoRound | RoundDropped | RoundSubmitted user_message

definition fence_step :: "round_env \<Rightarrow> user_message list \<Rightarrow> round_world \<Rightarrow> round_world \<times> (string + fence)" where
  "fence_step env messages w = (case find (\<lambda>m. isGoalRoundSource (um_source m)) messages of
     None \<Rightarrow> (w, Inr NoRound)
   | Some m \<Rightarrow> (case check_reservation env m w of
       (w1, True) \<Rightarrow> (w1, Inr (RoundSubmitted m))
     | (w1, False) \<Rightarrow> then_run (reject_round env messages m
         (if (case rd_attempt (rw_driver w1) of None \<Rightarrow> False | Some a \<Rightarrow> sameRound (um_source m) a)
          then clear_attempt w1 else w1)) (\<lambda>_ w2. (w2, Inr RoundDropped))))"

text \<open>After \<open>next()\<close>; \<open>aborted\<close>: the signal of the step.\<close>

definition prompt_rejected :: jsval where
  "prompt_rejected = JObj [(''code'', JStr ''prompt-rejected''),
     (''message'', JStr ''Goal round was rejected before entering its step.'')]"

definition round_rejected :: "round_env \<Rightarrow> user_message \<Rightarrow> round_world \<Rightarrow> round_world \<times> (string + unit)" where
  "round_rejected env m w = (case currentGoal env w of
     Inl err \<Rightarrow> (w, Inl ''goal error'')
   | Inr None \<Rightarrow> (w, Inr ())
   | Inr (Some v) \<Rightarrow>
      (if names_goal (um_source m) v then
         case goal_called env True (\<lambda>e. goal_block e (goalRef v) prompt_rejected) w of
           (w1, Inl err) \<Rightarrow> (w1, Inl ''goal error'') | (w1, Inr u) \<Rightarrow> (w1, Inr ())
       else (w, Inr ())))"

definition fence_decision ::
    "round_env \<Rightarrow> user_message \<Rightarrow> string + pre_step_decision \<Rightarrow> bool \<Rightarrow> round_world \<Rightarrow> round_world \<times> (string + pre_step_decision)" where
  "fence_decision env m decision aborted w = (case decision of
     Inl err \<Rightarrow> (if aborted then w else requestDrive env (clear_attempt w), Inl err)
   | Inr RejectStep \<Rightarrow>
      (if aborted then (w, Inr RejectStep)
       else then_run (round_rejected env m (clear_attempt w)) (\<lambda>_ w1. (w1, Inr RejectStep)))
   | Inr (EnterStep messages series) \<Rightarrow>
      (if aborted then then_run (restoreOtherClaimed env messages (um_id m) w) (\<lambda>_ w1. (w1, Inr (EnterStep messages series)))
       else case check_reservation env m w of
           (w1, True) \<Rightarrow> (w1, Inr (EnterStep messages True))
         | (w1, False) \<Rightarrow> then_run (reject_round env messages m (clear_attempt w1)) (\<lambda>_ w2. (w2, Inr RejectStep))))"

section \<open>Loading and unloading the plugin\<close>

definition adopt_agent :: "round_env \<Rightarrow> round_world \<Rightarrow> round_world" where
  "adopt_agent env w = disarm env (w\<lparr>rw_driver := newRoundState\<rparr>)"

definition stop_rounds :: "round_env \<Rightarrow> round_world \<Rightarrow> round_world" where
  "stop_rounds env w =
     (let w1 = disarm env (on_driver (rd_stopping_update (\<lambda>_. True)) w) in
      if rd_attempt (rw_driver w1) = None then w1
      else let w2 = on_driver (update_attempt (\<lambda>a. a\<lparr>ra_stale := True\<rparr>)) w1 in
        if running (ag_phase (rw_agent w2)) then fst (on_agent (cancel (re_agent env) ByParent False) w2) else w2)"

section \<open>The durable invariant\<close>

text \<open>\<^verbatim>\<open>invariant.ts\<close>: a continuation message must be the one that the log before it calls for.\<close>

datatype round_violation = FoldFailed goal_fold_error | RoundNotReconstructed | ContentMismatch

definition nonpositive_round :: "jsval \<Rightarrow> bool" where
  "nonpositive_round v = (case v of JNum (Num r) \<Rightarrow> r \<le> 0 | JNum NegZero \<Rightarrow> True | JNum NegInf \<Rightarrow> True | _ \<Rightarrow> False)"

definition round_exceeds :: "jsval \<Rightarrow> int \<Rightarrow> bool" where
  "round_exceeds v cap = (case v of JNum (Num r) \<Rightarrow> r > of_int cap | JNum PosInf \<Rightarrow> True | _ \<Rightarrow> False)"

definition foldChecked :: "session_event list \<Rightarrow> round_violation + folded_goal" where
  "foldChecked events = (case foldGoal events of Inl err \<Rightarrow> Inl (FoldFailed err) | Inr f \<Rightarrow> Inr f)"

definition goalView :: "folded_goal \<Rightarrow> jsval \<Rightarrow> jsval \<Rightarrow> jsval \<Rightarrow> round_violation + goal_view" where
  "goalView folded goalId revision rnd = (case (fg_goal folded, fg_createdAt folded, fg_updatedAt folded) of
     (Some goal, Some created, Some updated) \<Rightarrow>
       (if gs_phase goal \<noteq> Active \<or> \<not> js_same (JStr (gs_id goal)) goalId
           \<or> \<not> js_same (JNum (js_int (gs_revision goal))) revision
           \<or> \<not> js_same rnd (JNum (js_int (fg_roundsStarted folded + 1))) \<or> round_exceeds rnd (gs_maxGoalRounds goal)
        then Inl RoundNotReconstructed
        else Inr \<lparr>gv_goal = goal, gv_roundsStarted = fg_roundsStarted folded, gv_createdAt = created,
               gv_updatedAt = updated, gv_activation = Armed\<rparr>)
   | _ \<Rightarrow> Inl RoundNotReconstructed)"

definition validate_continuation :: "session_event list \<Rightarrow> event_data \<Rightarrow> round_violation + unit" where
  "validate_continuation prior d = (case d of
     UserMessage m \<Rightarrow> (case um_source m of
       SrcGoal goalId revision rnd \<Rightarrow>
         (if nonpositive_round rnd then Inr ()
          else bind_res (foldChecked prior) (\<lambda>folded.
               bind_res (goalView folded goalId revision rnd) (\<lambda>v.
               let n = (case rnd of JNum x \<Rightarrow> int_of_number x | _ \<Rightarrow> 0) in
               if \<not> deep_eq (um_content m) (renderGoalRoundPrompt (gv_goal v) n) then Inl ContentMismatch else Inr ())))
     | _ \<Rightarrow> Inr ())
   | _ \<Rightarrow> Inr ())"

section \<open>Histories\<close>

text \<open>Everything that can happen to an agent and its goal while the plugin watches.\<close>

datatype round_action =
    AgentCalled agent_command          \<comment> \<open>anyone uses the agent\<close>
  | InputClaimed inbox_target int      \<comment> \<open>a turn takes its input\<close>
  | EventLogged event_data             \<comment> \<open>an event of the agent's driver or of others\<close>
  | ActivityChanged agent_phase
  | GoalCalled bool int goal_call
  | ErrorSeen
  | LifecycleStarted
  | TaskResumed nat bool
  | StepSubmitted "user_message list"
  | StepDecided user_message "string + pre_step_decision" bool
  | PluginStopped
  | AgentGone

definition log_any :: "round_env \<Rightarrow> event_data \<Rightarrow> round_world \<Rightarrow> round_world" where
  "log_any env d w = (case append_data (re_agent env) d JUndef (rw_agent w) of
     (a, Inl err) \<Rightarrow> w
   | (a, Inr seq) \<Rightarrow> (let s = on_session_event (log_event seq 0 d) (goals_of (w\<lparr>rw_agent := a\<rparr>)) in
        on_event env d (put_goals s (w\<lparr>rw_agent := a\<rparr>))))"

definition run_round :: "round_env \<Rightarrow> round_action \<Rightarrow> round_world \<Rightarrow> round_world" where
  "run_round env action w = (case action of
     AgentCalled c \<Rightarrow> (case c of
         ForeignAppend d \<Rightarrow> log_any env d w | _ \<Rightarrow> fst (on_agent (\<lambda>a. (deliver (re_agent env) a c, ())) w))
   | InputClaimed target turn \<Rightarrow> fst (on_agent (on_inbox (claim (ae_inbox (re_agent env)) target turn)) w)
   | EventLogged d \<Rightarrow> log_any env d w
   | ActivityChanged p \<Rightarrow>
       (let w1 = w\<lparr>rw_agent := setPhase p (rw_agent w)\<rparr> in
        if running (ag_phase (rw_agent w)) \<and> \<not> running p then on_idle env w1 else w1)
   | GoalCalled byAgent rounds call \<Rightarrow> fst (goal_called env byAgent (\<lambda>e. run_goal rounds e call) w)
   | ErrorSeen \<Rightarrow> on_error env w
   | LifecycleStarted \<Rightarrow> on_session_start (put_goals (session_start (goals_of w)) w)
   | TaskResumed i flushed \<Rightarrow> resume_task env i flushed w
   | StepSubmitted messages \<Rightarrow> fst (fence_step env messages w)
   | StepDecided m decision aborted \<Rightarrow> fst (fence_decision env m decision aborted w)
   | PluginStopped \<Rightarrow> stop_rounds env (w\<lparr>rw_fiber := False\<rparr>)
   | AgentGone \<Rightarrow> w\<lparr>rw_live := False\<rparr>)"

definition run_rounds :: "(round_env \<times> round_action) list \<Rightarrow> round_world \<Rightarrow> round_world" where
  "run_rounds actions w = foldl (\<lambda>w (env, action). run_round env action w) w actions"

end
