(* ===== verification/Goal_Round_Fence.thy ===== *)
theory Goal_Round_Fence
  imports Goal_Rounds Driver_Turns
begin

text \<open>
  The fence of \<open>Goal_Rounds\<close>: whatever happened since a round was reserved, a continuation message that is let
  into a step is the one that the log at hand calls for, so the goal fold and the durable invariant of the
  package accept it.
\<close>

section \<open>Logs only grow\<close>

definition grows_log :: "session_event list \<Rightarrow> session_event list \<Rightarrow> bool" where
  "grows_log xs ys \<longleftrightarrow> (\<exists>x. ys = xs @ x)"

lemma grows_log_refl [simp]: "grows_log xs xs"
  by (simp add: grows_log_def)

lemma grows_log_snoc [simp]: "grows_log xs (xs @ x)"
  by (simp add: grows_log_def)

lemma grows_log_trans: "grows_log xs ys \<Longrightarrow> grows_log ys zs \<Longrightarrow> grows_log xs zs"
  by (auto simp: grows_log_def)

lemma extends_grows: "extends s s' \<Longrightarrow> grows_log (ib_log s) (ib_log s')"
  by (auto simp: extends_def grows_log_def)

lemma calm_grows: "calm a b \<Longrightarrow> grows_log (ib_log (ag_session a)) (ib_log (ag_session b))"
  by (simp add: calm_def extends_grows)

text \<open>Runs of the goal service.\<close>

definition goal_grows :: "goal_session \<Rightarrow> goal_session \<times> 'b \<Rightarrow> bool" where
  "goal_grows s r \<longleftrightarrow> grows_log (gx_log s) (gx_log (fst r))"

lemma goal_grows_same [simp]: "gx_log t = gx_log s \<Longrightarrow> goal_grows s (t, r)"
  by (simp add: goal_grows_def)

lemma goal_grows_checked:
  "(\<And>x. goal_grows s (f x s)) \<Longrightarrow> goal_grows s (checked r f s)"
  by (cases r) simp_all

lemma goal_grows_then:
  assumes "goal_grows s r" "\<And>v t. \<exists>w. f v t = (t, Inr w)"
  shows "goal_grows s (then_run r f)"
proof (cases r)
  case (Pair t x)
  show ?thesis
  proof (cases x)
    case (Inr v)
    obtain w where "f v t = (t, Inr w)" using assms(2) by blast
    with assms(1) Pair Inr show ?thesis by (simp add: goal_grows_def)
  qed (use assms(1) Pair in \<open>simp add: goal_grows_def\<close>)
qed

lemma on_session_event_log [simp]: "gx_log (on_session_event e s) = gx_log s"
  by (simp add: on_session_event_def split: event_data.split)

lemma goal_append_grows: "grows_log (gx_log s) (gx_log (session_append env d s))"
  by (simp add: session_append_def Let_def)

lemma commit_grows: "goal_grows s (Goal_Service.commit env c act s)"
proof -
  have "goal_grows s (checked r (\<lambda>p s. (s\<lparr>gx_emitted := f p s\<rparr>, Inr ())) t)" if "grows_log (gx_log s) (gx_log t)"
    for t f and r :: "goal_error + goal_projection option"
    using that by (cases r) (simp_all add: goal_grows_def)
  then show ?thesis
    using goal_append_grows [of "s\<lparr>gx_pendingActivation := Some (length (gx_log s), act)\<rparr>" env "GoalChange (change_value c)"]
    by (simp add: Goal_Service.commit_def Let_def)
qed

lemma commitCurrent_grows: "goal_grows s (commitCurrent env p operation g act s)"
  unfolding commitCurrent_def commitSnapshot_def by (intro goal_grows_then commit_grows) simp

lemma disarm_grows: "goal_grows s (goal_disarm env s)"
  by (simp add: goal_disarm_def Let_def checked_def goal_grows_def split: sum.split)

lemma block_grows: "goal_grows s (goal_block env ref reason s)"
  unfolding goal_block_def by (intro goal_grows_checked) (auto intro!: goal_grows_checked commitCurrent_grows)

lemma pause_grows: "goal_grows s (goal_pause env ref s)"
  unfolding goal_pause_def transition_def by (intro goal_grows_checked) (auto intro!: commitCurrent_grows)

lemma run_goal_grows: "goal_grows s (run_goal rounds env call s)"
proof -
  have wv: "goal_grows s (without_value r) \<longleftrightarrow> goal_grows s r" for r :: "goal_session \<times> (goal_error + 'a)"
    by (simp add: goal_grows_def without_value_def)
  have "goal_grows s (session_append env d s, Inr ())" for d
    by (simp add: goal_grows_def goal_append_grows)
  then show ?thesis
    by (cases call; simp only: run_goal.simps wv pause_grows block_grows disarm_grows goal_create_def goal_edit_def
        goal_resume_def goal_complete_def goal_clear_def transition_def session_start_def Let_def)
      (auto intro!: goal_grows_checked goal_grows_then commit_grows commitCurrent_grows
        simp: commitSnapshot_def split: prod.split)
qed

section \<open>What an identity and a revision name\<close>

text \<open>A goal that the log once held is either still the one of its revision, or a later revision has
  replaced it, or it is gone for good.\<close>

definition outlives :: "goal_snapshot \<Rightarrow> goal_fold_state \<Rightarrow> bool" where
  "outlives g st \<longleftrightarrow> gs_id g \<in> set (gf_seenGoalIds st)
     \<and> (\<forall>h. gf_goal st = Some h \<longrightarrow> gs_id h = gs_id g \<longrightarrow> h = g \<or> gs_revision g < gs_revision h)"

lemma change_outlives:
  assumes "outlives g st" "applyGoalChange st c = Inr st'"
  shows "outlives g st'"
proof (cases c)
  case (Tombstone ref t)
  with assms applyGoalChange_tombstone [of st ref t st'] show ?thesis by (auto simp: outlives_def)
next
  case (Snapshot d)
  with assms(2) obtain seen where seen: "admit_snapshot st d = Inr seen" and st': "st' =
       \<lparr>gf_goal = Some (sc_goal d), gf_roundsStarted = sc_roundsStarted d, gf_createdAt = Some (sc_createdAt d),
        gf_updatedAt = Some (sc_updatedAt d), gf_lastRef = Some (snapshot_ref (sc_goal d)), gf_seenGoalIds = seen\<rparr>"
    by (auto simp: applyGoalChange_snapshot)
  from seen show ?thesis
  proof (cases rule: admit_snapshot_cases)
    case create
    with assms(1) st' show ?thesis by (auto simp: outlives_def)
  next
    case (advance h)
    with assms(1) st' show ?thesis by (auto simp: outlives_def retains_def)
  qed
qed

lemma round_outlives: "outlives g st \<Longrightarrow> apply_round k st src = Inr st' \<Longrightarrow> outlives g st'"
  by (erule apply_round_cases) (auto simp: outlives_def)

lemma event_outlives: "outlives g st \<Longrightarrow> applyGoalEvent st e = Inr st' \<Longrightarrow> outlives g st'"
  using applyGoalEvent_Inr [of st e st'] change_outlives round_outlives by blast

lemma fold_outlives: "outlives g st \<Longrightarrow> fold_res applyGoalEvent st es = Inr st' \<Longrightarrow> outlives g st'"
  by (rule fold_res_invariant [of "outlives g"]) (rule event_outlives)

abbreviation goal_fold_of :: "session_event list \<Rightarrow> goal_fold_error + goal_fold_state" where
  "goal_fold_of es \<equiv> fold_res applyGoalEvent emptyGoalFoldState es"

lemma same_revision_same_goal:
  assumes grow: "grows_log p es" and p: "goal_fold_of p = Inr st" "gf_goal st = Some g"
    and es: "goal_fold_of es = Inr st'" "gf_goal st' = Some h"
    and same: "gs_id h = gs_id g" "gs_revision h = gs_revision g"
  shows "h = g"
proof -
  obtain x where "es = p @ x" using grow by (auto simp: grows_log_def)
  with p(1) es(1) have "fold_res applyGoalEvent st x = Inr st'" by (simp add: fold_res_append)
  moreover have "goal_inv st" using p(1) by (rule goal_fold.replay_from_init)
  then have "outlives g st" using p(2) by (simp add: outlives_def goal_inv_def)
  ultimately have "outlives g st'" using fold_outlives by blast
  with es(2) same show ?thesis by (auto simp: outlives_def)
qed

section \<open>Reservations\<close>

text \<open>The log once called for the round that the attempt stands for.\<close>

definition called_for :: "session_event list \<Rightarrow> round_attempt \<Rightarrow> bool" where
  "called_for es a \<longleftrightarrow> (\<exists>p st g. grows_log p es \<and> goal_fold_of p = Inr st \<and> gf_goal st = Some g
     \<and> gs_id g = ra_goalId a \<and> gs_revision g = ra_revision a \<and> ra_round a = gf_roundsStarted st + 1
     \<and> ra_round a \<le> gs_maxGoalRounds g \<and> ra_content a = renderGoalRoundPrompt g (ra_round a))"

lemma called_for_mono: "called_for es a \<Longrightarrow> grows_log es es' \<Longrightarrow> called_for es' a"
  unfolding called_for_def using grows_log_trans by blast

definition same_identity :: "round_attempt \<Rightarrow> round_attempt \<Rightarrow> bool" where
  "same_identity a b \<longleftrightarrow> ra_goalId b = ra_goalId a \<and> ra_revision b = ra_revision a \<and> ra_round b = ra_round a
     \<and> ra_content b = ra_content a"

lemma called_for_same: "same_identity a b \<Longrightarrow> called_for es b = called_for es a"
  by (simp add: called_for_def same_identity_def)

definition rounds_ok :: "round_world \<Rightarrow> bool" where
  "rounds_ok w \<longleftrightarrow> (\<forall>a. rd_attempt (rw_driver w) = Some a \<longrightarrow> called_for (world_log w) a)"

text \<open>What every step of the plugin and of others does.\<close>

definition onward :: "round_world \<Rightarrow> round_world \<Rightarrow> bool" where
  "onward w w' \<longleftrightarrow> grows_log (world_log w) (world_log w') \<and> (rounds_ok w \<longrightarrow> rounds_ok w')"

lemma onward_refl [simp]: "onward w w"
  by (simp add: onward_def)

lemma onward_trans: "onward w w' \<Longrightarrow> onward w' w'' \<Longrightarrow> onward w w''"
  unfolding onward_def using grows_log_trans by blast

lemma onward_log: "rw_driver w' = rw_driver w \<Longrightarrow> grows_log (world_log w) (world_log w') \<Longrightarrow> onward w w'"
  by (auto simp: onward_def rounds_ok_def intro: called_for_mono)

lemma on_driver_sel [simp]:
  "rw_driver (on_driver f w) = f (rw_driver w)" "rw_agent (on_driver f w) = rw_agent w"
  "rw_live (on_driver f w) = rw_live w" "rw_fiber (on_driver f w) = rw_fiber w"
  by (simp_all add: on_driver_def)

definition keeps_identity :: "(round_state \<Rightarrow> round_state) \<Rightarrow> bool" where
  "keeps_identity f \<longleftrightarrow> (\<forall>d b. rd_attempt (f d) = Some b \<longrightarrow> (\<exists>a. rd_attempt d = Some a \<and> same_identity a b))"

lemma onward_driver: "keeps_identity f \<Longrightarrow> onward w (on_driver f w)"
  unfolding onward_def rounds_ok_def keeps_identity_def using called_for_same by fastforce

lemma keeps_identity_simps [simp]:
  "keeps_identity (rd_attempt_update (\<lambda>_. None))" "keeps_identity (rd_competingQueued_update f1)"
  "keeps_identity (rd_needsCheckpoint_update f1)" "keeps_identity (rd_requested_update f1)"
  "keeps_identity (rd_stopping_update f1)"
  by (simp_all add: keeps_identity_def same_identity_def)

lemma keeps_identity_update: "(\<And>a. same_identity a (f a)) \<Longrightarrow> keeps_identity (update_attempt f)"
  by (auto simp: keeps_identity_def update_attempt_def)

lemma onward_goals:
  assumes "\<And>e s. goal_grows s (f e s)"
  shows "onward w (fst (on_goals f env w))"
proof -
  have "rw_driver (put_goals s w) = rw_driver w" "world_log (put_goals s w) = gx_log s" for s
    by (simp_all add: put_goals_def)
  moreover have "gx_log (goals_of w) = world_log w" by (simp add: goals_of_def)
  ultimately show ?thesis
    using assms [of "goals_of w" "goal_env_of env w"]
    by (intro onward_log) (auto simp: on_goals_def goal_grows_def split: prod.split)
qed

lemma onward_disarm: "onward w (disarm env w)"
  by (auto simp: disarm_def intro!: onward_goals disarm_grows split: sum.split option.split)

lemma onward_inserted: "onward w (on_inserted m w)"
proof -
  have "keeps_identity (\<lambda>d. case rd_attempt d of None \<Rightarrow> d\<lparr>rd_competingQueued := True\<rparr>
     | Some a \<Rightarrow> (if sameQueued m a then d
          else (if ra_phase a = QueuedRound then update_attempt (\<lambda>a. a\<lparr>ra_stale := True\<rparr>) d else d)\<lparr>rd_competingQueued := True\<rparr>))"
    by (auto simp: keeps_identity_def same_identity_def update_attempt_def split: option.splits if_splits)
  then show ?thesis unfolding on_inserted_def by (auto intro!: onward_driver split: sum.split)
qed

lemma onward_marked: "(\<And>a. same_identity a (f a)) \<Longrightarrow> onward w (mark_queued m f w)"
  unfolding mark_queued_def by (intro onward_driver keeps_identity_update) (simp add: same_identity_def)

lemma onward_signal: "onward w (on_signal w sig)"
  by (auto simp: on_signal_def onward_inserted on_claimed_def on_discarded_def same_identity_def
      intro!: onward_marked split: inbox_signal.split)

lemma onward_fold: "(\<And>w x. onward w (f w x)) \<Longrightarrow> onward w (foldl f w xs)"
  by (induction xs arbitrary: w) (auto intro: onward_trans)

lemma onward_agent:
  assumes "grows_log (world_log w) (ib_log (ag_session (fst (f (rw_agent w)))))"
  shows "onward w (fst (on_agent f w))"
proof -
  obtain a r where f: "f (rw_agent w) = (a, r)" by (cases "f (rw_agent w)")
  have "onward w (w\<lparr>rw_agent := a\<rparr>)" using assms f by (intro onward_log) simp_all
  then show ?thesis unfolding on_agent_def f by (auto intro: onward_trans onward_fold onward_signal)
qed

section \<open>The agent\<close>

definition agent_grows :: "agent \<Rightarrow> agent \<times> 'b \<Rightarrow> bool" where
  "agent_grows a r \<longleftrightarrow> grows_log (ib_log (ag_session a)) (ib_log (ag_session (fst r)))"

lemma agent_grows_then:
  assumes "agent_grows a r" "\<And>x b. agent_grows b (f x b)"
  shows "agent_grows a (then_run r f)"
proof (cases r)
  case (Pair b v)
  with assms(1) assms(2) [of b] show ?thesis by (cases v) (auto simp: agent_grows_def intro: grows_log_trans)
qed

lemma inbox_grows: "(\<And>s. extends s (fst (f s))) \<Longrightarrow> agent_grows a (on_inbox f a)"
  using on_inbox_calm [of f a] by (auto simp: agent_grows_def intro: calm_grows)

lemma wake_session [simp]: "ag_session (wakeDriver b a) = ag_session a"
  by (simp add: wakeDriver_def split: agent_phase.split)

lemma send_grows: "agent_grows a (send env m t w a)"
  unfolding send_def Let_def
  by (intro agent_grows_then inbox_grows) (simp_all add: splice_extends agent_grows_def)

lemma cancel_grows: "agent_grows a (cancel env c k a)"
  using cancel_calm [of a env c k] by (simp add: agent_grows_def calm_grows)

lemma append_data_grows: "agent_grows a (append_data env d op a)"
  by (simp add: agent_grows_def append_data_def push_record_def)

lemma retire_session [simp]: "ag_session (retire n b a) = ag_session a"
  by (simp add: retire_def Let_def)

lemma deliver_grows: "agent_grows a (deliver env a c, ())"
  using send_grows [unfolded agent_grows_def] cancel_grows [unfolded agent_grows_def] append_data_grows [unfolded agent_grows_def]
  by (simp add: agent_grows_def deliver_def begin_maintenance_def end_maintenance_def
      split: agent_command.split agent_phase.split)

lemma onward_called: "(\<And>a. agent_grows a (f a)) \<Longrightarrow> onward w (fst (on_agent f w))"
  by (rule onward_agent) (simp add: agent_grows_def)

section \<open>The task\<close>

text \<open>A goal that the driver sees is the one of the log.\<close>

lemma current_goal_folds:
  assumes "currentGoal env w = Inr (Some v)"
  obtains st where "goal_fold_of (world_log w) = Inr st" "gf_goal st = Some (gv_goal v)" "gv_roundsStarted v = gf_roundsStarted st"
proof -
  have "goal_state (goals_of w) \<noteq> Inl err" for err
    using assms by (auto simp: currentGoal_def goal_get_def prepareMutation_def res_simps split: if_splits)
  moreover have "goal_state (goals_of w) = Inl (the (map_option (\<lambda>(k, e). ReplayFailed k e) (ps_failure ps)))"
    if "ps = foldl applyGoalProjection goal_projection_init (world_log w)" "ps_failure ps \<noteq> None" for ps
    using that by (auto simp: goal_state_def goals_of_def Let_def)
  ultimately obtain st where st: "goal_fold_of (world_log w) = Inr st"
    using projection_run [of "world_log w"] latched_at_mono by (fastforce split: sum.splits)
  then have "goal_state (goals_of w) = Inr (current_of st)"
    by (intro fold_state) (simp add: goals_of_def)
  with assms have "view (current_of st) (rw_activation w) = Some v"
    by (auto simp: currentGoal_def goal_get_def prepareMutation_def goals_of_def split: if_splits)
  with st that show ?thesis by (auto simp: view_def current_of_def)
qed

lemma called_now:
  assumes now: "currentGoal env w = Inr (Some v)" and room: "gv_roundsStarted v < gs_maxGoalRounds (gv_goal v)"
  shows "called_for (world_log w) (reservation (round_message env v) v)"
proof -
  obtain st where "goal_fold_of (world_log w) = Inr st" "gf_goal st = Some (gv_goal v)" "gv_roundsStarted v = gf_roundsStarted st"
    using current_goal_folds [OF now] .
  with room show ?thesis unfolding called_for_def
    by (intro exI [of _ "world_log w"] exI [of _ st] exI [of _ "gv_goal v"])
      (simp add: reservation_def round_message_def Let_def)
qed

lemma onward_block: "onward w (fst (block_goal env v reason w))"
  using onward_goals [where f = "\<lambda>e. goal_block e (goalRef v) reason" and env = env and w = w] block_grows
  by (auto simp: block_goal_def split: prod.split sum.split)

lemma onward_cleared: "onward w (on_driver (rd_attempt_update (\<lambda>_. None)) w)"
  by (intro onward_driver) simp

lemma onward_queue_failed: "onward w (fst (queue_failed env v err w))"
proof (rule onward_trans [OF onward_cleared])
  show "onward (on_driver (rd_attempt_update (\<lambda>_. None)) w) (fst (queue_failed env v err w))"
    by (simp add: queue_failed_def Let_def onward_block split: sum.split option.split)
qed

lemma onward_reserve:
  assumes "currentGoal env w = Inr (Some v)" "gv_roundsStarted v < gs_maxGoalRounds (gv_goal v)"
  shows "onward w (fst (reserve env v w))"
proof -
  define m where "m = round_message env v"
  define w1 where "w1 = on_driver (rd_attempt_update (\<lambda>_. Some (reservation m v))) w"
  have "onward w w1"
    using called_now [OF assms] by (simp add: w1_def m_def onward_def rounds_ok_def)
  also have "onward w1 (fst (on_agent (followup (re_agent env) m) w1))"
    by (intro onward_called) (simp add: followup_def send_grows)
  finally (onward_trans) have "onward w (fst (on_agent (followup (re_agent env) m) w1))" .
  moreover obtain w2 r where run: "on_agent (followup (re_agent env) m) w1 = (w2, r)"
    by (cases "on_agent (followup (re_agent env) m) w1")
  ultimately have "onward w w2" by simp
  moreover have "reserve env v w = (case r of Inr u \<Rightarrow> (w2, Driven) | Inl err \<Rightarrow> queue_failed env v err w2)"
    using run by (simp add: reserve_def Let_def m_def w1_def split: sum.split)
  ultimately show ?thesis
    by (cases r) (auto intro: onward_trans [OF _ onward_queue_failed])
qed

lemma onward_drive_on: "onward w (fst (drive_on env w))"
proof -
  have "onward w (on_driver (\<lambda>d. d\<lparr>rd_attempt := None, rd_needsCheckpoint := True, rd_requested := True\<rparr>) w)"
    by (intro onward_driver) (simp add: keeps_identity_def)
  then show ?thesis
    by (auto simp: drive_on_def not_le onward_block onward_reserve split: option.split sum.split)
qed

lemma onward_drive: "onward w (fst (drive_round env w))"
  by (simp add: drive_round_def onward_drive_on onward_driver)

lemma onward_flushed: "onward w (fst (drive_flushed env b w))"
  by (simp add: drive_flushed_def onward_drive_on onward_disarm)

lemma onward_task:
  "onward w (start_task t w)" "onward w (set_task i t w)"
  unfolding start_task_def set_task_def by (intro onward_driver; simp add: keeps_identity_def same_identity_def)+

lemma onward_request: "onward w (requestDrive env w)"
proof (induction env w rule: requestDrive.induct)
  case (1 env w)
  let ?w = "on_driver (rd_requested_update (\<lambda>_. False)) w"
  have to: "onward w (fst (drive_round env ?w))"
    by (intro onward_trans [OF onward_driver onward_drive]) simp
  show ?case
  proof (cases "rd_stopping (rw_driver w) \<or> rd_run (rw_driver w)")
    case True
    then show ?thesis by (subst requestDrive.simps) (auto simp: onward_driver)
  next
    case False
    obtain w1 e where d: "drive_round env ?w = (w1, e)" by (cases "drive_round env ?w")
    have "onward w1 (requestDrive env w)"
    proof (cases e)
      case DrivenWithChange
      have "onward w1 (requestDrive env (on_driver (rd_needsCheckpoint_update (\<lambda>_. True)) w1))"
      proof (rule onward_trans [OF onward_driver])
        show "onward (on_driver (rd_needsCheckpoint_update (\<lambda>_. True)) w1) (requestDrive env (on_driver (rd_needsCheckpoint_update (\<lambda>_. True)) w1))"
          by (rule 1) (use False d DrivenWithChange in simp_all)
      qed simp
      with False d DrivenWithChange show ?thesis
        by (subst requestDrive.simps) (simp add: onward_trans [OF _ onward_task(1)])
    qed (use False d in \<open>subst requestDrive.simps, simp add: onward_task\<close>)+
    then show ?thesis by (rule onward_trans [rotated]) (use to d in simp)
  qed
qed

section \<open>The listeners\<close>

lemma onward_changed: "onward w (on_goal_changed env operation byAgent w)"
proof -
  have "onward w (on_driver (rd_needsCheckpoint_update (\<lambda>_. True)) w)" by (intro onward_driver) simp
  moreover have "onward w1 (fst (on_agent (cancel (re_agent env) ByUser True) w1))" for w1
    by (intro onward_called cancel_grows)
  ultimately show ?thesis unfolding on_goal_changed_def Let_def
    by (intro onward_trans [OF _ onward_request]) (auto intro: onward_trans)
qed

lemma onward_goal_called:
  assumes "\<And>e s. goal_grows s (f e s)"
  shows "onward w (fst (goal_called env byAgent f w))"
proof -
  obtain w1 r where run: "on_goals f env w = (w1, r)" by (cases "on_goals f env w")
  have "onward w w1" using onward_goals [of f w env] assms run by simp
  then show ?thesis unfolding goal_called_def run
    by (auto intro: onward_trans onward_fold onward_changed)
qed

lemma onward_idle: "onward w (on_idle env w)"
proof -
  let ?w = "on_driver (rd_competingQueued_update (\<lambda>_. False)) w"
  have start: "onward w ?w" by (intro onward_driver) simp
  have pause: "onward w1 (fst (goal_called env False (\<lambda>e. goal_pause e ref) (on_driver (rd_attempt_update (\<lambda>_. None)) w1)))" for w1 ref
    by (rule onward_trans [OF onward_cleared]) (intro onward_goal_called pause_grows)
  have "onward w1 (case goal_called env False (\<lambda>e. goal_pause e ref) (on_driver (rd_attempt_update (\<lambda>_. None)) w1) of
      (w2, Inl err) \<Rightarrow> disarm env w2 | (w2, Inr u) \<Rightarrow> w2)" for w1 ref
    using pause [of w1 ref] by (auto intro: onward_trans onward_disarm split: prod.split sum.split)
  then show ?thesis unfolding on_idle_def Let_def
    by (auto intro!: onward_trans [OF start] onward_trans [OF _ onward_request] split: sum.split option.split)
qed

lemma onward_settle: "onward w (fst r) \<Longrightarrow> onward w (settle_drive env i r)"
  by (auto simp: settle_drive_def split: prod.split drive_end.split intro: onward_trans [OF _ onward_task(2)] onward_trans [OF onward_trans [OF _ onward_changed] onward_task(2)])

lemma onward_loop: "onward w (loop_again env i w)"
proof -
  have "onward w (fst (drive_round env (on_driver (rd_requested_update (\<lambda>_. False)) w)))"
    by (rule onward_trans [OF onward_driver onward_drive]) simp
  then show ?thesis by (simp add: loop_again_def onward_settle onward_task)
qed

lemma onward_retire: "onward w (retire_task env i w)"
proof -
  have "onward w (on_driver (\<lambda>d. d\<lparr>rd_run := False, rd_tasks := take i (rd_tasks d) @ drop (Suc i) (rd_tasks d)\<rparr>) w)"
    by (intro onward_driver) (simp add: keeps_identity_def same_identity_def)
  then show ?thesis unfolding retire_task_def Let_def by (auto intro: onward_trans onward_request)
qed

lemma onward_resume: "onward w (resume_task env i b w)"
  by (simp add: resume_task_def onward_loop onward_retire onward_settle onward_flushed
      onward_trans [OF onward_disarm onward_loop] split: round_task.split)

section \<open>The fence\<close>

lemma onward_then:
  "onward w (fst r) \<Longrightarrow> (\<And>x w1. onward w1 (fst (f x w1))) \<Longrightarrow> onward w (fst (then_run r f))"
  by (cases r; cases "snd r") (auto intro: onward_trans)

lemma onward_restore: "onward w (fst (restore_all env ms w))"
proof (induction ms arbitrary: w)
  case (Cons m ms)
  have "onward w (fst (on_agent (on_inbox (prepend_message (ae_inbox (re_agent env)) NextStep m)) w))"
    by (intro onward_called inbox_grows) (simp add: prepend_message_def splice_extends)
  then show ?case by (auto intro: onward_then Cons.IH split: sum.split)
qed simp

lemma onward_reject: "onward w (fst (reject_round env ms m w))"
  unfolding reject_round_def restoreOtherClaimed_def by (intro onward_then onward_restore) (simp add: onward_request)

lemma onward_clear_attempt: "onward w (clear_attempt w)"
  by (simp add: clear_attempt_def onward_cleared)

lemma onward_check: "onward w (fst (check_reservation env m w))"
  by (simp add: check_reservation_def onward_disarm split: sum.split)

lemma onward_fence: "onward w (fst (fence_step env ms w))"
proof (cases "find (\<lambda>m. isGoalRoundSource (um_source m)) ms")
  case (Some m)
  obtain w1 valid where run: "check_reservation env m w = (w1, valid)" by (cases "check_reservation env m w")
  have checked: "onward w w1" using onward_check [of w env m] run by simp
  have "onward w1 (if b then clear_attempt w1 else w1)" for b by (simp add: onward_clear_attempt)
  then have "onward w1 (fst (reject_round env ms m (if b then clear_attempt w1 else w1)))" for b
    by (rule onward_trans [OF _ onward_reject])
  then have dropped: "onward w1 (fst (then_run (reject_round env ms m (if b then clear_attempt w1 else w1)) (\<lambda>_ w2. (w2, Inr RoundDropped))))" for b
    by (rule onward_then) simp
  show ?thesis
  proof (cases valid)
    case True
    with checked show ?thesis by (simp add: fence_step_def Some run)
  next
    case False
    then show ?thesis
      by (simp only: fence_step_def Some run option.case prod.case bool.case) (rule onward_trans [OF checked dropped])
  qed
qed (simp add: fence_step_def)

lemma onward_round_rejected: "onward w (fst (round_rejected env m w))"
proof -
  have "onward w (fst (case goal_called env True (\<lambda>e. goal_block e ref prompt_rejected) w of
      (w1, Inl err) \<Rightarrow> (w1, Inl ''goal error'') | (w1, Inr u) \<Rightarrow> (w1, Inr ())))" for ref
    using onward_goal_called [of "\<lambda>e. goal_block e ref prompt_rejected" w env True] block_grows
    by (auto split: prod.split sum.split)
  then show ?thesis by (simp add: round_rejected_def split: sum.split option.split)
qed

lemma onward_decision: "onward w (fst (fence_decision env m decision aborted w))"
proof -
  have "onward w (requestDrive env (clear_attempt w))"
    by (rule onward_trans [OF onward_clear_attempt onward_request])
  moreover have "onward w (fst (then_run (round_rejected env m (clear_attempt w)) (\<lambda>_ w1. (w1, Inr RejectStep))))"
    by (intro onward_then onward_trans [OF onward_clear_attempt onward_round_rejected]) simp
  moreover have "onward w (fst (then_run (restoreOtherClaimed env ms i w) (\<lambda>_ w1. (w1, Inr (EnterStep ms b)))))" for ms i b
    unfolding restoreOtherClaimed_def by (intro onward_then onward_restore) simp
  moreover have "onward w1 (fst (then_run (reject_round env ms m (clear_attempt w1)) (\<lambda>_ w2. (w2, Inr RejectStep))))" for ms w1
    by (intro onward_then onward_trans [OF onward_clear_attempt onward_reject]) simp
  then have "onward w (fst (case check_reservation env m w of (w1, True) \<Rightarrow> (w1, Inr (EnterStep ms True))
      | (w1, False) \<Rightarrow> then_run (reject_round env ms m (clear_attempt w1)) (\<lambda>_ w2. (w2, Inr RejectStep))))" for ms
    using onward_check [of w env m] by (auto intro: onward_trans split: prod.split bool.split)
  ultimately show ?thesis
    by (simp add: fence_decision_def split: sum.split pre_step_decision.split)
qed

section \<open>Histories\<close>

lemma onward_stop: "onward w (stop_rounds env w)"
proof -
  define w1 where "w1 = disarm env (on_driver (rd_stopping_update (\<lambda>_. True)) w)"
  define w2 where "w2 = on_driver (update_attempt (\<lambda>a. a\<lparr>ra_stale := True\<rparr>)) w1"
  have "onward w w1" unfolding w1_def by (rule onward_trans [OF onward_driver onward_disarm]) simp
  moreover have "onward w1 w2" unfolding w2_def
    by (intro onward_driver keeps_identity_update) (simp add: same_identity_def)
  moreover have "onward w2 (fst (on_agent (cancel (re_agent env) ByParent False) w2))"
    by (intro onward_called cancel_grows)
  ultimately show ?thesis
    by (auto simp: stop_rounds_def Let_def w1_def [symmetric] w2_def [symmetric] intro: onward_trans)
qed

lemma put_goals_sel [simp]:
  "world_log (put_goals s w) = gx_log s" "rw_driver (put_goals s w) = rw_driver w" "gx_log (goals_of w) = world_log w"
  by (simp_all add: put_goals_def goals_of_def)

lemma onward_event: "onward w (on_event env d w)"
proof -
  have "onward w (on_driver (update_attempt f) w)" if "\<And>a. same_identity a (f a)" for f
    using that by (intro onward_driver keeps_identity_update)
  then show ?thesis
    by (auto simp: on_event_def onward_disarm same_identity_def split: event_data.split option.split)
qed

lemma onward_logged: "onward w (log_any env d w)"
proof -
  obtain a r where run: "append_data (re_agent env) d JUndef (rw_agent w) = (a, r)"
    by (cases "append_data (re_agent env) d JUndef (rw_agent w)")
  have "grows_log (world_log w) (ib_log (ag_session a))"
    using append_data_grows [of "rw_agent w" "re_agent env" d JUndef] run by (simp add: agent_grows_def)
  then have "onward w (put_goals (on_session_event e (goals_of (w\<lparr>rw_agent := a\<rparr>))) (w\<lparr>rw_agent := a\<rparr>))" for e
    by (intro onward_log) simp_all
  then show ?thesis
    unfolding log_any_def run by (auto simp: Let_def intro: onward_trans [OF _ onward_event] split: sum.split)
qed

lemma onward_run: "onward w (run_round env action w)"
proof -
  have "onward w (w\<lparr>rw_fiber := False\<rparr>)" "onward w (w\<lparr>rw_live := False\<rparr>)"
    "onward w (w\<lparr>rw_agent := setPhase p (rw_agent w)\<rparr>)" for p
    by (intro onward_log; simp)+
  moreover have "onward w (on_session_start (put_goals (session_start (goals_of w)) w))"
    unfolding on_session_start_def
    by (rule onward_trans [OF onward_log onward_driver]) (simp_all add: session_start_def keeps_identity_def)
  moreover have "onward w (fst (on_agent (\<lambda>a. (deliver (re_agent env) a c, ())) w))" for c
    by (intro onward_called deliver_grows)
  moreover have "onward w (fst (on_agent (on_inbox (claim e target turn)) w))" for e target turn
    by (intro onward_called inbox_grows claim_extends)
  moreover have "onward w (fst (goal_called env b (\<lambda>e. run_goal rounds e call) w))" for b rounds call
    by (intro onward_goal_called run_goal_grows)
  ultimately show ?thesis
    by (auto simp: run_round_def Let_def onward_logged on_error_def onward_disarm onward_resume onward_fence onward_decision
        intro: onward_trans [OF _ onward_idle] onward_trans [OF _ onward_stop] split: round_action.split agent_command.split)
qed

lemma reserved_rounds:
  "rd_attempt (rw_driver w) = None \<Longrightarrow> rounds_ok (run_rounds actions w)"
  using onward_fold [of "\<lambda>w (env, action). run_round env action w" w actions] onward_run
  by (auto simp: run_rounds_def onward_def rounds_ok_def split: prod.splits)

section \<open>Admission\<close>

lemma round_numbers [simp]:
  "nonpositive_round (JNum (js_int k)) \<longleftrightarrow> k \<le> 0" "round_exceeds (JNum (js_int k)) cap \<longleftrightarrow> cap < k"
  by (simp_all add: nonpositive_round_def round_exceeds_def js_int_def)

lemma valid_round:
  assumes ok: "rounds_ok w" and valid: "validReservation env m w = Inr True"
  obtains st g where "goal_fold_of (world_log w) = Inr st" "gf_goal st = Some g" "gs_phase g = Active"
    "um_source m = SrcGoal (JStr (gs_id g)) (JNum (js_int (gs_revision g))) (JNum (js_int (gf_roundsStarted st + 1)))"
    "gf_roundsStarted st + 1 \<le> gs_maxGoalRounds g" "deep_eq (um_content m) (renderGoalRoundPrompt g (gf_roundsStarted st + 1))"
proof -
  obtain v a where v: "currentGoal env w = Inr (Some v)" "names_goal (um_source m) v" "names_next_round (um_source m) v"
    and a: "rd_attempt (rw_driver w) = Some a" "sameQueued m a"
    using valid by (auto simp: validReservation_def res_simps split: option.splits)
  obtain st where st: "goal_fold_of (world_log w) = Inr st" "gf_goal st = Some (gv_goal v)" "gv_roundsStarted v = gf_roundsStarted st"
    using current_goal_folds [OF v(1)] .
  have inv: "goal_inv st" using st(1) by (rule goal_fold.replay_from_init)
  obtain p st0 g where g: "grows_log p (world_log w)" "goal_fold_of p = Inr st0" "gf_goal st0 = Some g" "gs_id g = ra_goalId a"
    "gs_revision g = ra_revision a" "ra_round a = gf_roundsStarted st0 + 1" "ra_round a \<le> gs_maxGoalRounds g"
    "ra_content a = renderGoalRoundPrompt g (ra_round a)"
    using ok a(1) unfolding rounds_ok_def called_for_def by blast
  have pos: "1 \<le> gs_revision (gv_goal v)" "0 \<le> gf_roundsStarted st"
    using inv st(2) by (simp_all add: goal_inv_def wf_snapshot_def)
  obtain n where n: "um_source m = SrcGoal (JStr (gs_id (gv_goal v))) (JNum (js_int (gs_revision (gv_goal v)))) n"
    "gs_phase (gv_goal v) = Active"
    using v(2) pos by (auto simp: names_goal_def js_same_positive' split: message_source.splits)
  have upcoming: "n = JNum (js_int (gf_roundsStarted st + 1))"
    using v(3) st(3) pos by (simp add: names_next_round_def n js_same_positive)
  have same: "gs_id (gv_goal v) = gs_id g" "gs_revision (gv_goal v) = gs_revision g" "gf_roundsStarted st + 1 = ra_round a"
    using a(2) g by (simp_all add: sameQueued_def sameRound_def n upcoming)
  have "gv_goal v = g"
    using same_revision_same_goal [OF g(1-3) st(1,2) same(1,2)] .
  then show ?thesis
    using that [OF st(1,2)] n upcoming same(3) g a(2) by (simp add: sameQueued_def)
qed


text \<open>A goal is created, its first round reserved after the checkpoint, queued and claimed.\<close>

definition sample_round_env :: round_env where
  "sample_round_env = \<lparr>re_agent = sample_driver_env (\<lambda>k. []) (\<lambda>k. []), re_goal = \<lparr>ge_now = 1, ge_uuid = ''g'',
     ge_live = True, ge_admits = (\<lambda>es v. True)\<rparr>, re_messageId = ''r1''\<rparr>"

definition sample_rounds :: round_world where
  "sample_rounds = \<lparr>rw_agent = sample_agent \<lparr>ib_log = [], ib_signals = []\<rparr>, rw_activation = Disarmed,
     rw_pendingActivation = None, rw_emitted = [], rw_driver = newRoundState, rw_live = True, rw_fiber = True\<rparr>"

definition sample_round_actions :: "round_action list" where
  "sample_round_actions = [GoalCalled True 256 (CreateCall (JStr ''ship'') (JNum (js_int 2))), TaskResumed 0 True,
     EventLogged (TurnStart 1), InputClaimed NextTurn 1]"

definition sample_claimed :: round_world where
  "sample_claimed = run_rounds (map (Pair sample_round_env) sample_round_actions) sample_rounds"

definition sample_continuation :: user_message where
  "sample_continuation = \<lparr>um_id = ''r1'', um_source = SrcGoal (JStr ''goal-g'') (JNum (js_int 1)) (JNum (js_int 1)),
     um_content = renderGoalRoundPrompt \<lparr>gs_id = ''goal-g'', gs_revision = 1, gs_objective = ''ship'', gs_phase = Active,
       gs_blockedReason = None, gs_maxGoalRounds = 2\<rparr> 1\<rparr>"

text \<open>The same, stretch by stretch.\<close>

definition sample_created :: round_world where
  "sample_created = on_driver (rd_needsCheckpoint_update (\<lambda>_. True))
     (fst (on_goals (\<lambda>e. run_goal 256 e (CreateCall (JStr ''ship'') (JNum (js_int 2)))) sample_round_env sample_rounds))"

definition sample_flushing :: round_world where
  "sample_flushing = start_task AtFlush (fst (drive_round sample_round_env (on_driver (rd_requested_update (\<lambda>_. False)) sample_created)))"

definition sample_reserved :: round_world where
  "sample_reserved = set_task 0 AtLoop (fst (drive_flushed sample_round_env True sample_flushing))"

definition sample_submitted :: round_world where
  "sample_submitted = fst (on_agent (on_inbox (claim (ae_inbox (re_agent sample_round_env)) NextTurn 1))
     (log_any sample_round_env (TurnStart 1) sample_reserved))"

lemma requestDrive_once:
  assumes "\<not> rd_stopping (rw_driver w)" "\<not> rd_run (rw_driver w)"
    and "snd (drive_round env (on_driver (rd_requested_update (\<lambda>_. False)) w)) = Flushing"
  shows "requestDrive env w = start_task AtFlush (fst (drive_round env (on_driver (rd_requested_update (\<lambda>_. False)) w)))"
  using assms by (subst requestDrive.simps) (auto split: prod.split)

lemma sample_creation:
  "run_round sample_round_env (GoalCalled True 256 (CreateCall (JStr ''ship'') (JNum (js_int 2)))) sample_rounds = sample_flushing"
proof -
  let ?call = "\<lambda>e. run_goal 256 e (CreateCall (JStr ''ship'') (JNum (js_int 2)))"
  let ?w = "fst (on_goals ?call sample_round_env sample_rounds)"
  have emitted: "map gc_operation (rw_emitted ?w) = [OpCreate]" "rw_emitted sample_rounds = []" by code_simp+
  have "\<not> rd_stopping (rw_driver sample_created)" "\<not> rd_run (rw_driver sample_created)" by code_simp+
  moreover have "snd (drive_round sample_round_env (on_driver (rd_requested_update (\<lambda>_. False)) sample_created)) = Flushing"
    by code_simp
  ultimately have "requestDrive sample_round_env sample_created = sample_flushing"
    unfolding sample_flushing_def by (rule requestDrive_once)
  then have "on_goal_changed sample_round_env OpCreate True ?w = sample_flushing"
    by (simp add: on_goal_changed_def Let_def sample_created_def)
  moreover obtain c where "rw_emitted ?w = [c]" "gc_operation c = OpCreate" using emitted(1) by auto
  ultimately show ?thesis using emitted(2) by (auto simp: run_round_def goal_called_def split: prod.splits)
qed

lemma sample_reservation: "run_round sample_round_env (TaskResumed 0 True) sample_flushing = sample_reserved"
proof -
  have "rd_tasks (rw_driver sample_flushing) = [AtFlush]" by code_simp
  moreover have "snd (drive_flushed sample_round_env True sample_flushing) = Driven" by code_simp
  ultimately show ?thesis
    by (auto simp: run_round_def resume_task_def settle_drive_def sample_reserved_def split: prod.split)
qed

lemma sample_claimed_submitted: "sample_claimed = sample_submitted"
proof -
  have "run_rounds (map (Pair env) (x # xs)) w = run_rounds (map (Pair env) xs) (run_round env x w)" for env x xs w
    by (simp add: run_rounds_def)
  moreover have "run_rounds (map (Pair env) []) w = w" for env w by (simp add: run_rounds_def)
  ultimately show ?thesis
    unfolding sample_claimed_def sample_round_actions_def
    by (simp only: sample_creation sample_reservation) (simp add: run_round_def sample_submitted_def)
qed


end
