(* ===== verification/Runtime_Context.thy ===== *)
theory Runtime_Context
  imports Surface
begin

text \<open>
  The runtime context that the driver shows a model, \<^verbatim>\<open>packages/core/agent-loop/src/runtime-context.ts\<close>: the
  last snapshot still on the surface, followed event by event while an agent lives and searched for in the
  log when it is restored. A step proposes a new snapshot only when the rendered context differs from it.
\<close>

section \<open>Model\<close>

text \<open>\<open>undefined\<close>: no snapshot ever existed; \<open>null\<close>: none is retained.\<close>

type_synonym retained_context = "(nat \<times> string option) option option"

definition SOURCE :: string where
  "SOURCE = ''@deepseek-ai/dsh-system-prompt''"

definition CLEARED :: string where
  "CLEARED = ''Current runtime context: none. Earlier runtime-context snapshots no longer apply.''"

definition isOwned :: "user_message \<Rightarrow> bool" where
  "isOwned m \<longleftrightarrow> um_source m = SrcPlugin SOURCE"

definition textOf :: "user_message \<Rightarrow> string option" where
  "textOf m = (case um_content m of
     JArr [block] \<Rightarrow> (if get block ''type'' = JStr ''text''
        then (case get block ''text'' of JStr s \<Rightarrow> Some s | _ \<Rightarrow> None) else None)
   | _ \<Rightarrow> None)"

definition owned_message :: "session_event \<Rightarrow> user_message option" where
  "owned_message e = (case ev_data e of UserMessage m \<Rightarrow> if isOwned m then Some m else None | _ \<Rightarrow> None)"

text \<open>The loop of the constructor, from the newest event down; \<open>surface\<close> is the set of current nodes.\<close>

fun restore_scan :: "session_event list \<Rightarrow> nat set \<Rightarrow> nat \<Rightarrow> retained_context \<Rightarrow> retained_context" where
  "restore_scan es surface 0 r = r"
| "restore_scan es surface (Suc i) r = (case owned_message (es ! i) of
     None \<Rightarrow> restore_scan es surface i r
   | Some m \<Rightarrow>
      (let r1 = (if r = None then Some None else r) in
       if ev_seq (es ! i) \<in> surface then Some (Some (ev_seq (es ! i), textOf m)) else restore_scan es surface i r1))"

definition restore_context :: "session_event list \<Rightarrow> nat list \<Rightarrow> retained_context" where
  "restore_context es ns = restore_scan es (set ns) (length es) None"

definition cites_seq :: "session_event \<Rightarrow> nat \<Rightarrow> bool" where
  "cites_seq e s = (case ev_sources e of JArr vs \<Rightarrow> JNum (js_int (int s)) \<in> set vs | _ \<Rightarrow> False)"

definition follow_context :: "retained_context \<Rightarrow> session_event \<Rightarrow> retained_context" where
  "follow_context r e = (case owned_message e of
     Some m \<Rightarrow> Some (Some (ev_seq e, textOf m))
   | None \<Rightarrow> (case r of
       Some (Some (s, t)) \<Rightarrow> if isReplacementSurfaceEvent e \<and> cites_seq e s then Some None else r
     | _ \<Rightarrow> r))"

definition context_message :: "string \<Rightarrow> string \<Rightarrow> user_message" where
  "context_message messageId snapshot = \<lparr>um_id = messageId, um_source = SrcPlugin SOURCE,
     um_content = JArr [JObj [(''type'', JStr ''text''), (''text'', JStr snapshot)]]\<rparr>"

definition project_context :: "string \<Rightarrow> string \<Rightarrow> retained_context \<Rightarrow> user_message option" where
  "project_context messageId rendered r =
     (if r = None \<and> rendered = [] then None
      else let snapshot = (if rendered = [] then CLEARED else rendered) in
        if (case r of Some (Some (s, t)) \<Rightarrow> t = Some snapshot | _ \<Rightarrow> False) then None
        else Some (context_message messageId snapshot))"

section \<open>Following the log\<close>

text \<open>After \<open>k\<close> events with surface \<open>ns\<close>: the retained snapshot is the newest one, and it is on the surface.\<close>

definition context_at :: "session_event list \<Rightarrow> nat \<Rightarrow> nat list \<Rightarrow> retained_context \<Rightarrow> bool" where
  "context_at es k ns r \<longleftrightarrow> (r = None \<longleftrightarrow> (\<forall>i < k. owned_message (es ! i) = None))
     \<and> (\<forall>s t. r = Some (Some (s, t)) \<longrightarrow> s < k \<and> s \<in> set ns \<and> map_option textOf (owned_message (es ! s)) = Some t
          \<and> (\<forall>i < k. s < i \<longrightarrow> owned_message (es ! i) = None))"

lemma event_seq_number: "isEventSeq v \<Longrightarrow> v = JNum (js_int (int (seq_of v)))"
  by (auto simp: isEventSeq_def seq_of_def is_safe_integer_def js_int_def int_of_number_def split: jsval.splits js_number.splits)

lemma collect_sources_in:
  "collect_sources vs = Inr ss \<Longrightarrow> s \<in> set ss \<Longrightarrow> JNum (js_int (int s)) \<in> set vs"
  by (induction vs arbitrary: ss) (auto simp: res_simps split: if_splits dest: event_seq_number [symmetric])

lemma provenance_cites:
  assumes "assertProvenance e shadowed = Inr ()" "s \<in> set shadowed"
  shows "cites_seq e s"
proof -
  obtain ss where "checked_sources e = Inr ss" "s \<in> set ss"
    using assms by (auto simp: assertProvenance_def res_simps Let_def filter_empty_conv split: if_splits)
  then show ?thesis using collect_sources_in [of _ ss s]
    by (auto simp: checked_sources_def cites_seq_def res_simps split: if_splits jsval.splits option.splits)
qed

lemma owned_surface: "owned_message e = Some m \<Longrightarrow> is_surface_data (ev_data e)"
  by (auto simp: owned_message_def is_surface_data_def split: event_data.splits if_splits)

text \<open>The surface after one event: it gains the event if it is a message, and loses only what it cites.\<close>

lemma fold_index_nodes:
  assumes "fold_index es 0 acc k = Inr acc'"
  shows "ev_seq (es ! k) = k" "is_surface_data (ev_data (es ! k)) \<Longrightarrow> k \<in> set (nodes (fst acc'))"
    and "s \<in> set (nodes (fst acc)) \<Longrightarrow> s \<in> set (nodes (fst acc')) \<or> isReplacementSurfaceEvent (es ! k) \<and> cites_seq (es ! k) s"
proof -
  obtain plan where plan: "planSurfaceEvent (fst acc) (es ! k) k es 0 = Inr plan"
    and acc': "fst acc' = fst (applySurfacePlan (fst acc) plan)"
    using assms by (auto simp: fold_index_def applySurfaceEvent_def res_simps split: prod.splits)
  have "ev_seq (es ! k) = k \<and> (is_surface_data (ev_data (es ! k)) \<longrightarrow> k \<in> set (nodes (fst acc')))
    \<and> (s \<in> set (nodes (fst acc)) \<longrightarrow> s \<in> set (nodes (fst acc')) \<or> isReplacementSurfaceEvent (es ! k) \<and> cites_seq (es ! k) s)" for s
    using plan
  proof (cases rule: planSurfaceEvent_cases)
    case (replace start stop si ei)
    have "set (nodes (fst acc')) \<union> set (slice (nodes (fst acc)) si (ei + 1)) = set (nodes (fst acc)) \<union> {k}"
      using arg_cong [OF splice_shadow [OF replace(5,6), of k], of set_mset] acc' replace(1) by auto
    moreover have "k \<in> set (nodes (fst acc'))" using acc' replace(1) by (simp add: toSpliced_def)
    ultimately show ?thesis
      using replace provenance_cites by (auto simp: isReplacementSurfaceEvent_def isSurfaceEvent_def)
  qed (use acc' in auto)
  then show "ev_seq (es ! k) = k" "is_surface_data (ev_data (es ! k)) \<Longrightarrow> k \<in> set (nodes (fst acc'))"
    "s \<in> set (nodes (fst acc)) \<Longrightarrow> s \<in> set (nodes (fst acc')) \<or> isReplacementSurfaceEvent (es ! k) \<and> cites_seq (es ! k) s"
    by auto
qed

lemma follow_context_at:
  assumes at: "context_at es k (nodes (fst acc)) r" and step: "fold_index es 0 acc k = Inr acc'"
  shows "context_at es (Suc k) (nodes (fst acc')) (follow_context r (es ! k))"
proof (cases "owned_message (es ! k)")
  case (Some m)
  with fold_index_nodes [OF step] owned_surface [OF Some] show ?thesis
    by (auto simp: context_at_def follow_context_def)
next
  case None
  then have all: "(\<forall>i < Suc k. P i \<longrightarrow> owned_message (es ! i) = None) \<longleftrightarrow> (\<forall>i < k. P i \<longrightarrow> owned_message (es ! i) = None)" for P
    by (auto simp: less_Suc_eq)
  from at fold_index_nodes(3) [OF step] None show ?thesis
    by (auto simp: context_at_def follow_context_def less_Suc_eq split: option.splits if_splits)
qed

lemma context_followed:
  "fold_prefix es 0 k = Inr acc \<Longrightarrow> k \<le> length es \<Longrightarrow> context_at es k (nodes (fst acc)) (foldl follow_context None (take k es))"
proof (induction k arbitrary: acc)
  case 0
  then show ?case by (simp add: context_at_def)
next
  case (Suc k)
  then obtain acc0 where acc0: "fold_prefix es 0 k = Inr acc0" "fold_index es 0 acc0 k = Inr acc"
    by (auto simp: fold_prefix_Suc res_simps)
  with Suc have "context_at es k (nodes (fst acc0)) (foldl follow_context None (take k es))" by simp
  from follow_context_at [OF this acc0(2)] Suc.prems(2) show ?case by (simp add: take_Suc_conv_app_nth)
qed

section \<open>Searching the log\<close>

lemma scan_None: "restore_scan es surface k r = None \<longleftrightarrow> r = None \<and> (\<forall>i < k. owned_message (es ! i) = None)"
  by (induction k arbitrary: r) (auto simp: Let_def less_Suc_eq split: option.split)

lemma scan_top:
  "i < k \<Longrightarrow> owned_message (es ! i) = Some m \<Longrightarrow> ev_seq (es ! i) \<in> surface \<Longrightarrow>
     (\<And>j. i < j \<Longrightarrow> j < k \<Longrightarrow> owned_message (es ! j) = None) \<Longrightarrow>
     restore_scan es surface k r = Some (Some (ev_seq (es ! i), textOf m))"
  by (induction k arbitrary: r) (auto simp: less_Suc_eq split: option.split)

lemma scan_found:
  "restore_scan es surface k r = Some (Some (s, t)) \<Longrightarrow> r = None \<or> r = Some None \<Longrightarrow>
     \<exists>i < k. ev_seq (es ! i) = s \<and> s \<in> surface \<and> map_option textOf (owned_message (es ! i)) = Some t"
proof (induction k arbitrary: r)
  case (Suc k)
  show ?case
  proof (cases "owned_message (es ! k) \<noteq> None \<and> ev_seq (es ! k) \<in> surface")
    case True
    with Suc.prems(1) show ?thesis by (intro exI [of _ k]) auto
  next
    case False
    with Suc.prems have "restore_scan es surface k r = Some (Some (s, t)) \<or> restore_scan es surface k (Some None) = Some (Some (s, t))"
      by (auto simp: Let_def split: option.splits if_splits)
    with Suc.IH Suc.prems(2) show ?thesis using less_SucI by blast
  qed
qed auto

text \<open>C29: The runtime context of an agent that followed its log and the one restored from the log agree: both
  know whether a snapshot ever existed; a snapshot that the living agent retains is the newest one, is on the
  surface, and is exactly what a restored agent retains. Only where the newest snapshot has been replaced
  can they differ, and then the restored agent retains an older snapshot that is still on the surface.\<close>

theorem restored_context_agrees:
  assumes "foldSurface es = Inr (ns, rs)"
  shows "case foldl follow_context None es of
     None \<Rightarrow> restore_context es ns = None \<and> (\<forall>e \<in> set es. owned_message e = None)
   | Some (Some (s, t)) \<Rightarrow> restore_context es ns = Some (Some (s, t)) \<and> s \<in> set ns
       \<and> map_option textOf (owned_message (es ! s)) = Some t \<and> (\<forall>e \<in> set (drop (s + 1) es). owned_message e = None)
   | Some None \<Rightarrow> restore_context es ns = Some None \<or>
       (\<exists>s \<in> set ns. \<exists>t. restore_context es ns = Some (Some (s, t)) \<and> map_option textOf (owned_message (es ! s)) = Some t)"
proof -
  obtain st where "fold_prefix es 0 (length es) = Inr (st, rs)" and ns: "ns = nodes st"
    using assms by (auto simp: foldSurface_def fold_prefix_window res_simps)
  then have at: "context_at es (length es) ns (foldl follow_context None es)"
    using context_followed [of es "length es"] by simp
  have numbered: "ev_seq (es ! i) = i" if "i < length es" for i
    using foldSurface_contiguous [OF assms] that by (simp add: contiguous_def)
  note found = scan_found [of es "set ns" "length es" None, folded restore_context_def]
  show ?thesis
  proof (cases "foldl follow_context None es")
    case None
    with at show ?thesis by (auto simp: context_at_def restore_context_def scan_None in_set_conv_nth)
  next
    case (Some r)
    show ?thesis
    proof (cases r)
      case None
      with Some at have "restore_context es ns \<noteq> None" by (simp add: context_at_def restore_context_def scan_None)
      with Some None found numbered show ?thesis by (cases "restore_context es ns"; cases "the (restore_context es ns)") fastforce+
    next
      case (Some p)
      obtain s t where p: "p = (s, t)" by (cases p)
      from at \<open>foldl follow_context None es = Some r\<close> Some p have s: "s < length es" "s \<in> set ns"
        "map_option textOf (owned_message (es ! s)) = Some t" "\<And>i. i < length es \<Longrightarrow> s < i \<Longrightarrow> owned_message (es ! i) = None"
        by (auto simp: context_at_def)
      from s(3) obtain m where "owned_message (es ! s) = Some m" "textOf m = t" by auto
      with s numbered have "restore_context es ns = Some (Some (s, t))"
        unfolding restore_context_def by (subst scan_top [of s _ _ m]) auto
      with s \<open>foldl follow_context None es = Some r\<close> Some p show ?thesis by (auto simp: in_set_conv_nth)
    qed
  qed
qed

text \<open>Two snapshots, of which a summary replaces the second only.\<close>

definition context_event :: "nat \<Rightarrow> string \<Rightarrow> session_event" where
  "context_event k text = \<lparr>ev_seq = k, ev_time = 0, ev_data = UserMessage (context_message ''m'' text),
     ev_surfaceOp = JStr ''append'', ev_sources = JUndef\<rparr>"

definition context_log :: "session_event list" where
  "context_log = [context_event 0 ''old'', context_event 1 ''new'',
     \<lparr>ev_seq = 2, ev_time = 0, ev_data = UserMessage \<lparr>um_id = ''s'', um_source = SrcPlugin ''compaction'', um_content = JArr []\<rparr>,
      ev_surfaceOp = JObj [(''op'', JStr ''replace''), (''start'', JNum (js_int 1)), (''end'', JNum (js_int 1))],
      ev_sources = JArr [JNum (js_int 1)]\<rparr>]"

theorem restored_context_agrees_witness:
  "foldl follow_context None (take 2 context_log) = Some (Some (1, Some ''new''))
   \<and> restore_context (take 2 context_log) [0, 1] = Some (Some (1, Some ''new''))
   \<and> foldl follow_context None context_log = Some None \<and> restore_context context_log [0, 2] = Some (Some (0, Some ''old''))"
proof -
  have "foldSurface (take 2 context_log) = Inr ([0, 1], [])" by code_simp
  from restored_context_agrees [OF this]
  have "foldl follow_context None (take 2 context_log) = Some (Some (1, Some ''new''))
     \<Longrightarrow> restore_context (take 2 context_log) [0, 1] = Some (Some (1, Some ''new''))" by simp
  moreover have "foldl follow_context None (take 2 context_log) = Some (Some (1, Some ''new''))"
    "foldl follow_context None context_log = Some None" "restore_context context_log [0, 2] = Some (Some (0, Some ''old''))"
    by code_simp+
  ultimately show ?thesis by simp
qed

text \<open>A proposal that is committed is not made again.\<close>

lemma committed_context_retained:
  assumes "project_context i rendered r = Some m" "ev_data e = UserMessage m"
  shows "project_context j rendered (follow_context r e) = None"
proof -
  have "isOwned m \<and> textOf m = Some (if rendered = [] then CLEARED else rendered)"
    using assms(1) by (auto simp: project_context_def context_message_def isOwned_def textOf_def Let_def split: if_splits)
  with assms(2) show ?thesis by (simp add: follow_context_def owned_message_def project_context_def Let_def)
qed

end
