(* ===== verification/Spec2Isabelle.thy ===== *)
theory Spec2Isabelle
  imports Deque Compaction Seq_Ranges Session_Store Inbox Consumed_Work Goal_Service Projection_Units Retry_Recovery Driver_Frames Goal_Round_Fence Runtime_Context
begin

text \<open>
  \<^bold>\<open>Verification of the session core of the Hyperion workbench.\<close>

  The program is an agent harness. Its source of truth is an append-only log of events per session; almost
  everything else is computed from that log: the conversation surface that a model is shown, the pending
  input of an agent, its goal, the state of request retries, the registered projections. A driver works
  through the input in turns and steps, calls the model, runs the tool calls of its answers, and writes
  what happened to the log. This development models the log and its readers, the stores around it and the
  driver that writes it, all under \<^verbatim>\<open>src/packages\<close>.

  \<^bold>\<open>How the parts interact.\<close> An event enters through \<open>append\<close> (theory \<open>Session\<close>), which validates its
  envelope (\<open>Envelope\<close>) and its effect on the surface (\<open>Surface\<close>) before it commits. The same log must
  satisfy the relational invariant of turns, steps and calls (\<open>Session_Trace\<close>); a log that a crash cut short
  is completed by \<open>Repair\<close>. Folds over the log give the inbox (\<open>Inbox\<close>), the account of consumed work
  (\<open>Consumed_Work\<close>), the goal (\<open>Goal_Fold\<close>), the retries (\<open>Retry\<close>) and whatever a unit of the registry
  computes (\<open>Projection_Registry\<close>). Writers append only what their fold accepts: the commands of the inbox,
  the goal service (\<open>Goal_Service\<close>), the recovery of failed requests (\<open>Retry_Recovery\<close>), the scheduler of
  tool calls (\<open>Tool_Calls\<close>) and the driver (\<open>Agent_Driver\<close>), which calls the inbox, the recovery and the
  scheduler. The round driver of goals (\<open>Goal_Rounds\<close>) feeds continuations into the inbox and fences the steps
  that would take them; compaction (\<open>Compaction\<close>) replaces the head of the surface by a summary. The store (\<open>Session_Store\<close>) creates, forks, announces and retires sessions.

  \<^bold>\<open>Theories and the code they model.\<close>

  \<^item> \<open>Prelude\<close>: results of code that throws (\<open>bind_res\<close>, \<open>then_run\<close>), folds with errors (\<open>fold_res\<close>), array
    operations, and the locale of an incremental fold that agrees with a replay.
  \<^item> \<open>Js_Value\<close>: JavaScript values as they cross untyped boundaries, with NaN, infinities and negative zero.
  \<^item> \<open>Deque\<close>: \<^verbatim>\<open>util/deque/src/index.ts\<close>, the circular buffer; its contract is a locale of queues.
  \<^item> \<open>Session_Log\<close>: the event types of \<^verbatim>\<open>core/session/src/types.ts\<close> and the packages that extend them.
  \<^item> \<open>Surface\<close>: \<^verbatim>\<open>core/session/src/surface.ts\<close>, \<open>foldSurface\<close> and class \<open>SurfaceManager\<close>.
  \<^item> \<open>Session_Trace\<close>: \<^verbatim>\<open>core/session/src/invariant.ts\<close>; \<open>Trace_Append\<close> says which appends it takes next.
  \<^item> \<open>Repair\<close>: \<^verbatim>\<open>core/session/src/repair.ts\<close>.
  \<^item> \<open>Seq_Ranges\<close>: \<^verbatim>\<open>core/session/src/seq-ranges.ts\<close>.
  \<^item> \<open>Envelope\<close>: the validators at the boundary of \<^verbatim>\<open>core/session/src/index.ts\<close> and the lossless-JSON test.
  \<^item> \<open>Session\<close>: class \<open>Session\<close>. The record \<open>session\<close> has its fields, caches included; \<open>append\<close> and each
    read are one definition, and a read returns the session with its caches filled.
  \<^item> \<open>Session_Store\<close>: class \<open>SessionStore\<close>, as a step relation over session and entry objects.
  \<^item> \<open>Tool_Pairing\<close>: \<^verbatim>\<open>compaction/compaction/src/tool-pairing.ts\<close>, which says where a surface may be cut;
    \<open>Compaction\<close>: \<^verbatim>\<open>compaction/compaction-basic/src/region.ts\<close>, the choice of a region and the transaction
    \<open>compactSurfaceRegion\<close>, with what others append while the summary is written.
  \<^item> \<open>Inbox\<close>: \<^verbatim>\<open>core/agent-loop/src/inbox.ts\<close>; \<open>Consumed_Work\<close>: \<^verbatim>\<open>core/agent/src/consumed-work.ts\<close>.
  \<^item> \<open>Goal_Fold\<close>, \<open>Goal_Service\<close>: \<^verbatim>\<open>goal/goal/src\<close>, with \<^verbatim>\<open>fold.ts\<close>, \<^verbatim>\<open>domain.ts\<close>, \<^verbatim>\<open>types.ts\<close> and \<^verbatim>\<open>invariant.ts\<close> in
    the first and class \<open>GoalService\<close> in the second.
  \<^item> \<open>Goal_Rounds\<close>: \<^verbatim>\<open>goal/goal-round-driver/src\<close>, the reservation, delivery and settlement of goal
    continuations; the record \<open>round_state\<close> is its \<open>DriverState\<close>. \<open>Goal_Round_Fence\<close> proves its step fence.
  \<^item> \<open>Runtime_Context\<close>: \<^verbatim>\<open>core/agent-loop/src/runtime-context.ts\<close>, the snapshot of injected context.
  \<^item> \<open>Projection_Registry\<close>: \<^verbatim>\<open>session/session-projection/src/index.ts\<close>; \<open>Projection_Units\<close> instantiates it
    with the inbox and goal units of the program. \<open>Json_Text\<close> is \<open>JSON.stringify\<close> where keys are built.
  \<^item> \<open>Retry_Policy\<close>: \<^verbatim>\<open>llm/llm/src/retry-policy.ts\<close> and the delays of \<^verbatim>\<open>llm/llm-retry/src/index.ts\<close>;
    \<open>Retry\<close>: the projection, the recovery listener and the validator of \<^verbatim>\<open>llm/llm-retry/src\<close>;
    \<open>Retry_Recovery\<close>: that the recovery writes what the validator takes, and ends.
  \<^item> \<open>Tool_Calls\<close>: \<^verbatim>\<open>core/agent-loop/src/tool-calls.ts\<close>, one definition per closure of \<open>runGroup\<close>;
    \<open>Tool_Order\<close>: what it guarantees under every schedule.
  \<^item> \<open>Agent_Driver\<close>: class \<open>ReactLoopAgent\<close> of \<^verbatim>\<open>core/agent-loop/src/agent.ts\<close> and the frames of
    \<^verbatim>\<open>assistant-stream.ts\<close>. \<open>agent_phase\<close> is its \<open>Phase\<close>; \<open>send\<close>, \<open>cancel\<close>, \<open>kick\<close>, \<open>run_turn\<close>, \<open>run_step\<close>
    and their parts are its methods. \<open>Driver_Turns\<close>, \<open>Driver_Queue\<close> and \<open>Driver_Frames\<close> prove it.

  \<^bold>\<open>What the lemmas show.\<close>

  \<^item> Readers agree: the incremental manager refines the replay of the log, reads of a session do not depend
    on its caches, registry cells are folds of the log, checkpoints resume to the same state or are rejected,
    the retry projection finds what a scan of the history finds, the goal projection refines the strict fold.
  \<^item> Writers are sound: whatever the inbox, the goal service, the recovery, the scheduler and the driver
    append is accepted by the corresponding validator; logs only grow; messages are neither lost nor
    duplicated; a reference that was used once is refused afterwards.
  \<^item> The driver: at rest it leaves a log that the trace validator accepts, with no open turn, step or call,
    whatever other code does meanwhile and whoever throws; left alone it answers every queued message in a turn
    of its own; its live frames form complete attempts.
  \<^item> Goal rounds: a continuation reaches the model only if the durable log calls for that very round and text.
  \<^item> Compaction: the chosen region is valid and keeps the recent budget; a success replaces exactly the span
    that was selected, at balanced cuts; a failure never leaves half a replacement; the opening marker is a lock.
  \<^item> Recovery: a repaired log is accepted, needs no further repair, and has one answer for every call.
  \<^item> Codecs and bounds: goal records, source ranges, retry policies, persisted checkpoints.

  \<^bold>\<open>Conventions.\<close> A method that throws before any effect is a function into a sum type; one that may throw
  after an effect returns its state and a sum. Other code that runs while a method awaits is a list of
  commands per await, so a theorem about an arbitrary environment covers every interleaving. Loops without a
  structural measure carry fuel and return \<open>None\<close> when it ends: \<open>drain\<close> needs one unit per call and one more,
  \<open>executeToolCalls\<close> one per call, which \<open>Tool_Order\<close> proves to be enough; \<open>step_attempts\<close> needs
  \<open>maxRetries + 1\<close>, proved in \<open>Retry_Recovery\<close>; \<open>Driver_Queue\<close> proves the fuel that a driver needs to empty
  its queue. \<open>requestDrive\<close> nests at most once, because a nested call finds a checkpoint due. Where other code may feed the driver forever, theorems speak of the states in which it rests.

  \<^bold>\<open>Parameters and abstractions.\<close> Time, random numbers, minted identities, listeners, the model, the tool
  runtime and the adapters are parameters. Numbers that are counters are \<open>nat\<close> or \<open>int\<close>; numbers from
  untyped input are \<open>js_number\<close>, with exact rationals and a rounding function where the code computes with
  doubles. Strings are Isabelle strings, so keys with characters beyond Latin-1 are outside the model. Object
  identity matters in the store and the registry, where objects have addresses; elsewhere values are compared.
  Messages of errors are constructors or fixed strings. The scheduler assumes that its appends are accepted;
  \<open>Driver_Turns\<close> states when the session accepts them.

  \<^bold>\<open>What modelling showed.\<close> A goal whose round cap is edited below the rounds already used has a checkpoint
  that its own schema refuses (\<open>Projection_Units\<close>). \<open>buildRequest\<close> never assigns \<open>preparedCall\<close>, so the
  driver offers the recovery no retry policy, and a provider's policy is never executed (\<open>Driver_Turns\<close>).
  The documentation of \<open>steer\<close> says that steering survives a rejected step in the inbox, but \<open>preStep\<close> has
  claimed it by then.

  \<^bold>\<open>Not modelled.\<close> Model adapters and their streams, files, leases and format migrations, processes, sandboxes,
  the gateway and the user interfaces are input and output around this core. Prompt sections, the tool registry
  and the schema library are text and third-party code. When to compact, the summarising model and the pruner of
  tool results are policy around the compaction transaction. Schedules, reminders, titles, statistics, sub-agents and
  workflows are further clients of the same log. Disposal of plugins, freezing of objects and listeners that
  call back into an agent synchronously while it appends are left out of the modelled classes.
\<close>

end
